(* ===== verification/Xv6_Prelude.thy ===== *)
theory Xv6_Prelude
  imports Main "HOL-Library.Word"
begin

unbundle bit_operations_syntax

text \<open>
  Shared vocabulary of the development: the machine integer types of \<open>types.h\<close>, the limits of
  \<open>param.h\<close>, the ways in which kernel code can fail to return (a panic, going to sleep, a memory
  fault), the state-and-stop functions in which kernel operations are written, their
  weakest-precondition calculus, and the generic facts on lists and words that the components use.
\<close>

section \<open>Machine types and limits\<close>

type_synonym u8 = "8 word"
type_synonym u16 = "16 word"
type_synonym u32 = "32 word"

text \<open>The flat, byte-addressed 32-bit memory seen through kernel pointers.\<close>

type_synonym mem = "u32 \<Rightarrow> u8"

text \<open>Character and string constants of the sources, as bytes.\<close>

abbreviation (input) asc :: "char \<Rightarrow> u8" where "asc c \<equiv> of_char c"
abbreviation (input) bytes :: "string \<Rightarrow> u8 list" where "bytes s \<equiv> map of_char s"

abbreviation (input) NPROC :: nat where "NPROC \<equiv> 64"
abbreviation (input) NCPU :: nat where "NCPU \<equiv> 8"
abbreviation (input) NOFILE :: nat where "NOFILE \<equiv> 16"
abbreviation (input) NFILE :: nat where "NFILE \<equiv> 100"
abbreviation (input) NBUF :: nat where "NBUF \<equiv> 10"
abbreviation (input) NINODE :: nat where "NINODE \<equiv> 50"
abbreviation (input) NDEV :: nat where "NDEV \<equiv> 10"
abbreviation (input) ROOTDEV :: u32 where "ROOTDEV \<equiv> 1"
abbreviation (input) MAXARG :: nat where "MAXARG \<equiv> 32"
abbreviation (input) LOGSIZE :: nat where "LOGSIZE \<equiv> 10"

section \<open>How kernel code stops\<close>

text \<open>
  A wait channel is the kernel address passed to \<open>sleep\<close> and \<open>wakeup\<close>; the addresses the
  sources use belong to distinct objects, which the constructors keep apart.
\<close>

datatype chan =
    Chan_buf nat
  | Chan_inode nat
  | Chan_log
  | Chan_proc nat
  | Chan_pipe_nread nat
  | Chan_pipe_nwrite nat
  | Chan_ticks
  | Chan_input_r

text \<open>
  A kernel operation that does not return to its caller either panics, or calls \<open>sleep\<close> (another
  process has to run before it can go on), or spins on a lock another CPU holds, or touches memory
  that is not there.
\<close>

datatype stop = Panic string | Sleep chan | Spin | Fault

type_synonym ('s, 'a) km = "'s \<Rightarrow> stop + 'a \<times> 's"

definition kret :: "'a \<Rightarrow> ('s, 'a) km" where
  "kret x s = Inr (x, s)"

definition kbind :: "('s, 'a) km \<Rightarrow> ('a \<Rightarrow> ('s, 'b) km) \<Rightarrow> ('s, 'b) km" where
  "kbind m f s = (case m s of Inl e \<Rightarrow> Inl e | Inr (x, s') \<Rightarrow> f x s')"

definition kstop :: "stop \<Rightarrow> ('s, 'a) km" where
  "kstop e s = Inl e"

abbreviation kpanic :: "string \<Rightarrow> ('s, 'a) km" where
  "kpanic msg \<equiv> kstop (Panic msg)"

definition kget :: "('s \<Rightarrow> 'a) \<Rightarrow> ('s, 'a) km" where
  "kget f s = Inr (f s, s)"

definition kmod :: "('s \<Rightarrow> 's) \<Rightarrow> ('s, unit) km" where
  "kmod f s = Inr ((), f s)"

abbreviation kthen :: "('s, 'a) km \<Rightarrow> ('s, 'b) km \<Rightarrow> ('s, 'b) km" where
  "kthen m n \<equiv> kbind m (\<lambda>_. n)"

abbreviation kwhen :: "bool \<Rightarrow> ('s, unit) km \<Rightarrow> ('s, unit) km" where
  "kwhen b m \<equiv> (if b then m else kret ())"

text \<open>Run an operation for each element of a list, in order: a \<open>for\<close> loop without early exit.\<close>

fun kfor :: "'i list \<Rightarrow> ('i \<Rightarrow> ('s, unit) km) \<Rightarrow> ('s, unit) km" where
  "kfor [] f = kret ()"
| "kfor (i # is) f = kthen (f i) (kfor is f)"

text \<open>Run an operation of a component on the field of a larger state that holds the component.\<close>

definition klift :: "('s \<Rightarrow> 't) \<Rightarrow> ('t \<Rightarrow> 's \<Rightarrow> 's) \<Rightarrow> ('t, 'a) km \<Rightarrow> ('s, 'a) km" where
  "klift get put m s = (case m (get s) of Inl e \<Rightarrow> Inl e | Inr (x, t) \<Rightarrow> Inr (x, put t s))"

section \<open>Weakest preconditions\<close>

text \<open>
  \<open>wpe m Q E s\<close>: run from \<open>s\<close>, the operation returns with \<open>Q\<close> or stops with \<open>E\<close>. The two
  instances used most are total correctness (\<open>wp\<close>, no stop allowed) and partial correctness
  (\<open>wlp\<close>, any stop allowed).
\<close>

definition wpe :: "('s, 'a) km \<Rightarrow> ('a \<Rightarrow> 's \<Rightarrow> bool) \<Rightarrow> (stop \<Rightarrow> bool) \<Rightarrow> 's \<Rightarrow> bool" where
  "wpe m Q E s = (case m s of Inl e \<Rightarrow> E e | Inr (x, s') \<Rightarrow> Q x s')"

abbreviation wp :: "('s, 'a) km \<Rightarrow> ('a \<Rightarrow> 's \<Rightarrow> bool) \<Rightarrow> 's \<Rightarrow> bool" where
  "wp m Q \<equiv> wpe m Q (\<lambda>_. False)"

abbreviation wlp :: "('s, 'a) km \<Rightarrow> ('a \<Rightarrow> 's \<Rightarrow> bool) \<Rightarrow> 's \<Rightarrow> bool" where
  "wlp m Q \<equiv> wpe m Q (\<lambda>_. True)"

named_theorems wp_rules \<open>computing weakest preconditions of straight-line code\<close>

lemma wpe_kret [wp_rules]: "wpe (kret x) Q E s = Q x s"
  by (simp add: wpe_def kret_def)

lemma wpe_kbind [wp_rules]: "wpe (kbind m f) Q E s = wpe m (\<lambda>x. wpe (f x) Q E) E s"
  by (simp add: wpe_def kbind_def split: sum.splits prod.splits)

lemma wpe_kstop [wp_rules]: "wpe (kstop e) Q E s = E e"
  by (simp add: wpe_def kstop_def)

lemma wpe_kget [wp_rules]: "wpe (kget f) Q E s = Q (f s) s"
  by (simp add: wpe_def kget_def)

lemma wpe_kmod [wp_rules]: "wpe (kmod f) Q E s = Q () (f s)"
  by (simp add: wpe_def kmod_def)

lemma wpe_if [wp_rules]:
  "wpe (if b then m else n) Q E s = (if b then wpe m Q E s else wpe n Q E s)"
  by simp

lemma wpe_mono:
  assumes "wpe m Q E s"
    and "\<And>x s'. m s = Inr (x, s') \<Longrightarrow> Q x s' \<Longrightarrow> Q' x s'"
    and "\<And>e. E e \<Longrightarrow> E' e"
  shows "wpe m Q' E' s"
  using assms by (auto simp: wpe_def split: sum.splits)

lemma wpe_cong_state: "m s = m' s' \<Longrightarrow> wpe m Q E s = wpe m' Q E s'"
  by (simp add: wpe_def)

lemma wp_iff_returns: "wp m Q s \<longleftrightarrow> (\<exists>x s'. m s = Inr (x, s') \<and> Q x s')"
  by (auto simp: wpe_def split: sum.splits)

lemma wlp_iff: "wlp m Q s \<longleftrightarrow> (\<forall>x s'. m s = Inr (x, s') \<longrightarrow> Q x s')"
  by (auto simp: wpe_def split: sum.splits)

lemma wp_returns: "wp m Q s \<Longrightarrow> m s = Inr (x, s') \<Longrightarrow> Q x s'"
  by (simp add: wpe_def)

lemma kbind_Inr: "m s = Inr (x, s') \<Longrightarrow> kbind m f s = f x s'"
  by (simp add: kbind_def)

lemma kbind_Inl: "m s = Inl e \<Longrightarrow> kbind m f s = Inl e"
  by (simp add: kbind_def)

lemma kbind_assoc: "kbind (kbind m f) g = kbind m (\<lambda>x. kbind (f x) g)"
  by (rule ext) (simp add: kbind_def split: sum.splits prod.splits)

lemma kbind_kget: "kbind (kget f) g s = g (f s) s"
  by (simp add: kbind_def kget_def)

lemma kbind_kmod: "kbind (kmod f) g s = g () (f s)"
  by (simp add: kbind_def kmod_def)

lemma kbind_eq_Inr: "kbind m f s = Inr z \<longleftrightarrow> (\<exists>x s'. m s = Inr (x, s') \<and> f x s' = Inr z)"
  by (auto simp: kbind_def split: sum.splits)

lemmas km_run = kbind_kget kbind_kmod kbind_Inr

lemma kbind_kret [simp]: "kbind (kret x) f = f x"
  by (rule ext) (simp add: kbind_def kret_def)

text \<open>A loop keeps an invariant that its body keeps, whatever the body stops with.\<close>

lemma wlp_kfor:
  assumes "I s" and "\<And>i s. i \<in> set is \<Longrightarrow> I s \<Longrightarrow> wlp (f i) (\<lambda>_. I) s"
  shows "wlp (kfor is f) (\<lambda>_. I) s"
  using assms
proof (induction "is" arbitrary: s)
  case Nil
  then show ?case by (simp add: wp_rules)
next
  case (Cons i "is")
  have "wlp (f i) (\<lambda>_. I) s" using Cons.prems by simp
  then have "wlp (f i) (\<lambda>_. wlp (kfor is f) (\<lambda>_. I)) s"
    by (rule wpe_mono) (use Cons in auto)
  then show ?case by (simp add: wp_rules)
qed

text \<open>The straight-line code of the components is run by unfolding these.\<close>

lemmas km_defs = kret_def kbind_def kstop_def kget_def kmod_def

section \<open>Generic facts\<close>

lemma unat_word_of_nat_less:
  assumes "k < unat (n :: 'a::len word)"
  shows "unat (word_of_nat k :: 'a word) = k"
proof -
  have "k < 2 ^ LENGTH('a)"
    using assms unsigned_less [of n] by (rule order.strict_trans)
  then show ?thesis by (simp add: unat_of_nat)
qed

lemma in_range_word: "(a - d :: 'a::len word) < n \<longleftrightarrow> (\<exists>k < unat n. a = d + word_of_nat k)"
proof
  assume "a - d < n"
  then have "unat (a - d) < unat n" by (simp add: word_less_nat_alt)
  moreover have "a = d + word_of_nat (unat (a - d))" by simp
  ultimately show "\<exists>k < unat n. a = d + word_of_nat k" by blast
next
  assume "\<exists>k < unat n. a = d + word_of_nat k"
  then show "a - d < n" by (auto simp: word_less_nat_alt unat_word_of_nat_less)
qed

text \<open>An address is the \<open>k\<close>-th one from \<open>d\<close> exactly when its distance from \<open>d\<close> is \<open>k\<close>.\<close>

lemma addr_eq_offset:
  assumes "k < 2 ^ LENGTH('a)"
  shows "a = d + word_of_nat k \<longleftrightarrow> unat (a - d :: 'a::len word) = k"
proof
  assume "a = d + word_of_nat k"
  then show "unat (a - d) = k" using assms by (simp add: unat_of_nat)
next
  assume "unat (a - d) = k"
  then have "word_of_nat k = a - d" by auto
  then show "a = d + word_of_nat k" by simp
qed

lemma addr_eq_offset':
  "k < 2 ^ LENGTH('a) \<Longrightarrow> d + word_of_nat k = a \<longleftrightarrow> unat (a - d :: 'a::len word) = k"
  using addr_eq_offset by metis

lemma unat_u32_bound: "unat (x :: u32) < 2 ^ 32"
  using unsigned_less [of x, where 'a = nat] by simp

lemma unat_max_u32: "unat (- 1 :: u32) = 2 ^ 32 - 1"
  by (simp add: unsigned_minus_1_eq_mask mask_eq_exp_minus_1)

lemma word_of_nat_inj_less:
  "i < unat (n :: 'a::len word) \<Longrightarrow> j < unat n \<Longrightarrow> (word_of_nat i :: 'a word) = word_of_nat j \<longleftrightarrow> i = j"
  by (metis unat_word_of_nat_less)

text \<open>A small word has the same value read with and without sign.\<close>

lemma sint_small:
  assumes "unat x < 2 ^ 31"
  shows "sint (x :: u32) = int (unat x)"
proof -
  have "nat (uint x) < 2 ^ 31" using assms by (simp only: nat_uint_eq)
  moreover have nn: "0 \<le> uint x" by (rule uint_ge_0)
  ultimately have "uint x < int (2 ^ 31)" by (simp only: nat_less_iff)
  then have lt: "uint x < 2 ^ 31" by (simp only: of_nat_power of_nat_numeral)
  have "- (2 ^ 31) \<le> uint x" using nn by (rule order_trans [rotated]) simp
  then have "signed_take_bit 31 (uint x) = uint x" using lt by (rule signed_take_bit_int_eq_self)
  then show ?thesis by (simp add: sint_uint)
qed

end
