(* ===== verification/Bio.thy ===== *)
theory Bio
  imports Xv6_Prelude
begin

text \<open>
  The buffer cache of \<open>src/bio.c\<close> over the memory disk of \<open>src/memide.c\<close>. A buffer is named by its index
  in \<open>bcache.buf\<close>; the three flag bits are Booleans. The doubly linked list is kept as the list of its
  buffers from \<open>head.next\<close> on (most recently used first); the section on links shows that the pointer
  operations of \<open>binit\<close> and \<open>brelse\<close> implement that list. The history \<open>dtrace\<close> records every block
  written to the disk, which is what the crash theorems of the log need. All operations are
  polymorphic in the rest of the state, so that the layers above extend the record.
\<close>

section \<open>State\<close>

type_synonym block = "u8 list"

abbreviation (input) BSIZE :: nat where "BSIZE \<equiv> 512"

record buf =
  busy :: bool
  valid :: bool
  dirty :: bool
  bdev :: u32
  bsector :: u32
  bdata :: block

record bst =
  disk :: "u32 \<Rightarrow> block"
  disksize :: u32
  dtrace :: "(u32 \<times> block) list"
  bufs :: "nat \<Rightarrow> buf"
  lru :: "nat list"
  woken :: "chan list"

definition upd_buf :: "nat \<Rightarrow> (buf \<Rightarrow> buf) \<Rightarrow> 'a bst_scheme \<Rightarrow> 'a bst_scheme" where
  "upd_buf b f s = s \<lparr> bufs := (bufs s)(b := f (bufs s b)) \<rparr>"

definition wakeup :: "chan \<Rightarrow> ('a bst_scheme, unit) km" where
  "wakeup c = kmod (\<lambda>s. s \<lparr> woken := woken s @ [c] \<rparr>)"

section \<open>Operations\<close>

definition iderw :: "nat \<Rightarrow> ('a bst_scheme, unit) km" where
  "iderw b =
    kbind (kget (\<lambda>s. (bufs s b, disksize s))) (\<lambda>(bb, size).
    if \<not> busy bb then kpanic ''iderw: buf not busy''
    else if valid bb \<and> \<not> dirty bb then kpanic ''iderw: nothing to do''
    else if bdev bb \<noteq> 1 then kpanic ''iderw: request not for disk 1''
    else if bsector bb \<ge> size then kpanic ''iderw: sector out of range''
    else if dirty bb then
      kmod (\<lambda>s. (upd_buf b (\<lambda>x. x \<lparr> dirty := False, valid := True \<rparr>) s)
        \<lparr> disk := (disk s)(bsector bb := bdata bb), dtrace := dtrace s @ [(bsector bb, bdata bb)] \<rparr>)
    else kmod (\<lambda>s. upd_buf b (\<lambda>x. x \<lparr> bdata := disk s (bsector bb), valid := True \<rparr>) s))"

definition binit :: "('a bst_scheme, unit) km" where
  "binit = kmod (\<lambda>s. s \<lparr> bufs := (\<lambda>b. if b < NBUF then (bufs s b) \<lparr> bdev := - 1 \<rparr> else bufs s b),
                       lru := rev [0..<NBUF] \<rparr>)"

definition bget :: "u32 \<Rightarrow> u32 \<Rightarrow> ('a bst_scheme, nat) km" where
  "bget dev sector =
    kbind (kget (\<lambda>s. (bufs s, lru s))) (\<lambda>(bs, l).
    case find (\<lambda>b. bdev (bs b) = dev \<and> bsector (bs b) = sector) l of
      Some b \<Rightarrow>
        if \<not> busy (bs b) then kthen (kmod (upd_buf b (busy_update (\<lambda>_. True)))) (kret b)
        else kstop (Sleep (Chan_buf b))
    | None \<Rightarrow>
        (case find (\<lambda>b. \<not> busy (bs b) \<and> \<not> dirty (bs b)) (rev l) of
           Some b \<Rightarrow>
             kthen (kmod (upd_buf b (\<lambda>x. x \<lparr> bdev := dev, bsector := sector,
                                             busy := True, valid := False, dirty := False \<rparr>)))
                   (kret b)
         | None \<Rightarrow> kpanic ''bget: no buffers''))"

definition bread :: "u32 \<Rightarrow> u32 \<Rightarrow> ('a bst_scheme, nat) km" where
  "bread dev sector =
    kbind (bget dev sector) (\<lambda>b.
    kbind (kget (\<lambda>s. valid (bufs s b))) (\<lambda>v.
    kthen (kwhen (\<not> v) (iderw b)) (kret b)))"

definition bwrite :: "nat \<Rightarrow> ('a bst_scheme, unit) km" where
  "bwrite b =
    kbind (kget (\<lambda>s. busy (bufs s b))) (\<lambda>u.
    if \<not> u then kpanic ''bwrite''
    else kthen (kmod (upd_buf b (dirty_update (\<lambda>_. True)))) (iderw b))"

definition brelse :: "nat \<Rightarrow> ('a bst_scheme, unit) km" where
  "brelse b =
    kbind (kget (\<lambda>s. busy (bufs s b))) (\<lambda>u.
    if \<not> u then kpanic ''brelse''
    else kthen (kmod (\<lambda>s. (upd_buf b (busy_update (\<lambda>_. False)) s) \<lparr> lru := b # remove1 b (lru s) \<rparr>))
               (wakeup (Chan_buf b)))"

text \<open>A pointer into \<open>b->data\<close> is used to read and to overwrite the buffer's bytes.\<close>

definition bget_data :: "nat \<Rightarrow> ('a bst_scheme, block) km" where
  "bget_data b = kget (\<lambda>s. bdata (bufs s b))"

definition bset_data :: "nat \<Rightarrow> block \<Rightarrow> ('a bst_scheme, unit) km" where
  "bset_data b d = kmod (upd_buf b (bdata_update (\<lambda>_. d)))"

section \<open>The linked list\<close>

text \<open>The pointers themselves: \<open>nxt\<close> and \<open>prv\<close> of the buffers and, under the index \<open>NBUF\<close>, of \<open>bcache.head\<close>.\<close>

record links =
  nxt :: "nat \<Rightarrow> nat"
  prv :: "nat \<Rightarrow> nat"

abbreviation (input) HEAD :: nat where "HEAD \<equiv> NBUF"

definition link_front :: "nat \<Rightarrow> links \<Rightarrow> links" where
  "link_front b l0 =
    (let l1 = l0 \<lparr> nxt := (nxt l0)(b := nxt l0 HEAD) \<rparr>;
         l2 = l1 \<lparr> prv := (prv l1)(b := HEAD) \<rparr>;
         l3 = l2 \<lparr> prv := (prv l2)(nxt l2 HEAD := b) \<rparr>
     in l3 \<lparr> nxt := (nxt l3)(HEAD := b) \<rparr>)"

definition unlink :: "nat \<Rightarrow> links \<Rightarrow> links" where
  "unlink b l0 =
    (let l1 = l0 \<lparr> prv := (prv l0)(nxt l0 b := prv l0 b) \<rparr>
     in l1 \<lparr> nxt := (nxt l1)(prv l1 b := nxt l1 b) \<rparr>)"

definition binit_links :: "links \<Rightarrow> links" where
  "binit_links l = fold link_front [0..<NBUF] (l \<lparr> prv := (prv l)(HEAD := HEAD), nxt := (nxt l)(HEAD := HEAD) \<rparr>)"

definition brelse_links :: "nat \<Rightarrow> links \<Rightarrow> links" where
  "brelse_links b l = link_front b (unlink b l)"

text \<open>The pointers form the ring \<open>HEAD, xs\<close>: consecutive elements point at each other.\<close>

fun chain :: "links \<Rightarrow> nat \<Rightarrow> nat list \<Rightarrow> nat \<Rightarrow> bool" where
  "chain l x [] y \<longleftrightarrow> nxt l x = y \<and> prv l y = x"
| "chain l x (z # zs) y \<longleftrightarrow> nxt l x = z \<and> prv l z = x \<and> chain l z zs y"

definition ring_rep :: "nat list \<Rightarrow> links \<Rightarrow> bool" where
  "ring_rep xs l \<longleftrightarrow> distinct (HEAD # xs) \<and> chain l HEAD xs HEAD"

lemma chain_append: "chain l x (xs @ z # zs) y \<longleftrightarrow> chain l x xs z \<and> chain l z zs y"
  by (induction xs arbitrary: x) auto

lemma chain_hd: "chain l x xs y \<Longrightarrow> nxt l x = hd (xs @ [y])"
  by (cases xs) auto

lemma chain_last: "chain l x xs y \<Longrightarrow> prv l y = last (x # xs)"
  by (induction xs arbitrary: x) auto

text \<open>A chain depends on the forward pointers of all but its end and the backward ones of all but its start.\<close>

lemma chain_frame:
  assumes "chain l x xs y" "\<forall>z \<in> set (x # xs). nxt l' z = nxt l z" "\<forall>z \<in> set (xs @ [y]). prv l' z = prv l z"
  shows "chain l' x xs y"
  using assms by (induction xs arbitrary: x) auto

lemma chain_replace_start:
  assumes "chain l x xs y" "nxt l' x' = hd (xs @ [y])" "prv l' (hd (xs @ [y])) = x'"
    "\<forall>z \<in> set xs. nxt l' z = nxt l z" "\<forall>z \<in> set (tl (xs @ [y])). prv l' z = prv l z"
  shows "chain l' x' xs y"
proof (cases xs)
  case Nil
  then show ?thesis using assms by simp
next
  case (Cons z zs)
  have "chain l' z zs y" by (rule chain_frame [of l]) (use assms Cons in auto)
  then show ?thesis using assms Cons by simp
qed

lemma link_front_rep:
  assumes "ring_rep xs l" "b \<notin> set (HEAD # xs)"
  shows "ring_rep (b # xs) (link_front b l)"
proof -
  let ?l = "link_front b l"
  have ch: "chain l HEAD xs HEAD" and d: "distinct (HEAD # xs)" using assms(1) by (auto simp: ring_rep_def)
  have h: "nxt l HEAD = hd (xs @ [HEAD])" by (rule chain_hd [OF ch])
  have n: "nxt ?l = (nxt l)(b := hd (xs @ [HEAD]), HEAD := b)"
    using assms(2) h by (simp add: link_front_def Let_def)
  have p: "prv ?l = (prv l)(b := HEAD, hd (xs @ [HEAD]) := b)"
    using assms(2) h by (simp add: link_front_def Let_def)
  have nb: "hd (xs @ [HEAD]) \<noteq> b" using assms(2) by (cases xs) auto
  have "chain ?l b xs HEAD"
  proof (rule chain_replace_start [OF ch])
    show "\<forall>z \<in> set xs. nxt ?l z = nxt l z" using d assms(2) by (auto simp: n)
    show "\<forall>z \<in> set (tl (xs @ [HEAD])). prv ?l z = prv l z" using d assms(2) by (cases xs) (auto simp: p)
  qed (use assms(2) in \<open>simp_all add: n p\<close>)
  then show ?thesis using assms(2) d nb by (simp add: ring_rep_def n p)
qed

lemma unlink_rep:
  assumes "ring_rep (us @ b # vs) l"
  shows "ring_rep (us @ vs) (unlink b l)"
proof -
  let ?l = "unlink b l" and ?p = "last (HEAD # us)" and ?n = "hd (vs @ [HEAD])"
  have d: "distinct (HEAD # us @ b # vs)" and c1: "chain l HEAD us b" and c2: "chain l b vs HEAD"
    using assms by (auto simp: ring_rep_def chain_append)
  have nb: "nxt l b = ?n" "prv l b = ?p" using chain_hd [OF c2] chain_last [OF c1] by auto
  have pb: "b \<noteq> ?n" "b \<noteq> ?p" using d by (cases vs; auto)+
  have n: "nxt ?l = (nxt l)(?p := ?n)" and p: "prv ?l = (prv l)(?n := ?p)"
    using nb pb by (simp_all add: unlink_def Let_def)
  have rest: "chain ?l ?p vs HEAD"
  proof (rule chain_replace_start [OF c2])
    show "\<forall>z \<in> set vs. nxt ?l z = nxt l z" using d by (cases us rule: rev_cases) (auto simp: n)
    show "\<forall>z \<in> set (tl (vs @ [HEAD])). prv ?l z = prv l z" using d by (cases vs) (auto simp: p)
  qed (simp_all add: n p)
  show ?thesis
  proof (cases us rule: rev_cases)
    case Nil
    then show ?thesis using rest d by (simp add: ring_rep_def)
  next
    case (snoc ws w)
    have "chain l HEAD ws w" using c1 snoc by (simp add: chain_append)
    then have "chain ?l HEAD ws w"
      by (rule chain_frame) (use d snoc in \<open>cases vs; auto simp: n p\<close>)+
    then show ?thesis using rest d snoc by (simp add: ring_rep_def chain_append)
  qed
qed

lemma brelse_links_rep:
  assumes "ring_rep xs l" "b \<in> set xs"
  shows "ring_rep (b # remove1 b xs) (brelse_links b l)"
proof -
  obtain us vs where xs: "xs = us @ b # vs" "b \<notin> set us" using assms(2) by (meson split_list_first)
  have "distinct (HEAD # xs)" using assms(1) by (simp add: ring_rep_def)
  then show ?thesis
    unfolding brelse_links_def
    using link_front_rep [of "us @ vs" "unlink b l" b] unlink_rep [of us b vs l] assms(1) xs
    by (auto simp: remove1_append)
qed

lemma link_all_rep:
  assumes "ring_rep [] l" "k \<le> NBUF"
  shows "ring_rep (rev [0..<k]) (fold link_front [0..<k] l)"
  using assms(2)
proof (induction k)
  case 0
  then show ?case using assms(1) by simp
next
  case (Suc k)
  then show ?case using link_front_rep [of "rev [0..<k]" "fold link_front [0..<k] l" k] by simp
qed

section \<open>The cache invariant\<close>

text \<open>Every buffer is on the list once; no disk block is cached twice; a clean buffer that nobody holds has
  the contents of its disk block; only valid buffers are dirty.\<close>

definition bcache_ok :: "'a bst_scheme \<Rightarrow> bool" where
  "bcache_ok s \<longleftrightarrow> distinct (lru s) \<and> set (lru s) = {..<NBUF} \<and>
    (\<forall>i < NBUF. \<forall>j < NBUF. bdev (bufs s i) = 1 \<longrightarrow> bdev (bufs s j) = 1 \<longrightarrow>
       bsector (bufs s i) = bsector (bufs s j) \<longrightarrow> i = j) \<and>
    (\<forall>i < NBUF. dirty (bufs s i) \<longrightarrow> valid (bufs s i)) \<and>
    (\<forall>i < NBUF. bdev (bufs s i) = 1 \<longrightarrow> valid (bufs s i) \<longrightarrow> \<not> dirty (bufs s i) \<longrightarrow> \<not> busy (bufs s i) \<longrightarrow>
       bdata (bufs s i) = disk s (bsector (bufs s i)))"

lemma bcache_okD:
  assumes "bcache_ok s"
  shows "distinct (lru s)" "set (lru s) = {..<NBUF}"
    "\<And>i j. i < NBUF \<Longrightarrow> j < NBUF \<Longrightarrow> bdev (bufs s i) = 1 \<Longrightarrow> bdev (bufs s j) = 1 \<Longrightarrow>
       bsector (bufs s i) = bsector (bufs s j) \<Longrightarrow> i = j"
    "\<And>i. i < NBUF \<Longrightarrow> dirty (bufs s i) \<Longrightarrow> valid (bufs s i)"
    "\<And>i. i < NBUF \<Longrightarrow> bdev (bufs s i) = 1 \<Longrightarrow> valid (bufs s i) \<Longrightarrow> \<not> dirty (bufs s i) \<Longrightarrow> \<not> busy (bufs s i) \<Longrightarrow>
       bdata (bufs s i) = disk s (bsector (bufs s i))"
  using assms unfolding bcache_ok_def by blast+

text \<open>The block a reader of the cache sees.\<close>

definition view :: "'a bst_scheme \<Rightarrow> u32 \<Rightarrow> block" where
  "view s sec =
    (case find (\<lambda>b. bdev (bufs s b) = 1 \<and> bsector (bufs s b) = sec \<and> valid (bufs s b)) (lru s) of
       Some b \<Rightarrow> bdata (bufs s b)
     | None \<Rightarrow> disk s sec)"

lemma view_cached:
  assumes "bcache_ok s" "i < NBUF" "bdev (bufs s i) = 1" "valid (bufs s i)" "bsector (bufs s i) = sec"
  shows "view s sec = bdata (bufs s i)"
proof -
  let ?P = "\<lambda>b. bdev (bufs s b) = 1 \<and> bsector (bufs s b) = sec \<and> valid (bufs s b)"
  have "i \<in> set (lru s)" using bcache_okD(2) [OF assms(1)] assms(2) by auto
  then obtain b where b: "find ?P (lru s) = Some b" using assms by (cases "find ?P (lru s)") (auto simp: find_None_iff)
  then have "?P b" "b \<in> set (lru s)" by (auto simp: find_Some_iff)
  then have "b = i" using bcache_okD(2,3) [OF assms(1)] assms by auto
  then show ?thesis using b by (simp add: view_def)
qed

lemma view_uncached:
  assumes "bcache_ok s" "\<And>i. i < NBUF \<Longrightarrow> bdev (bufs s i) = 1 \<Longrightarrow> bsector (bufs s i) = sec \<Longrightarrow> \<not> valid (bufs s i)"
  shows "view s sec = disk s sec"
proof -
  have "find (\<lambda>b. bdev (bufs s b) = 1 \<and> bsector (bufs s b) = sec \<and> valid (bufs s b)) (lru s) = None"
    using assms bcache_okD(2) [OF assms(1)] by (auto simp: find_None_iff)
  then show ?thesis by (simp add: view_def)
qed

text \<open>What \<open>bread\<close> gives: a locked, valid buffer of the block with the contents a reader sees.\<close>

definition bread_post :: "'a bst_scheme \<Rightarrow> u32 \<Rightarrow> nat \<Rightarrow> 'a bst_scheme \<Rightarrow> bool" where
  "bread_post s sec b s' \<longleftrightarrow> b < NBUF \<and> \<not> busy (bufs s b) \<and>
    (\<exists>x. s' = s \<lparr> bufs := (bufs s)(b := x) \<rparr> \<and> busy x \<and> valid x \<and> bdev x = 1 \<and> bsector x = sec \<and>
      bdata x = view s sec \<and> dirty x = dirty (bufs s b) \<and>
      (bdev (bufs s b) = 1 \<and> bsector (bufs s b) = sec \<or> \<not> dirty (bufs s b)) \<and>
      (\<forall>i < NBUF. i \<noteq> b \<longrightarrow> bdev (bufs s i) = 1 \<longrightarrow> bsector (bufs s i) \<noteq> sec))"

definition no_buffers :: stop where
  "no_buffers = Panic ''bget: no buffers''"

lemma bread_spec:
  assumes "bcache_ok s"
  shows "(\<exists>b s'. bread 1 sec s = Inr (b, s') \<and> bread_post s sec b s') \<or>
    (\<exists>b < NBUF. bread 1 sec s = Inl (Sleep (Chan_buf b)) \<and> busy (bufs s b) \<and> bdev (bufs s b) = 1 \<and> bsector (bufs s b) = sec) \<or>
    bread 1 sec s = Inl no_buffers \<and> (\<forall>b < NBUF. (busy (bufs s b) \<or> dirty (bufs s b)) \<and>
      (bdev (bufs s b) = 1 \<longrightarrow> bsector (bufs s b) \<noteq> sec)) \<or>
    bread 1 sec s = Inl (Panic ''iderw: sector out of range'') \<and> disksize s \<le> sec"
proof -
  let ?P = "\<lambda>b. bdev (bufs s b) = 1 \<and> bsector (bufs s b) = sec"
  let ?F = "\<lambda>b. \<not> busy (bufs s b) \<and> \<not> dirty (bufs s b)"
  note ok = bcache_okD [OF assms]
  show ?thesis
  proof (cases "find ?P (lru s)")
    case (Some b)
    then have b: "?P b" "b < NBUF" using ok(2) by (auto simp: find_Some_iff)
    have u: "\<forall>i < NBUF. i \<noteq> b \<longrightarrow> bdev (bufs s i) = 1 \<longrightarrow> bsector (bufs s i) \<noteq> sec"
      using ok(3) b by metis
    show ?thesis
    proof (cases "busy (bufs s b)")
      case True
      then show ?thesis using Some b by (auto simp: bread_def bget_def kbind_def kget_def kstop_def)
    next
      case nb: False
      show ?thesis
      proof (cases "valid (bufs s b)")
        case True
        then have "bread 1 sec s = Inr (b, upd_buf b (busy_update (\<lambda>_. True)) s)"
          using Some nb by (simp add: bread_def bget_def km_defs upd_buf_def)
        moreover have "bread_post s sec b (upd_buf b (busy_update (\<lambda>_. True)) s)"
          unfolding bread_post_def upd_buf_def using b nb u True view_cached [OF assms b(2) _ True] by auto
        ultimately show ?thesis by blast
      next
        case False
        then have nd: "\<not> dirty (bufs s b)" using ok(4) b by blast
        have v: "view s sec = disk s sec" by (rule view_uncached [OF assms]) (use False u b in blast)
        show ?thesis
        proof (cases "disksize s \<le> sec")
          case True
          then show ?thesis using Some nb False b
            by (simp add: bread_def bget_def km_defs upd_buf_def iderw_def)
        next
          case lt: False
          let ?x = "(bufs s b) \<lparr> busy := True, bdata := disk s sec, valid := True \<rparr>"
          have "bread 1 sec s = Inr (b, s \<lparr> bufs := (bufs s)(b := ?x) \<rparr>)"
            using Some nb False b nd lt by (simp add: bread_def bget_def km_defs upd_buf_def iderw_def)
          moreover have "bread_post s sec b (s \<lparr> bufs := (bufs s)(b := ?x) \<rparr>)"
            unfolding bread_post_def using b nb u v by auto
          ultimately show ?thesis by blast
        qed
      qed
    qed
  next
    case None
    then have u: "\<forall>i < NBUF. bdev (bufs s i) = 1 \<longrightarrow> bsector (bufs s i) \<noteq> sec"
      using ok(2) by (auto simp: find_None_iff)
    have v: "view s sec = disk s sec" by (rule view_uncached [OF assms]) (use u in blast)
    show ?thesis
    proof (cases "find ?F (rev (lru s))")
      case none: None
      then have "\<forall>b < NBUF. busy (bufs s b) \<or> dirty (bufs s b)" using ok(2) by (auto simp: find_None_iff)
      moreover have "bread 1 sec s = Inl no_buffers"
        using None none by (simp add: bread_def bget_def km_defs no_buffers_def)
      ultimately show ?thesis using u by blast
    next
      case (Some b)
      then have b: "?F b" "b < NBUF" using ok(2) by (auto simp: find_Some_iff) (metis lessThan_iff nth_mem set_rev length_rev)
      show ?thesis
      proof (cases "disksize s \<le> sec")
        case True
        then show ?thesis using None Some b
          by (simp add: bread_def bget_def km_defs upd_buf_def iderw_def)
      next
        case lt: False
        let ?x = "(bufs s b) \<lparr> bdev := 1, bsector := sec, busy := True, dirty := False, bdata := disk s sec, valid := True \<rparr>"
        have "bread 1 sec s = Inr (b, s \<lparr> bufs := (bufs s)(b := ?x) \<rparr>)"
          using None Some b lt by (simp add: bread_def bget_def km_defs upd_buf_def iderw_def)
        moreover have "bread_post s sec b (s \<lparr> bufs := (bufs s)(b := ?x) \<rparr>)"
          unfolding bread_post_def by (intro conjI exI [of _ ?x]) (use b u v in simp_all)
        ultimately show ?thesis by blast
      qed
    qed
  qed
qed

lemma bread_Inr:
  assumes "bcache_ok s" "bread 1 sec s = Inr (b, s')"
  shows "bread_post s sec b s'"
  using bread_spec [OF assms(1), of sec] assms(2) by auto

section \<open>The operations on the view\<close>

lemma view_upd:
  assumes "bcache_ok s" "bcache_ok (s \<lparr> bufs := (bufs s)(b := x) \<rparr>)" "b < NBUF"
    "bdev x = 1" "valid x"
    "bdev (bufs s b) = 1 \<and> bsector (bufs s b) = bsector x \<or> \<not> dirty (bufs s b) \<and> \<not> busy (bufs s b)"
  shows "view (s \<lparr> bufs := (bufs s)(b := x) \<rparr>) = (view s)(bsector x := bdata x)"
proof
  fix sec
  let ?s = "s \<lparr> bufs := (bufs s)(b := x) \<rparr>"
  show "view ?s sec = ((view s)(bsector x := bdata x)) sec"
  proof (cases "sec = bsector x")
    case True
    then show ?thesis using view_cached [OF assms(2,3)] assms(4,5) by simp
  next
    case ne: False
    show ?thesis
    proof (cases "\<exists>i < NBUF. i \<noteq> b \<and> bdev (bufs s i) = 1 \<and> valid (bufs s i) \<and> bsector (bufs s i) = sec")
      case True
      then obtain i where i: "i < NBUF" "i \<noteq> b" "bdev (bufs s i) = 1" "valid (bufs s i)" "bsector (bufs s i) = sec" by blast
      then show ?thesis using view_cached [OF assms(1), of i sec] view_cached [OF assms(2), of i sec] ne by simp
    next
      case False
      have "view ?s sec = disk ?s sec"
        by (rule view_uncached [OF assms(2)]) (use False ne in \<open>auto split: if_splits\<close>)
      then have new: "view ?s sec = disk s sec" by simp
      have "view s sec = disk s sec"
      proof (cases "bdev (bufs s b) = 1 \<and> valid (bufs s b) \<and> bsector (bufs s b) = sec")
        case True
        then show ?thesis
          using view_cached [OF assms(1,3), of sec] bcache_okD(5) [OF assms(1,3)] assms(6) ne by auto
      next
        case no: False
        show ?thesis by (rule view_uncached [OF assms(1)]) (use no False in blast)
      qed
      then show ?thesis using new ne by simp
    qed
  qed
qed

lemma bcache_ok_upd:
  assumes "bcache_ok s" "b < NBUF" "valid x"
    "bdev x = 1 \<longrightarrow> (\<forall>i < NBUF. i \<noteq> b \<longrightarrow> bdev (bufs s i) = 1 \<longrightarrow> bsector (bufs s i) \<noteq> bsector x)"
    "bdev x = 1 \<longrightarrow> \<not> dirty x \<longrightarrow> \<not> busy x \<longrightarrow> bdata x = disk s (bsector x)"
  shows "bcache_ok (s \<lparr> bufs := (bufs s)(b := x) \<rparr>)"
proof -
  note ok = bcache_okD [OF assms(1)]
  have "i = j" if "i < NBUF" "j < NBUF" "bdev (((bufs s)(b := x)) i) = 1" "bdev (((bufs s)(b := x)) j) = 1"
    "bsector (((bufs s)(b := x)) i) = bsector (((bufs s)(b := x)) j)" for i j
    using that ok(3) [of i j] assms(4) by (cases "i = b"; cases "j = b") auto
  moreover have "valid (((bufs s)(b := x)) i)" if "i < NBUF" "dirty (((bufs s)(b := x)) i)" for i
    using that ok(4) [of i] assms(3) by (cases "i = b") simp_all
  moreover have "bdata (((bufs s)(b := x)) i) = disk s (bsector (((bufs s)(b := x)) i))"
    if "i < NBUF" "bdev (((bufs s)(b := x)) i) = 1" "valid (((bufs s)(b := x)) i)" "\<not> dirty (((bufs s)(b := x)) i)"
      "\<not> busy (((bufs s)(b := x)) i)" for i
    using that ok(5) [of i] assms(5) by (cases "i = b") simp_all
  moreover have "bufs (s \<lparr> bufs := (bufs s)(b := x) \<rparr>) = (bufs s)(b := x)"
    "lru (s \<lparr> bufs := (bufs s)(b := x) \<rparr>) = lru s" "disk (s \<lparr> bufs := (bufs s)(b := x) \<rparr>) = disk s" by simp_all
  note eqs = this
  ultimately show ?thesis using ok(1,2) unfolding bcache_ok_def eqs by blast
qed

text \<open>A buffer that a process holds: locked, valid, of the given disk block.\<close>

definition holds :: "'a bst_scheme \<Rightarrow> nat \<Rightarrow> u32 \<Rightarrow> bool" where
  "holds s b sec \<longleftrightarrow> b < NBUF \<and> busy (bufs s b) \<and> valid (bufs s b) \<and> bdev (bufs s b) = 1 \<and> bsector (bufs s b) = sec"

lemma bread_post_ok:
  assumes "bcache_ok s" "bread_post s sec b s'"
  shows "bcache_ok s'" "view s' = view s" "holds s' b sec" "bdata (bufs s' b) = view s sec"
    "disk s' = disk s" "dtrace s' = dtrace s" "disksize s' = disksize s" "lru s' = lru s" "woken s' = woken s"
    "\<And>i. i \<noteq> b \<Longrightarrow> bufs s' i = bufs s i" "dirty (bufs s' b) = dirty (bufs s b)" "\<not> busy (bufs s b)" "b < NBUF"
proof -
  from assms(2) obtain x where x: "s' = s \<lparr> bufs := (bufs s)(b := x) \<rparr>" "busy x" "valid x" "bdev x = 1" "bsector x = sec"
    "bdata x = view s sec" "dirty x = dirty (bufs s b)" "b < NBUF" "\<not> busy (bufs s b)"
    "bdev (bufs s b) = 1 \<and> bsector (bufs s b) = sec \<or> \<not> dirty (bufs s b)"
    "\<forall>i < NBUF. i \<noteq> b \<longrightarrow> bdev (bufs s i) = 1 \<longrightarrow> bsector (bufs s i) \<noteq> sec"
    unfolding bread_post_def by blast
  show ok: "bcache_ok s'" unfolding x(1) by (rule bcache_ok_upd) (use assms(1) x in auto)
  have "view s' = (view s)(bsector x := bdata x)"
    unfolding x(1) by (rule view_upd) (use assms(1) ok x in auto)
  then show "view s' = view s" using x(5,6) by simp
  show "holds s' b sec" "bdata (bufs s' b) = view s sec" "disk s' = disk s" "dtrace s' = dtrace s"
    "disksize s' = disksize s" "lru s' = lru s" "woken s' = woken s" "\<And>i. i \<noteq> b \<Longrightarrow> bufs s' i = bufs s i"
    "dirty (bufs s' b) = dirty (bufs s b)" "\<not> busy (bufs s b)" "b < NBUF"
    using x by (simp_all add: holds_def)
qed

lemma holds_view: "bcache_ok s \<Longrightarrow> holds s b sec \<Longrightarrow> view s sec = bdata (bufs s b)"
  unfolding holds_def using view_cached by blast

lemma holds_unique:
  assumes "bcache_ok s" "holds s b sec" "i < NBUF" "i \<noteq> b" "bdev (bufs s i) = 1"
  shows "bsector (bufs s i) \<noteq> sec"
  using assms bcache_okD(3) [OF assms(1)] unfolding holds_def by metis

lemma bset_data_ok:
  assumes "bcache_ok s" "holds s b sec"
  shows "bcache_ok (upd_buf b (bdata_update (\<lambda>_. d)) s)"
    "view (upd_buf b (bdata_update (\<lambda>_. d)) s) = (view s)(sec := d)"
    "holds (upd_buf b (bdata_update (\<lambda>_. d)) s) b sec"
proof -
  let ?x = "(bufs s b) \<lparr> bdata := d \<rparr>"
  have h: "b < NBUF" "busy (bufs s b)" "valid (bufs s b)" "bdev (bufs s b) = 1" "bsector (bufs s b) = sec"
    using assms(2) by (auto simp: holds_def)
  show ok: "bcache_ok (upd_buf b (bdata_update (\<lambda>_. d)) s)"
    unfolding upd_buf_def by (rule bcache_ok_upd) (use assms h holds_unique in \<open>auto\<close>)
  show "view (upd_buf b (bdata_update (\<lambda>_. d)) s) = (view s)(sec := d)"
    using view_upd [OF assms(1) ok [unfolded upd_buf_def] h(1)] h by (simp add: upd_buf_def)
  show "holds (upd_buf b (bdata_update (\<lambda>_. d)) s) b sec" using h by (simp add: holds_def upd_buf_def)
qed

lemma mark_dirty_ok:
  assumes "bcache_ok s" "holds s b sec"
  shows "bcache_ok (upd_buf b (dirty_update (\<lambda>_. True)) s)"
    "view (upd_buf b (dirty_update (\<lambda>_. True)) s) = view s"
    "holds (upd_buf b (dirty_update (\<lambda>_. True)) s) b sec"
proof -
  have h: "b < NBUF" "busy (bufs s b)" "valid (bufs s b)" "bdev (bufs s b) = 1" "bsector (bufs s b) = sec"
    using assms(2) by (auto simp: holds_def)
  show ok: "bcache_ok (upd_buf b (dirty_update (\<lambda>_. True)) s)"
    unfolding upd_buf_def by (rule bcache_ok_upd) (use assms h holds_unique in \<open>auto\<close>)
  show "view (upd_buf b (dirty_update (\<lambda>_. True)) s) = view s"
    using view_upd [OF assms(1) ok [unfolded upd_buf_def] h(1)] h holds_view [OF assms] by (simp add: upd_buf_def fun_upd_idem)
  show "holds (upd_buf b (dirty_update (\<lambda>_. True)) s) b sec" using h by (simp add: holds_def upd_buf_def)
qed

lemma bwrite_run:
  assumes "holds s b sec" "sec < disksize s"
  shows "bwrite b s = Inr ((), (upd_buf b (\<lambda>x. x \<lparr> dirty := False, valid := True \<rparr>) s)
    \<lparr> disk := (disk s)(sec := bdata (bufs s b)), dtrace := dtrace s @ [(sec, bdata (bufs s b))] \<rparr>)"
  using assms by (simp add: bwrite_def iderw_def holds_def km_defs upd_buf_def not_le)

lemma bwrite_ok:
  assumes "bcache_ok s" "holds s b sec"
  shows "bcache_ok ((upd_buf b (\<lambda>x. x \<lparr> dirty := False, valid := True \<rparr>) s)
      \<lparr> disk := (disk s)(sec := bdata (bufs s b)), dtrace := t \<rparr>)" (is "bcache_ok ?s")
    "view ((upd_buf b (\<lambda>x. x \<lparr> dirty := False, valid := True \<rparr>) s)
      \<lparr> disk := (disk s)(sec := bdata (bufs s b)), dtrace := t \<rparr>) = view s"
    "holds ((upd_buf b (\<lambda>x. x \<lparr> dirty := False, valid := True \<rparr>) s)
      \<lparr> disk := (disk s)(sec := bdata (bufs s b)), dtrace := t \<rparr>) b sec"
proof -
  have h: "b < NBUF" "busy (bufs s b)" "valid (bufs s b)" "bdev (bufs s b) = 1" "bsector (bufs s b) = sec"
    using assms(2) by (auto simp: holds_def)
  note ok = bcache_okD [OF assms(1)]
  show h': "holds ?s b sec" using h by (simp add: holds_def upd_buf_def)
  show ok': "bcache_ok ?s"
    unfolding bcache_ok_def using ok h holds_unique [OF assms] by (simp add: upd_buf_def)
  show "view ?s = view s"
  proof
    fix x
    show "view ?s x = view s x"
    proof (cases "\<exists>i < NBUF. bdev (bufs s i) = 1 \<and> valid (bufs s i) \<and> bsector (bufs s i) = x")
      case True
      then obtain i where i: "i < NBUF" "bdev (bufs s i) = 1" "valid (bufs s i)" "bsector (bufs s i) = x" by blast
      then show ?thesis
        using view_cached [OF assms(1), of i x] view_cached [OF ok', of i x] by (cases "i = b") (simp_all add: upd_buf_def)
    next
      case False
      have "x \<noteq> sec" using False h by blast
      have "view ?s x = disk ?s x"
        by (rule view_uncached [OF ok']) (use False h in \<open>auto simp: upd_buf_def split: if_splits\<close>)
      then have "view ?s x = disk s x" using \<open>x \<noteq> sec\<close> by (simp add: upd_buf_def)
      moreover have "view s x = disk s x" by (rule view_uncached [OF assms(1)]) (use False in blast)
      ultimately show ?thesis by simp
    qed
  qed
qed

lemma brelse_run:
  assumes "busy (bufs s b)"
  shows "brelse b s = Inr ((), (upd_buf b (busy_update (\<lambda>_. False)) s)
    \<lparr> lru := b # remove1 b (lru s), woken := woken s @ [Chan_buf b] \<rparr>)"
  using assms by (simp add: brelse_def wakeup_def km_defs upd_buf_def)

lemma view_lru:
  assumes "bcache_ok s" "bcache_ok s'" "disk s' = disk s"
    "\<And>i. valid (bufs s' i) = valid (bufs s i) \<and> bdev (bufs s' i) = bdev (bufs s i) \<and>
       bsector (bufs s' i) = bsector (bufs s i) \<and> bdata (bufs s' i) = bdata (bufs s i)"
  shows "view s' = view s"
proof
  fix x
  show "view s' x = view s x"
  proof (cases "\<exists>i < NBUF. bdev (bufs s i) = 1 \<and> valid (bufs s i) \<and> bsector (bufs s i) = x")
    case True
    then obtain i where i: "i < NBUF" "bdev (bufs s i) = 1" "valid (bufs s i)" "bsector (bufs s i) = x" by blast
    then show ?thesis
      using view_cached [OF assms(1), of i x] view_cached [OF assms(2), of i x] assms(4) by simp
  next
    case False
    have "view s x = disk s x" by (rule view_uncached [OF assms(1)]) (use False in blast)
    moreover have "view s' x = disk s' x" by (rule view_uncached [OF assms(2)]) (use False assms(4) in auto)
    ultimately show ?thesis using assms(3) by simp
  qed
qed

lemma brelse_ok:
  assumes "bcache_ok s" "holds s b sec" "dirty (bufs s b) \<or> bdata (bufs s b) = disk s sec"
  shows "bcache_ok ((upd_buf b (busy_update (\<lambda>_. False)) s) \<lparr> lru := b # remove1 b (lru s), woken := w \<rparr>)" (is "bcache_ok ?s")
    "view ((upd_buf b (busy_update (\<lambda>_. False)) s) \<lparr> lru := b # remove1 b (lru s), woken := w \<rparr>) = view s"
proof -
  have h: "b < NBUF" "busy (bufs s b)" "valid (bufs s b)" "bdev (bufs s b) = 1" "bsector (bufs s b) = sec"
    using assms(2) by (auto simp: holds_def)
  note ok = bcache_okD [OF assms(1)]
  have "distinct (lru ?s)" "set (lru ?s) = {..<NBUF}" using ok(1,2) h(1) by auto
  moreover have "i = j" if "i < NBUF" "j < NBUF" "bdev (bufs ?s i) = 1" "bdev (bufs ?s j) = 1"
    "bsector (bufs ?s i) = bsector (bufs ?s j)" for i j
    using that ok(3) [of i j] by (cases "i = b"; cases "j = b") (simp_all add: upd_buf_def)
  moreover have "valid (bufs ?s i)" if "i < NBUF" "dirty (bufs ?s i)" for i
    using that ok(4) [of i] by (cases "i = b") (simp_all add: upd_buf_def)
  moreover have "bdata (bufs ?s i) = disk ?s (bsector (bufs ?s i))"
    if "i < NBUF" "bdev (bufs ?s i) = 1" "valid (bufs ?s i)" "\<not> dirty (bufs ?s i)" "\<not> busy (bufs ?s i)" for i
    using that ok(5) [of i] assms(3) h by (cases "i = b") (simp_all add: upd_buf_def)
  ultimately show ok': "bcache_ok ?s" unfolding bcache_ok_def by blast
  show "view ?s = view s" by (rule view_lru [OF assms(1) ok']) (auto simp: upd_buf_def)
qed

lemma bread_returns:
  assumes "bcache_ok s" "sec < disksize s"
    "\<And>i. i < NBUF \<Longrightarrow> bdev (bufs s i) = 1 \<Longrightarrow> bsector (bufs s i) = sec \<Longrightarrow> \<not> busy (bufs s i)"
    "(\<exists>i < NBUF. \<not> busy (bufs s i) \<and> \<not> dirty (bufs s i)) \<or> (\<exists>i < NBUF. bdev (bufs s i) = 1 \<and> bsector (bufs s i) = sec)"
  shows "\<exists>b s'. bread 1 sec s = Inr (b, s') \<and> bread_post s sec b s'"
  using bread_spec [OF assms(1), of sec] assms(2-4) by (auto simp: not_le [symmetric])

section \<open>Whole-block accesses\<close>

text \<open>Between two system calls nobody holds a buffer.\<close>

definition quiet :: "'a bst_scheme \<Rightarrow> bool" where
  "quiet s \<longleftrightarrow> bcache_ok s \<and> (\<forall>i < NBUF. \<not> busy (bufs s i))"

text \<open>The disk blocks that only the cache has up to date.\<close>

definition dirty_sectors :: "'a bst_scheme \<Rightarrow> u32 set" where
  "dirty_sectors s = {bsector (bufs s i) | i. i < NBUF \<and> dirty (bufs s i) \<and> bdev (bufs s i) = 1}"

lemma dirty_sectors_iff:
  "x \<in> dirty_sectors s \<longleftrightarrow> (\<exists>i. i < NBUF \<and> dirty (bufs s i) \<and> bdev (bufs s i) = 1 \<and> x = bsector (bufs s i))"
  unfolding dirty_sectors_def by blast

lemma quiet_view:
  assumes "quiet s" "sec \<notin> dirty_sectors s"
  shows "view s sec = disk s sec"
proof (cases "\<exists>i < NBUF. bdev (bufs s i) = 1 \<and> valid (bufs s i) \<and> bsector (bufs s i) = sec")
  case True
  then obtain i where i: "i < NBUF" "bdev (bufs s i) = 1" "valid (bufs s i)" "bsector (bufs s i) = sec" by blast
  have ok: "bcache_ok s" using assms(1) by (simp add: quiet_def)
  have "\<not> dirty (bufs s i)" using assms(2) i unfolding dirty_sectors_def by blast
  moreover have "\<not> busy (bufs s i)" using assms(1) i by (simp add: quiet_def)
  ultimately show ?thesis using view_cached [OF ok i(1-4)] bcache_okD(5) [OF ok i(1-3)] i by simp
next
  case False
  have ok: "bcache_ok s" using assms(1) by (simp add: quiet_def)
  show ?thesis by (rule view_uncached [OF ok]) (use False in blast)
qed

text \<open>The frame of a completed access: the layers above are untouched, and so is every dirty buffer of
  another block.\<close>

definition same_rest :: "'a bst_scheme \<Rightarrow> 'a bst_scheme \<Rightarrow> bool" where
  "same_rest s s' \<longleftrightarrow> disksize s' = disksize s \<and> bst.more s' = bst.more s"

definition wrote :: "'a bst_scheme \<Rightarrow> u32 \<Rightarrow> block \<Rightarrow> 'a bst_scheme \<Rightarrow> bool" where
  "wrote s sec v s' \<longleftrightarrow> quiet s' \<and> same_rest s s' \<and> disk s' = (disk s)(sec := v) \<and>
    dtrace s' = dtrace s @ [(sec, v)] \<and> view s' = (view s)(sec := v) \<and>
    dirty_sectors s' = dirty_sectors s - {sec} \<and> (\<exists>i < NBUF. \<not> dirty (bufs s' i)) \<and>
    (\<forall>i < NBUF. dirty (bufs s' i) \<longrightarrow> bufs s' i = bufs s i)"

text \<open>Changing the bytes of a held buffer, writing it out and releasing it.\<close>

lemma write_out_run:
  assumes "bcache_ok s" "holds s b sec" "sec < disksize s"
  shows "\<exists>s'. kthen (bset_data b v) (kthen (bwrite b) (brelse b)) s = Inr ((), s') \<and>
    bcache_ok s' \<and> \<not> busy (bufs s' b) \<and> bdev (bufs s' b) = 1 \<and> bsector (bufs s' b) = sec \<and>
    valid (bufs s' b) \<and> bdata (bufs s' b) = v \<and> same_rest s s' \<and> disk s' = (disk s)(sec := v) \<and> dtrace s' = dtrace s @ [(sec, v)] \<and>
    view s' = (view s)(sec := v) \<and> (\<forall>i. i \<noteq> b \<longrightarrow> bufs s' i = bufs s i) \<and> \<not> dirty (bufs s' b)"
proof -
  let ?s1 = "upd_buf b (bdata_update (\<lambda>_. v)) s"
  note 1 = bset_data_ok [OF assms(1,2), of v]
  have v: "bdata (bufs ?s1 b) = v" by (simp add: upd_buf_def)
  have "sec < disksize ?s1" using assms(3) by (simp add: upd_buf_def)
  note w = bwrite_run [OF 1(3) this]
  let ?s2 = "(upd_buf b (\<lambda>x. x \<lparr> dirty := False, valid := True \<rparr>) ?s1)
    \<lparr> disk := (disk ?s1)(sec := bdata (bufs ?s1 b)), dtrace := dtrace ?s1 @ [(sec, bdata (bufs ?s1 b))] \<rparr>"
  note 2 = bwrite_ok [OF 1(1,3), of "dtrace ?s1 @ [(sec, bdata (bufs ?s1 b))]"]
  have "busy (bufs ?s2 b)" using 2(3) by (simp add: holds_def)
  note r = brelse_run [OF this]
  have "bdata (bufs ?s2 b) = disk ?s2 sec" by (simp add: upd_buf_def)
  note 3 = brelse_ok [OF 2(1,3) disjI2 [OF this]]
  let ?s3 = "(upd_buf b (busy_update (\<lambda>_. False)) ?s2)
    \<lparr> lru := b # remove1 b (lru ?s2), woken := woken ?s2 @ [Chan_buf b] \<rparr>"
  have run: "kthen (bset_data b v) (kthen (bwrite b) (brelse b)) s = Inr ((), ?s3)"
    using w r by (simp add: bset_data_def kbind_def kmod_def)
  have "bcache_ok ?s3" by (rule 3(1))
  moreover have "\<not> busy (bufs ?s3 b)" "bdev (bufs ?s3 b) = 1" "bsector (bufs ?s3 b) = sec" "valid (bufs ?s3 b)"
    "bdata (bufs ?s3 b) = v" using assms(2) by (simp_all add: upd_buf_def holds_def)
  moreover have "view ?s3 = (view s)(sec := v)" using 3(2) 2(2) 1(2) by metis
  moreover have "same_rest s ?s3" "disk ?s3 = (disk s)(sec := v)" "dtrace ?s3 = dtrace s @ [(sec, v)]"
    "\<forall>i. i \<noteq> b \<longrightarrow> bufs ?s3 i = bufs s i" "\<not> dirty (bufs ?s3 b)"
    using v by (simp_all add: upd_buf_def same_rest_def)
  ultimately show ?thesis using run by blast
qed

lemma dirty_sectors_clean:
  assumes "bcache_ok s" "b < NBUF" "\<forall>i. i \<noteq> b \<longrightarrow> bufs s' i = bufs s i" "\<not> dirty (bufs s' b)"
    "\<forall>i < NBUF. i \<noteq> b \<longrightarrow> bdev (bufs s i) = 1 \<longrightarrow> bsector (bufs s i) \<noteq> sec"
    "bdev (bufs s b) = 1 \<and> bsector (bufs s b) = sec \<or> \<not> dirty (bufs s b)"
  shows "dirty_sectors s' = dirty_sectors s - {sec}"
proof (intro equalityI subsetI)
  fix x
  assume "x \<in> dirty_sectors s'"
  then obtain i where i: "i < NBUF" "dirty (bufs s' i)" "bdev (bufs s' i) = 1" "x = bsector (bufs s' i)"
    unfolding dirty_sectors_def by blast
  then have "i \<noteq> b" using assms(4) by blast
  then show "x \<in> dirty_sectors s - {sec}" using i assms(3,5) unfolding dirty_sectors_def by auto
next
  fix x
  assume x: "x \<in> dirty_sectors s - {sec}"
  then obtain i where i: "i < NBUF" "dirty (bufs s i)" "bdev (bufs s i) = 1" "x = bsector (bufs s i)"
    unfolding dirty_sectors_def by blast
  have "i \<noteq> b" using i x assms(6) by auto
  then have "bufs s' i = bufs s i" using assms(3) by blast
  then show "x \<in> dirty_sectors s'" using i unfolding dirty_sectors_def by (auto intro!: exI [of _ i])
qed

lemma bread_post_dirty:
  assumes "bread_post s sec b s'"
  shows "dirty_sectors s' = dirty_sectors s"
proof -
  from assms obtain x where x: "s' = s \<lparr> bufs := (bufs s)(b := x) \<rparr>" "bdev x = 1" "bsector x = sec"
    "dirty x = dirty (bufs s b)" "bdev (bufs s b) = 1 \<and> bsector (bufs s b) = sec \<or> \<not> dirty (bufs s b)"
    unfolding bread_post_def by blast
  have "(i < NBUF \<and> dirty (bufs s' i) \<and> bdev (bufs s' i) = 1 \<and> y = bsector (bufs s' i)) =
      (i < NBUF \<and> dirty (bufs s i) \<and> bdev (bufs s i) = 1 \<and> y = bsector (bufs s i))" for i y
    using x by (cases "i = b") auto
  then show ?thesis unfolding dirty_sectors_def by (auto simp: conj_commute)
qed

lemma block_out_run:
  assumes "quiet s" "sec < disksize s" "\<exists>i < NBUF. \<not> dirty (bufs s i)"
  shows "\<exists>s'. kbind (bread 1 sec) (\<lambda>b. kbind (bget_data b) (\<lambda>d.
      kthen (bset_data b (f d)) (kthen (bwrite b) (brelse b)))) s = Inr ((), s') \<and>
    wrote s sec (f (view s sec)) s'"
proof -
  have ok: "bcache_ok s" and nb: "\<forall>i < NBUF. \<not> busy (bufs s i)" using assms(1) by (auto simp: quiet_def)
  from bread_returns [OF ok assms(2)] nb assms(3) obtain b s1
    where r: "bread 1 sec s = Inr (b, s1)" and post: "bread_post s sec b s1" by blast
  note p = bread_post_ok [OF ok post]
  have nb1: "\<forall>i < NBUF. i \<noteq> b \<longrightarrow> \<not> busy (bufs s1 i)" using nb p(10) by auto
  from write_out_run [OF p(1,3), of "f (view s sec)"] assms(2) p(7) obtain s'
    where w: "kthen (bset_data b (f (view s sec))) (kthen (bwrite b) (brelse b)) s1 = Inr ((), s')"
      "bcache_ok s' \<and> \<not> busy (bufs s' b)"
      "same_rest s1 s'" "disk s' = (disk s1)(sec := f (view s sec))" "dtrace s' = dtrace s1 @ [(sec, f (view s sec))]"
      "view s' = (view s1)(sec := f (view s sec))" "\<forall>i. i \<noteq> b \<longrightarrow> bufs s' i = bufs s1 i" "\<not> dirty (bufs s' b)" by auto
  have "same_rest s s1" using post by (auto simp: same_rest_def bread_post_def)
  then have rest: "same_rest s s'" using w(3) by (simp add: same_rest_def)
  have "\<forall>i. i \<noteq> b \<longrightarrow> bufs s' i = bufs s i" using w(7) p(10) by auto
  then have d: "dirty_sectors s' = dirty_sectors s - {sec}"
    by (intro dirty_sectors_clean [OF ok p(13)]) (use w(8) post in \<open>auto simp: bread_post_def\<close>)
  have run: "kbind (bread 1 sec) (\<lambda>b. kbind (bget_data b) (\<lambda>d.
      kthen (bset_data b (f d)) (kthen (bwrite b) (brelse b)))) s = Inr ((), s')"
    using r w(1) p(4) by (simp add: kbind_def bget_data_def kget_def)
  have "quiet s'" unfolding quiet_def using w(2,7) nb1 by metis
  moreover have "\<forall>i < NBUF. dirty (bufs s' i) \<longrightarrow> bufs s' i = bufs s i" using w(7,8) p(10) by metis
  ultimately have "wrote s sec (f (view s sec)) s'"
    unfolding wrote_def using w(4,5,6,8) d rest p(2,5,6,13) by auto
  with run show ?thesis by blast
qed

text \<open>Reading a block and releasing it.\<close>

definition peeked :: "'a bst_scheme \<Rightarrow> 'a bst_scheme \<Rightarrow> bool" where
  "peeked s s' \<longleftrightarrow> quiet s' \<and> same_rest s s' \<and> disk s' = disk s \<and> dtrace s' = dtrace s \<and> view s' = view s \<and>
    dirty_sectors s' = dirty_sectors s \<and> (\<exists>i < NBUF. \<not> dirty (bufs s' i)) \<and>
    (\<forall>i < NBUF. dirty (bufs s' i) \<longrightarrow> bufs s' i = bufs s i)"

lemma peek_run:
  assumes "quiet s" "sec < disksize s" "\<exists>i < NBUF. \<not> dirty (bufs s i)"
  shows "\<exists>b s1 s2. bread 1 sec s = Inr (b, s1) \<and> bread_post s sec b s1 \<and> holds s1 b sec \<and> bdata (bufs s1 b) = view s sec \<and>
    brelse b s1 = Inr ((), s2) \<and> peeked s s2"
proof -
  have ok: "bcache_ok s" and nb: "\<forall>i < NBUF. \<not> busy (bufs s i)" using assms(1) by (auto simp: quiet_def)
  from bread_returns [OF ok assms(2)] nb assms(3) obtain b s1
    where r: "bread 1 sec s = Inr (b, s1)" and post: "bread_post s sec b s1" by blast
  note p = bread_post_ok [OF ok post]
  have "busy (bufs s1 b)" using p(3) by (simp add: holds_def)
  note rel = brelse_run [OF this]
  let ?s2 = "(upd_buf b (busy_update (\<lambda>_. False)) s1) \<lparr> lru := b # remove1 b (lru s1), woken := woken s1 @ [Chan_buf b] \<rparr>"
  have "dirty (bufs s1 b) \<or> bdata (bufs s1 b) = disk s1 sec"
  proof (cases "sec \<in> dirty_sectors s")
    case True
    then obtain i where i: "i < NBUF" "dirty (bufs s1 i)" "bdev (bufs s1 i) = 1" "sec = bsector (bufs s1 i)"
      unfolding bread_post_dirty [OF post, symmetric] dirty_sectors_iff by blast
    then have "i = b" using holds_unique [OF p(1,3), of i] by blast
    then show ?thesis using i by simp
  next
    case False
    then show ?thesis using quiet_view [OF assms(1)] p(4,5) by simp
  qed
  note 2 = brelse_ok [OF p(1,3) this, of "woken s1 @ [Chan_buf b]"]
  have b2: "bufs ?s2 i = (if i = b then (bufs s1 b) \<lparr> busy := False \<rparr> else bufs s i)" for i
    using p(10) by (simp add: upd_buf_def)
  have "dirty_sectors ?s2 = dirty_sectors s1" unfolding dirty_sectors_def by (auto simp: upd_buf_def)
  then have d: "dirty_sectors ?s2 = dirty_sectors s" using bread_post_dirty [OF post] by simp
  have "quiet ?s2" unfolding quiet_def b2 using 2(1) nb by auto
  moreover have "same_rest s ?s2" using post by (auto simp: same_rest_def bread_post_def upd_buf_def)
  moreover have "\<exists>i < NBUF. \<not> dirty (bufs ?s2 i)" unfolding b2 using assms(3) p(11) by auto
  moreover have "bufs ?s2 i = bufs s i" if i: "i < NBUF" "dirty (bufs ?s2 i)" for i
  proof (cases "i = b")
    case True
    from i(2) True p(11) have dirty: "dirty (bufs s b)" by (simp add: upd_buf_def)
    from post obtain x where x: "s1 = s \<lparr> bufs := (bufs s)(b := x) \<rparr>" "busy x" "valid x" "bdev x = 1" "bsector x = sec"
      "bdata x = view s sec" "dirty x = dirty (bufs s b)" "bdev (bufs s b) = 1" "bsector (bufs s b) = sec"
      using dirty unfolding bread_post_def by blast
    have "valid (bufs s b)" using bcache_okD(4) [OF ok p(13) dirty] .
    moreover from view_cached [OF ok p(13) x(8) this x(9)] have "bdata (bufs s b) = view s sec" by simp
    ultimately show ?thesis unfolding True b2 using x dirty p(12) by (cases "bufs s b"; cases x) simp
  qed (use b2 in simp)
  ultimately have "peeked s ?s2" unfolding peeked_def using d 2(2) p(2,5,6) by (simp add: upd_buf_def)
  then show ?thesis using r post p(3,4) rel by blast
qed

lemma block_read_run:
  assumes "quiet s" "sec < disksize s" "\<exists>i < NBUF. \<not> dirty (bufs s i)"
  shows "\<exists>s'. kbind (bread 1 sec) (\<lambda>b. kbind (bget_data b) (\<lambda>d. kthen (brelse b) (kret (f d)))) s =
    Inr (f (view s sec), s') \<and> peeked s s'"
proof -
  from peek_run [OF assms] obtain b s1 s2 where r: "bread 1 sec s = Inr (b, s1)" "bdata (bufs s1 b) = view s sec"
    "brelse b s1 = Inr ((), s2)" "peeked s s2" by blast
  then show ?thesis by (simp add: kbind_def bget_data_def kget_def kret_def)
qed

text \<open>Copying a clean block over another one, both held at the same time.\<close>

lemma copy_out_run:
  assumes "bcache_ok s" "holds s l lsec" "holds s b sec" "l \<noteq> b" "sec < disksize s"
    "\<forall>i < NBUF. i \<noteq> b \<longrightarrow> i \<noteq> l \<longrightarrow> \<not> busy (bufs s i)" "bdata (bufs s l) = disk s lsec" "lsec \<noteq> sec" "\<not> dirty (bufs s l)"
  shows "\<exists>s'. kbind (bget_data l) (\<lambda>d. kthen (bset_data b d) (kthen (bwrite b) (kthen (brelse l) (brelse b)))) s = Inr ((), s') \<and>
    quiet s' \<and> same_rest s s' \<and> disk s' = (disk s)(sec := view s lsec) \<and>
    dtrace s' = dtrace s @ [(sec, view s lsec)] \<and> view s' = (view s)(sec := view s lsec) \<and>
    (\<forall>i. i \<noteq> b \<longrightarrow> i \<noteq> l \<longrightarrow> bufs s' i = bufs s i) \<and> \<not> dirty (bufs s' b) \<and> \<not> dirty (bufs s' l) \<and>
    bdev (bufs s' l) = bdev (bufs s l) \<and> bsector (bufs s' l) = bsector (bufs s l)"
proof -
  let ?v = "view s lsec"
  have lv: "bdata (bufs s l) = ?v" using holds_view [OF assms(1,2)] by simp
  let ?s1 = "upd_buf b (bdata_update (\<lambda>_. ?v)) s"
  note 1 = bset_data_ok [OF assms(1,3), of ?v]
  have v: "bdata (bufs ?s1 b) = ?v" by (simp add: upd_buf_def)
  have "sec < disksize ?s1" using assms(5) by (simp add: upd_buf_def)
  note w = bwrite_run [OF 1(3) this]
  let ?t = "dtrace ?s1 @ [(sec, bdata (bufs ?s1 b))]"
  let ?s2 = "(upd_buf b (\<lambda>x. x \<lparr> dirty := False, valid := True \<rparr>) ?s1)
    \<lparr> disk := (disk ?s1)(sec := bdata (bufs ?s1 b)), dtrace := ?t \<rparr>"
  note 2 = bwrite_ok [OF 1(1,3), of ?t]
  have hl: "holds ?s2 l lsec" using assms(2,4) by (simp add: holds_def upd_buf_def)
  have "busy (bufs ?s2 l)" using hl by (simp add: holds_def)
  note r = brelse_run [OF this]
  have "bdata (bufs ?s2 l) = disk ?s2 lsec" using assms(4,7,8) by (simp add: upd_buf_def)
  note 3 = brelse_ok [OF 2(1) hl disjI2 [OF this]]
  let ?w = "woken ?s2 @ [Chan_buf l]"
  let ?s3 = "(upd_buf l (busy_update (\<lambda>_. False)) ?s2) \<lparr> lru := l # remove1 l (lru ?s2), woken := ?w \<rparr>"
  have hb: "holds ?s3 b sec" using 2(3) assms(4) by (simp add: holds_def upd_buf_def)
  have "busy (bufs ?s3 b)" using hb by (simp add: holds_def)
  note r' = brelse_run [OF this]
  have "bdata (bufs ?s3 b) = disk ?s3 sec" using assms(4) by (simp add: upd_buf_def)
  note 4 = brelse_ok [OF 3(1) hb disjI2 [OF this]]
  let ?w' = "woken ?s3 @ [Chan_buf b]"
  let ?s4 = "(upd_buf b (busy_update (\<lambda>_. False)) ?s3) \<lparr> lru := b # remove1 b (lru ?s3), woken := ?w' \<rparr>"
  have run: "kbind (bget_data l) (\<lambda>d. kthen (bset_data b d) (kthen (bwrite b) (kthen (brelse l) (brelse b)))) s = Inr ((), ?s4)"
    using w r r' lv by (simp add: bset_data_def bget_data_def kget_def kbind_def kmod_def)
  have "quiet ?s4" unfolding quiet_def using 4(1) [of ?w'] assms(4,6) by (simp add: upd_buf_def)
  moreover have "view ?s4 = (view s)(sec := ?v)" using 4(2) 3(2) 2(2) 1(2) by metis
  moreover have "same_rest s ?s4" "disk ?s4 = (disk s)(sec := ?v)" "dtrace ?s4 = dtrace s @ [(sec, ?v)]"
    "\<forall>i. i \<noteq> b \<longrightarrow> i \<noteq> l \<longrightarrow> bufs ?s4 i = bufs s i" "\<not> dirty (bufs ?s4 b)" "\<not> dirty (bufs ?s4 l)"
    "bdev (bufs ?s4 l) = bdev (bufs s l)" "bsector (bufs ?s4 l) = bsector (bufs s l)"
    using v assms(4,9) by (simp_all add: upd_buf_def same_rest_def)
  ultimately show ?thesis using run by blast
qed

definition copy_block :: "u32 \<Rightarrow> u32 \<Rightarrow> ('a bst_scheme, unit) km" where
  "copy_block lsec sec = kbind (bread 1 lsec) (\<lambda>l. kbind (bread 1 sec) (\<lambda>b.
    kbind (bget_data l) (\<lambda>d. kthen (bset_data b d) (kthen (bwrite b) (kthen (brelse l) (brelse b))))))"

lemma copy_block_run:
  assumes "quiet s" "lsec < disksize s" "sec < disksize s" "lsec \<noteq> sec" "lsec \<notin> dirty_sectors s"
    "i < NBUF" "\<not> dirty (bufs s i)" "sec \<in> dirty_sectors s \<or> (\<exists>j < NBUF. j \<noteq> i \<and> \<not> dirty (bufs s j))"
  shows "\<exists>s'. copy_block lsec sec s = Inr ((), s') \<and> wrote s sec (disk s lsec) s'"
proof -
  have ok: "bcache_ok s" and nb: "\<forall>i < NBUF. \<not> busy (bufs s i)" using assms(1) by (auto simp: quiet_def)
  from bread_returns [OF ok assms(2)] nb assms(6,7) obtain l s1
    where r1: "bread 1 lsec s = Inr (l, s1)" and post1: "bread_post s lsec l s1" by blast
  note p1 = bread_post_ok [OF ok post1]
  have nd: "\<not> dirty (bufs s l)"
    using post1 assms(5) unfolding bread_post_def dirty_sectors_def by auto
  have vl: "view s lsec = disk s lsec" by (rule quiet_view [OF assms(1,5)])
  have "(\<exists>i < NBUF. \<not> busy (bufs s1 i) \<and> \<not> dirty (bufs s1 i)) \<or> (\<exists>i < NBUF. bdev (bufs s1 i) = 1 \<and> bsector (bufs s1 i) = sec)"
    using assms(8)
  proof
    assume "sec \<in> dirty_sectors s"
    then obtain j where "j < NBUF" "dirty (bufs s j)" "bdev (bufs s j) = 1" "bsector (bufs s j) = sec"
      unfolding dirty_sectors_def by blast
    moreover from this nd have "j \<noteq> l" by blast
    ultimately show ?thesis using p1(10) by metis
  next
    assume "\<exists>j < NBUF. j \<noteq> i \<and> \<not> dirty (bufs s j)"
    then show ?thesis using p1(10) nb assms(6,7) by metis
  qed
  moreover have "\<not> busy (bufs s1 j)" if "j < NBUF" "bdev (bufs s1 j) = 1" "bsector (bufs s1 j) = sec" for j
    using that p1(3,10) nb assms(4) by (cases "j = l") (auto simp: holds_def)
  ultimately obtain b s2 where r2: "bread 1 sec s1 = Inr (b, s2)" and post2: "bread_post s1 sec b s2"
    using bread_returns [OF p1(1)] assms(3) p1(7) by metis
  note p2 = bread_post_ok [OF p1(1) post2]
  have lb: "l \<noteq> b" using p2(12) p1(3) by (auto simp: holds_def)
  have hl: "holds s2 l lsec" using p1(3) p2(10) [OF lb] by (simp add: holds_def)
  have dl: "bdata (bufs s2 l) = disk s2 lsec" "\<not> dirty (bufs s2 l)"
    using p2(5,10) lb p1(4,5,11) vl nd by auto
  have nb2: "\<forall>i < NBUF. i \<noteq> b \<longrightarrow> i \<noteq> l \<longrightarrow> \<not> busy (bufs s2 i)" using nb p1(10) p2(10) by auto
  have sz: "sec < disksize s2" using assms(3) p1(7) p2(7) by simp
  from copy_out_run [OF p2(1) hl p2(3) lb sz nb2 dl(1) assms(4) dl(2)] obtain s'
    where w: "kbind (bget_data l) (\<lambda>d. kthen (bset_data b d) (kthen (bwrite b) (kthen (brelse l) (brelse b)))) s2 = Inr ((), s')"
      "quiet s'" "same_rest s2 s'" "disk s' = (disk s2)(sec := view s2 lsec)" "dtrace s' = dtrace s2 @ [(sec, view s2 lsec)]"
      "view s' = (view s2)(sec := view s2 lsec)" "\<forall>i. i \<noteq> b \<longrightarrow> i \<noteq> l \<longrightarrow> bufs s' i = bufs s2 i" "\<not> dirty (bufs s' b)"
      "\<not> dirty (bufs s' l)" "bdev (bufs s' l) = bdev (bufs s2 l)" "bsector (bufs s' l) = bsector (bufs s2 l)" by blast
  have v: "view s2 lsec = disk s lsec" using p2(2) p1(2) vl by simp
  have "same_rest s s1" "same_rest s1 s2" using post1 post2 by (auto simp: same_rest_def bread_post_def)
  then have rest: "same_rest s s'" using w(3) by (simp add: same_rest_def)
  have "dirty_sectors s' = dirty_sectors s1 - {sec}"
  proof -
    have "bufs s' i = bufs s1 i" if "i \<noteq> b" "i \<noteq> l" for i using w(7) p2(10) that by simp
    moreover have "\<not> dirty (bufs s1 l)" using p1(11) nd by simp
    ultimately have "(i < NBUF \<and> dirty (bufs s' i) \<and> bdev (bufs s' i) = 1 \<and> y = bsector (bufs s' i)) =
        (i < NBUF \<and> dirty (bufs s1 i) \<and> bdev (bufs s1 i) = 1 \<and> y = bsector (bufs s1 i) \<and> y \<noteq> sec)" for i y
      using w(8,9) post2 by (cases "i = b"; cases "i = l") (auto simp: bread_post_def)
    then have "y \<in> dirty_sectors s' \<longleftrightarrow> y \<in> dirty_sectors s1 - {sec}" for y
      unfolding dirty_sectors_iff Diff_iff singleton_iff by metis
    then show ?thesis by (rule set_eqI)
  qed
  then have d: "dirty_sectors s' = dirty_sectors s - {sec}" using bread_post_dirty [OF post1] by simp
  have same: "\<forall>i < NBUF. dirty (bufs s' i) \<longrightarrow> bufs s' i = bufs s i" using w(7,8,9) p1(10) p2(10) by metis
  have "copy_block lsec sec s = Inr ((), s')" using r1 r2 w(1) by (simp add: copy_block_def kbind_def)
  moreover have "wrote s sec (disk s lsec) s'"
    unfolding wrote_def using w(2,4,5,6) v d rest same p1(2,5,6) p2(2,5,6,13) w(8) by auto
  ultimately show ?thesis by blast
qed

section \<open>Properties\<close>

text \<open>
  C31. The buffer cache is coherent. From a state in which no block is cached twice and clean unlocked
  buffers agree with the disk, \<open>bread\<close> either returns a locked, valid buffer of the requested block,
  with the contents every reader sees, and changes neither those contents nor the disk and keeps the
  invariant; or it sleeps because the block's buffer is locked; or it panics because every buffer is
  locked or dirty, or because the block is not on the disk.
\<close>

theorem bread_coherent:
  assumes "bcache_ok s"
  shows "case bread 1 sec s of
      Inr (b, s') \<Rightarrow> bcache_ok s' \<and> holds s' b sec \<and> bdata (bufs s' b) = view s sec \<and> view s' = view s \<and> disk s' = disk s
    | Inl e \<Rightarrow> (\<exists>b < NBUF. e = Sleep (Chan_buf b) \<and> busy (bufs s b) \<and> bsector (bufs s b) = sec) \<or>
        e = Panic ''bget: no buffers'' \<and> (\<forall>b < NBUF. busy (bufs s b) \<or> dirty (bufs s b)) \<or>
        e = Panic ''iderw: sector out of range'' \<and> disksize s \<le> sec"
proof -
  consider b s' where "bread 1 sec s = Inr (b, s')" "bread_post s sec b s'"
    | b where "b < NBUF" "bread 1 sec s = Inl (Sleep (Chan_buf b))" "busy (bufs s b)" "bsector (bufs s b) = sec"
    | "bread 1 sec s = Inl no_buffers" "\<forall>b < NBUF. busy (bufs s b) \<or> dirty (bufs s b)"
    | "bread 1 sec s = Inl (Panic ''iderw: sector out of range'')" "disksize s \<le> sec"
    using bread_spec [OF assms, of sec] by blast
  then show ?thesis
  proof cases
    case 1
    then show ?thesis using bread_post_ok [OF assms 1(2)] by simp
  next
    case 2
    then show ?thesis by auto
  next
    case 3
    then show ?thesis by (simp add: no_buffers_def)
  next
    case 4
    then show ?thesis by simp
  qed
qed

text \<open>The cache after \<open>binit\<close>, with an empty first buffer.\<close>

definition bst0 :: bst where
  "bst0 = \<lparr> disk = (\<lambda>x. replicate BSIZE (ucast x)), disksize = 1000, dtrace = [],
    bufs = (\<lambda>_. \<lparr> busy = False, valid = False, dirty = False, bdev = - 1, bsector = 0, bdata = [] \<rparr>),
    lru = rev [0..<NBUF], woken = [] \<rparr>"

lemma bst0_ok: "bcache_ok bst0"
  by (auto simp: bcache_ok_def bst0_def)

theorem bread_coherent_witness:
  "bcache_ok bst0 \<and> (\<exists>b s'. bread 1 7 bst0 = Inr (b, s') \<and> holds s' b 7 \<and> bdata (bufs s' b) = replicate BSIZE 7)"
proof -
  have "\<exists>b s'. bread 1 7 bst0 = Inr (b, s') \<and> bread_post bst0 7 b s'"
    by (rule bread_returns [OF bst0_ok]) (auto simp: bst0_def intro: exI [of _ 0])
  then obtain b s' where r: "bread 1 7 bst0 = Inr (b, s')" by blast
  have "view bst0 7 = replicate BSIZE 7"
    by (subst view_uncached [OF bst0_ok]) (simp_all add: bst0_def)
  with bread_coherent [OF bst0_ok, of 7] r bst0_ok show ?thesis by auto
qed

text \<open>
  C32. The pointers of the buffer list implement the list of the model. \<open>binit\<close> links all buffers, the last
  one first, whatever the pointers were before, and the pointer assignments of \<open>brelse\<close> move the
  released buffer to the front and leave the order of the others, so that following \<open>next\<close> from the head
  visits exactly \<open>lru\<close>, and following \<open>prev\<close> its reverse.
\<close>

theorem lru_links_refine:
  "ring_rep (rev [0..<NBUF]) (binit_links l) \<and>
   (ring_rep xs l \<and> b \<in> set xs \<longrightarrow> ring_rep (b # remove1 b xs) (brelse_links b l))"
proof (intro conjI impI)
  let ?l = "l \<lparr> prv := (prv l)(HEAD := HEAD), nxt := (nxt l)(HEAD := HEAD) \<rparr>"
  have "ring_rep [] ?l" by (simp add: ring_rep_def)
  from link_all_rep [OF this le_refl] show "ring_rep (rev [0..<NBUF]) (binit_links l)"
    by (simp only: binit_links_def)
qed (use brelse_links_rep in blast)

theorem lru_links_refine_witness:
  "ring_rep [3, 9, 8, 7, 6, 5, 4, 2, 1, 0] (brelse_links 3 (binit_links \<lparr> nxt = (\<lambda>_. 0), prv = (\<lambda>_. 0) \<rparr>))"
proof -
  let ?l = "binit_links \<lparr> nxt = (\<lambda>_. 0), prv = (\<lambda>_. 0) \<rparr>"
  have r: "rev [0..<NBUF] = [9, 8, 7, 6, 5, 4, 3, 2, 1, 0]" by (simp add: upt_rec)
  have "ring_rep [9, 8, 7, 6, 5, 4, 3, 2, 1, 0] ?l"
    using lru_links_refine [of "\<lparr> nxt = (\<lambda>_. 0), prv = (\<lambda>_. 0) \<rparr>"] unfolding r by blast
  with lru_links_refine [of ?l "[9, 8, 7, 6, 5, 4, 3, 2, 1, 0]" 3] show ?thesis by simp
qed

end
