(* ===== verification/Layout.thy ===== *)
theory Layout
  imports Xv6_Prelude
begin

text \<open>
  The layout of structures inside disk blocks (\<open>src/fs.h\<close>): big-endian integers at byte offsets, the super
  block, disk inodes and directory entries. A structure is written into a block in place; reading a
  field back gives what was written and leaves the other fields alone.
\<close>

section \<open>Bytes in a block\<close>

text \<open>Overwriting the bytes of a block from an offset on, as \<open>memmove\<close> into \<open>bp->data + off\<close> does.\<close>

definition bsplice :: "nat \<Rightarrow> u8 list \<Rightarrow> u8 list \<Rightarrow> u8 list" where
  "bsplice off bs d = take off d @ bs @ drop (off + length bs) d"

definition bslice :: "nat \<Rightarrow> nat \<Rightarrow> u8 list \<Rightarrow> u8 list" where
  "bslice off n d = take n (drop off d)"

definition be16 :: "u16 \<Rightarrow> u8 list" where
  "be16 v = [ucast (drop_bit 8 v), ucast v]"

definition be32 :: "u32 \<Rightarrow> u8 list" where
  "be32 v = [ucast (drop_bit 24 v), ucast (drop_bit 16 v), ucast (drop_bit 8 v), ucast v]"

definition get16 :: "u8 list \<Rightarrow> nat \<Rightarrow> u16" where
  "get16 d off = push_bit 8 (ucast (d ! off)) OR ucast (d ! (off + 1))"

definition get32 :: "u8 list \<Rightarrow> nat \<Rightarrow> u32" where
  "get32 d off = push_bit 24 (ucast (d ! off)) OR push_bit 16 (ucast (d ! (off + 1)))
     OR push_bit 8 (ucast (d ! (off + 2))) OR ucast (d ! (off + 3))"

definition put16 :: "nat \<Rightarrow> u16 \<Rightarrow> u8 list \<Rightarrow> u8 list" where
  "put16 off v d = bsplice off (be16 v) d"

definition put32 :: "nat \<Rightarrow> u32 \<Rightarrow> u8 list \<Rightarrow> u8 list" where
  "put32 off v d = bsplice off (be32 v) d"

lemma length_be [simp]: "length (be16 w) = 2" "length (be32 v) = 4"
  by (simp_all add: be16_def be32_def)

lemma length_splice [simp]: "off + length bs \<le> length d \<Longrightarrow> length (bsplice off bs d) = length d"
  by (simp add: bsplice_def)

lemma length_slice [simp]: "off + n \<le> length d \<Longrightarrow> length (bslice off n d) = n"
  by (simp add: bslice_def)

lemma nth_splice:
  assumes "off + length bs \<le> length d" "i < length d"
  shows "bsplice off bs d ! i = (if off \<le> i \<and> i < off + length bs then bs ! (i - off) else d ! i)"
  using assms by (auto simp: bsplice_def nth_append min_def)

lemma splice_self: "off + n \<le> length d \<Longrightarrow> bsplice off (bslice off n d) d = d"
  by (rule nth_equalityI) (auto simp: nth_splice bslice_def)

lemma bslice_bsplice_same: "off + length bs \<le> length d \<Longrightarrow> bslice off (length bs) (bsplice off bs d) = bs"
  by (simp add: bslice_def bsplice_def)

lemma bslice_bsplice_apart:
  assumes "off + length bs \<le> length d" "o' + n \<le> length d" "o' + n \<le> off \<or> off + length bs \<le> o'"
  shows "bslice o' n (bsplice off bs d) = bslice o' n d"
  by (rule nth_equalityI) (use assms in \<open>auto simp: bslice_def nth_splice\<close>)

text \<open>Integers survive their encoding.\<close>

lemma get32_be32: "get32 (be32 v) 0 = v"
proof (rule bit_word_eqI)
  fix n
  assume "n < LENGTH(32)"
  then show "bit (get32 (be32 v) 0) n = bit v n"
    by (cases "n < 8"; cases "n < 16"; cases "n < 24") (auto simp: get32_def be32_def bit_simps nth_Cons')
qed

lemma get16_be16: "get16 (be16 v) 0 = v"
proof (rule bit_word_eqI)
  fix n
  assume "n < LENGTH(16)"
  then show "bit (get16 (be16 v) 0) n = bit v n"
    by (cases "n < 8") (auto simp: get16_def be16_def bit_simps)
qed

lemma get32_slice:
  assumes "off + 4 \<le> length d"
  shows "get32 d off = get32 (bslice off 4 d) 0"
  using assms by (simp add: get32_def bslice_def)

lemma get16_slice:
  assumes "off + 2 \<le> length d"
  shows "get16 d off = get16 (bslice off 2 d) 0"
  using assms by (simp add: get16_def bslice_def)

lemma get32_splice_apart:
  assumes "off + length bs \<le> length d" "o' + 4 \<le> length d" "o' + 4 \<le> off \<or> off + length bs \<le> o'"
  shows "get32 (bsplice off bs d) o' = get32 d o'"
  using assms by (simp add: get32_slice [of o'] bslice_bsplice_apart)

lemma get16_splice_apart:
  assumes "off + length bs \<le> length d" "o' + 2 \<le> length d" "o' + 2 \<le> off \<or> off + length bs \<le> o'"
  shows "get16 (bsplice off bs d) o' = get16 d o'"
  using assms by (simp add: get16_slice [of o'] bslice_bsplice_apart)

lemma get32_put32 [simp]: "off + 4 \<le> length d \<Longrightarrow> get32 (put32 off v d) off = v"
  using bslice_bsplice_same [of off "be32 v" d] by (simp add: get32_slice [of off] put32_def get32_be32)

lemma get16_put16 [simp]: "off + 2 \<le> length d \<Longrightarrow> get16 (put16 off v d) off = v"
  using bslice_bsplice_same [of off "be16 v" d] by (simp add: get16_slice [of off] put16_def get16_be16)

lemma length_put [simp]:
  "off + 4 \<le> length d \<Longrightarrow> length (put32 off v d) = length d"
  "off + 2 \<le> length d \<Longrightarrow> length (put16 off w d) = length d"
  by (simp_all add: put32_def put16_def)

lemma get32_put32_apart:
  "off + 4 \<le> length d \<Longrightarrow> o' + 4 \<le> length d \<Longrightarrow> o' + 4 \<le> off \<or> off + 4 \<le> o' \<Longrightarrow>
    get32 (put32 off v d) o' = get32 d o'"
  by (simp add: put32_def get32_splice_apart)

section \<open>The structures\<close>

abbreviation (input) NDIRECT :: nat where "NDIRECT \<equiv> 12"
abbreviation (input) NINDIRECT :: nat where "NINDIRECT \<equiv> 128"
abbreviation (input) MAXFILE :: nat where "MAXFILE \<equiv> 140"
abbreviation (input) IPB :: nat where "IPB \<equiv> 8"
abbreviation (input) BPB :: nat where "BPB \<equiv> 4096"
abbreviation (input) DIRSIZ :: nat where "DIRSIZ \<equiv> 14"
abbreviation (input) ROOTINO :: u32 where "ROOTINO \<equiv> 1"
abbreviation (input) T_DIR :: u16 where "T_DIR \<equiv> 1"
abbreviation (input) T_FILE :: u16 where "T_FILE \<equiv> 2"
abbreviation (input) T_DEV :: u16 where "T_DEV \<equiv> 3"

record superblock =
  sb_size :: u32
  sb_nblocks :: u32
  sb_ninodes :: u32
  sb_nlog :: u32

record dinode =
  di_type :: u16
  di_major :: u16
  di_minor :: u16
  di_nlink :: u16
  di_size :: u32
  di_addrs :: "u32 list"

record dirent =
  de_inum :: u16
  de_name :: "u8 list"

definition get_superblock :: "u8 list \<Rightarrow> superblock" where
  "get_superblock d = \<lparr> sb_size = get32 d 0, sb_nblocks = get32 d 4, sb_ninodes = get32 d 8, sb_nlog = get32 d 12 \<rparr>"

definition IBLOCK :: "u32 \<Rightarrow> u32" where
  "IBLOCK i = i div 8 + 2"

definition BBLOCK :: "u32 \<Rightarrow> u32 \<Rightarrow> u32" where
  "BBLOCK b ninodes = b div 4096 + ninodes div 8 + 3"

text \<open>\<open>struct dinode\<close>: 64 bytes; \<open>off\<close> is the offset of the inode in its block.\<close>

definition get_dinode :: "u8 list \<Rightarrow> nat \<Rightarrow> dinode" where
  "get_dinode d off =
    \<lparr> di_type = get16 d off, di_major = get16 d (off + 2), di_minor = get16 d (off + 4),
      di_nlink = get16 d (off + 6), di_size = get32 d (off + 8),
      di_addrs = map (\<lambda>i. get32 d (off + 12 + 4 * i)) [0..<NDIRECT + 1] \<rparr>"

definition dinode_bytes :: "dinode \<Rightarrow> u8 list" where
  "dinode_bytes x = be16 (di_type x) @ be16 (di_major x) @ be16 (di_minor x) @ be16 (di_nlink x) @
     be32 (di_size x) @ concat (map be32 (di_addrs x))"

definition put_dinode :: "nat \<Rightarrow> dinode \<Rightarrow> u8 list \<Rightarrow> u8 list" where
  "put_dinode off x d = bsplice off (dinode_bytes x) d"

definition dirent_of :: "u8 list \<Rightarrow> dirent" where
  "dirent_of d = \<lparr> de_inum = get16 d 0, de_name = bslice 2 DIRSIZ d \<rparr>"

definition dirent_bytes :: "dirent \<Rightarrow> u8 list" where
  "dirent_bytes e = be16 (de_inum e) @ de_name e"

lemma length_concat_be32 [simp]: "length (concat (map be32 xs)) = 4 * length xs"
  by (induction xs) simp_all

lemma length_dinode_bytes [simp]: "length (di_addrs x) = NDIRECT + 1 \<Longrightarrow> length (dinode_bytes x) = 64"
  by (simp add: dinode_bytes_def)

lemma length_dirent_bytes [simp]: "length (de_name e) = DIRSIZ \<Longrightarrow> length (dirent_bytes e) = 16"
  by (simp add: dirent_bytes_def)

lemma get32_append1: "off + 4 \<le> length a \<Longrightarrow> get32 (a @ b) off = get32 a off"
  by (simp add: get32_def nth_append)

lemma get32_append2: "get32 (a @ b) (length a + off) = get32 b off"
  by (simp add: get32_def nth_append)

lemma get16_append1: "off + 2 \<le> length a \<Longrightarrow> get16 (a @ b) off = get16 a off"
  by (simp add: get16_def nth_append)

lemma get16_append2: "get16 (a @ b) (length a + off) = get16 b off"
  by (simp add: get16_def nth_append)

lemma get32_concat: "i < length xs \<Longrightarrow> get32 (concat (map be32 xs)) (4 * i) = xs ! i"
proof (induction xs arbitrary: i)
  case (Cons x xs)
  show ?case
  proof (cases i)
    case 0
    then show ?thesis using get32_append1 [of 0 "be32 x"] by (simp add: get32_be32)
  next
    case (Suc j)
    then show ?thesis using get32_append2 [of "be32 x" "concat (map be32 xs)" "4 * j"] Cons by simp
  qed
qed simp

text \<open>The inverse pair for a disk inode.\<close>

lemma dinode_roundtrip0:
  assumes "length (di_addrs x) = NDIRECT + 1"
  shows "get_dinode (dinode_bytes x) 0 = x"
proof -
  let ?a = "be16 (di_type x)" and ?b = "be16 (di_major x)" and ?c = "be16 (di_minor x)" and ?n = "be16 (di_nlink x)"
  let ?s = "be32 (di_size x)" and ?t = "concat (map be32 (di_addrs x))"
  have "get16 (dinode_bytes x) 0 = di_type x"
    using get16_append1 [of 0 ?a] by (simp add: dinode_bytes_def get16_be16)
  moreover have "get16 (dinode_bytes x) 2 = di_major x"
    using get16_append2 [of ?a "?b @ ?c @ ?n @ ?s @ ?t" 0] get16_append1 [of 0 ?b] by (simp add: dinode_bytes_def get16_be16)
  moreover have "get16 (dinode_bytes x) 4 = di_minor x"
    using get16_append2 [of "?a @ ?b" "?c @ ?n @ ?s @ ?t" 0] get16_append1 [of 0 ?c] by (simp add: dinode_bytes_def get16_be16)
  moreover have "get16 (dinode_bytes x) 6 = di_nlink x"
    using get16_append2 [of "?a @ ?b @ ?c" "?n @ ?s @ ?t" 0] get16_append1 [of 0 ?n] by (simp add: dinode_bytes_def get16_be16)
  moreover have "get32 (dinode_bytes x) 8 = di_size x"
    using get32_append2 [of "?a @ ?b @ ?c @ ?n" "?s @ ?t" 0] get32_append1 [of 0 ?s] by (simp add: dinode_bytes_def get32_be32)
  moreover have "map (\<lambda>i. get32 (dinode_bytes x) (12 + 4 * i)) [0..<NDIRECT + 1] = di_addrs x"
  proof (rule nth_equalityI)
    fix i
    assume "i < length (map (\<lambda>i. get32 (dinode_bytes x) (12 + 4 * i)) [0..<NDIRECT + 1])"
    then have i: "i < length (di_addrs x)" using assms by simp
    have "get32 (dinode_bytes x) (12 + 4 * i) = get32 ?t (4 * i)"
      using get32_append2 [of "?a @ ?b @ ?c @ ?n @ ?s" ?t "4 * i"] by (simp add: dinode_bytes_def)
    then show "map (\<lambda>i. get32 (dinode_bytes x) (12 + 4 * i)) [0..<NDIRECT + 1] ! i = di_addrs x ! i"
      using i assms get32_concat [OF i] by simp
  qed (simp add: assms)
  ultimately show ?thesis unfolding get_dinode_def add_0 by (simp only: dinode.surjective [symmetric])
    (simp add: numeral_2_eq_2 [symmetric] dinode.surjective)
qed

lemma get_dinode_slice:
  assumes "off + 64 \<le> length d"
  shows "get_dinode d off = get_dinode (bslice off 64 d) 0"
proof -
  have g16: "get16 d (off + k) = get16 (bslice off 64 d) k" if "k + 2 \<le> 64" for k
    using that assms by (simp add: get16_def bslice_def add.assoc)
  have g32: "get32 d (off + k) = get32 (bslice off 64 d) k" if "k + 4 \<le> 64" for k
    using that assms by (simp add: get32_def bslice_def add.assoc)
  have "map (\<lambda>i. get32 d (off + 12 + 4 * i)) [0..<NDIRECT + 1] =
      map (\<lambda>i. get32 (bslice off 64 d) (0 + 12 + 4 * i)) [0..<NDIRECT + 1]"
    using g32 by (auto simp: add.assoc)
  then show ?thesis unfolding get_dinode_def
    using g16 [of 0] g16 [of 2] g16 [of 4] g16 [of 6] g32 [of 8] by (simp add: numeral_2_eq_2)
qed

lemma get_put_dinode:
  assumes "off + 64 \<le> length d" "length (di_addrs x) = NDIRECT + 1"
  shows "get_dinode (put_dinode off x d) off = x"
  using bslice_bsplice_same [of off "dinode_bytes x" d] assms
  by (subst get_dinode_slice) (simp_all add: put_dinode_def dinode_roundtrip0)

lemma get_put_dinode_apart:
  assumes "off + 64 \<le> length d" "o' + 64 \<le> length d" "length (di_addrs x) = NDIRECT + 1"
    "o' + 64 \<le> off \<or> off + 64 \<le> o'"
  shows "get_dinode (put_dinode off x d) o' = get_dinode d o'"
  using bslice_bsplice_apart [of off "dinode_bytes x" d o' 64] assms
  by (subst (1 2) get_dinode_slice) (simp_all add: put_dinode_def)

lemma dirent_roundtrip:
  "length (de_name e) = DIRSIZ \<Longrightarrow> dirent_of (dirent_bytes e) = e"
  using get16_append1 [of 0 "be16 (de_inum e)" "de_name e"]
  by (simp add: dirent_of_def dirent_bytes_def get16_be16 bslice_def)

end
