(* ===== verification/Log.thy ===== *)
theory Log
  imports Bio Layout
begin

text \<open>
  The write-ahead log of \<open>src/log.c\<close>. The state extends the buffer cache by \<open>struct log\<close>. The operations
  are translated one by one; the rest of the theory gives the meaning of the log on the disk and the
  invariant of a transaction. Crashes and recovery are in \<open>Log_Crash\<close>.
\<close>

section \<open>State\<close>

record lst = bst +
  lstart :: u32
  lsize :: u32
  lbusy :: bool
  ldev :: u32
  lhn :: int
  lhsector :: "u32 list"

section \<open>Operations\<close>

definition readsb :: "u32 \<Rightarrow> ('a bst_scheme, superblock) km" where
  "readsb dev =
    kbind (bread dev 1) (\<lambda>bp.
    kbind (bget_data bp) (\<lambda>d.
    kthen (brelse bp) (kret (get_superblock d))))"

definition install_trans :: "('a lst_scheme, unit) km" where
  "install_trans =
    kbind (kget lhn) (\<lambda>n.
    kfor [0..<nat n] (\<lambda>tail.
      kbind (kget (\<lambda>s. (ldev s, lstart s, lhsector s ! tail))) (\<lambda>(dev, start, sec).
      kbind (bread dev (start + word_of_nat tail + 1)) (\<lambda>lbuf.
      kbind (bread dev sec) (\<lambda>dbuf.
      kbind (bget_data lbuf) (\<lambda>d.
      kthen (bset_data dbuf d)
     (kthen (bwrite dbuf)
     (kthen (brelse lbuf)
            (brelse dbuf)))))))))"

text \<open>A header whose count is larger than the array makes \<open>read_head\<close> write outside of \<open>log.lh\<close>.\<close>

definition read_head :: "('a lst_scheme, unit) km" where
  "read_head =
    kbind (kget (\<lambda>s. (ldev s, lstart s))) (\<lambda>(dev, start).
    kbind (bread dev start) (\<lambda>b.
    kbind (bget_data b) (\<lambda>d.
    let n = sint (get32 d 0) in
    if n > int LOGSIZE then kstop Fault
    else kthen (kmod (\<lambda>s. s \<lparr> lhn := n,
                 lhsector := map (\<lambda>i. get32 d (4 + 4 * i)) [0..<nat n] @ drop (nat n) (lhsector s) \<rparr>))
               (brelse b))))"

fun put_sectors :: "nat \<Rightarrow> u32 list \<Rightarrow> block \<Rightarrow> block" where
  "put_sectors i [] d = d"
| "put_sectors i (x # xs) d = put_sectors (Suc i) xs (put32 (4 + 4 * i) x d)"

definition write_head :: "('a lst_scheme, unit) km" where
  "write_head =
    kbind (kget (\<lambda>s. (ldev s, lstart s, lhn s, lhsector s))) (\<lambda>(dev, start, n, secs).
    kbind (bread dev start) (\<lambda>b.
    kbind (bget_data b) (\<lambda>d.
    kthen (bset_data b (put_sectors 0 (take (nat n) secs) (put32 0 (word_of_int n) d)))
   (kthen (bwrite b)
          (brelse b)))))"

definition recover_from_log :: "('a lst_scheme, unit) km" where
  "recover_from_log =
    kthen read_head
   (kthen install_trans
   (kthen (kmod (lhn_update (\<lambda>_. 0)))
          write_head))"

definition initlog :: "('a lst_scheme, unit) km" where
  "initlog =
    kbind (readsb ROOTDEV) (\<lambda>sb.
    kthen (kmod (\<lambda>s. s \<lparr> lstart := sb_size sb - sb_nlog sb, lsize := sb_nlog sb, ldev := ROOTDEV \<rparr>))
          recover_from_log)"

definition begin_trans :: "('a lst_scheme, unit) km" where
  "begin_trans =
    kbind (kget lbusy) (\<lambda>b. if b then kstop (Sleep Chan_log) else kmod (lbusy_update (\<lambda>_. True)))"

definition commit_trans :: "('a lst_scheme, unit) km" where
  "commit_trans =
    kbind (kget lhn) (\<lambda>n.
    kthen (kwhen (n > 0)
             (kthen write_head
             (kthen install_trans
             (kthen (kmod (lhn_update (\<lambda>_. 0)))
                    write_head))))
   (kthen (kmod (lbusy_update (\<lambda>_. False)))
          (wakeup Chan_log)))"

text \<open>The place of a sector in the header: its own one if the transaction has logged it, else the next.\<close>

fun log_index :: "u32 \<Rightarrow> u32 list \<Rightarrow> nat" where
  "log_index x [] = 0"
| "log_index x (y # ys) = (if y = x then 0 else Suc (log_index x ys))"

definition log_write :: "nat \<Rightarrow> ('a lst_scheme, unit) km" where
  "log_write b =
    kbind (kget (\<lambda>s. (lhn s, lsize s, lbusy s))) (\<lambda>(n, size, active).
    if n \<ge> int LOGSIZE \<or> n \<ge> sint size - 1 then kpanic ''too big a transaction''
    else if \<not> active then kpanic ''write outside of trans''
    else
      kbind (kget (\<lambda>s. (bufs s b, lstart s, log_index (bsector (bufs s b)) (take (nat n) (lhsector s))))) (\<lambda>(bb, start, i).
      kthen (kmod (\<lambda>s. s \<lparr> lhsector := (lhsector s)[i := bsector bb] \<rparr>))
     (kbind (bread (bdev bb) (start + word_of_nat i + 1)) (\<lambda>lbuf.
      kbind (bget_data b) (\<lambda>d.
      kthen (bset_data lbuf d)
     (kthen (bwrite lbuf)
     (kthen (brelse lbuf)
     (kthen (kwhen (i = nat n) (kmod (lhn_update (\<lambda>m. m + 1))))
            (kmod (upd_buf b (dirty_update (\<lambda>_. True))))))))))))"

section \<open>Geometry and header blocks\<close>

text \<open>The log occupies the blocks from \<open>lstart\<close> on: the header and \<open>lsize - 1\<close> data blocks. With at most
  \<open>NBUF\<close> log blocks a transaction cannot make all buffers dirty, so that the commit finds a free one;
  \<open>mkfs\<close> makes \<open>LOGSIZE = NBUF\<close> log blocks.\<close>

definition log_geom :: "'a lst_scheme \<Rightarrow> bool" where
  "log_geom s \<longleftrightarrow> ldev s = 1 \<and> length (lhsector s) = LOGSIZE \<and> 1 \<le> unat (lsize s) \<and> unat (lsize s) \<le> NBUF \<and>
    unat (lstart s) + unat (lsize s) \<le> unat (disksize s)"

abbreviation lsec :: "u32 \<Rightarrow> nat \<Rightarrow> u32" where
  "lsec start k \<equiv> start + word_of_nat k + 1"

definition logged :: "'a lst_scheme \<Rightarrow> u32 list" where
  "logged s = take (nat (lhn s)) (lhsector s)"

definition head_block :: "int \<Rightarrow> u32 list \<Rightarrow> block \<Rightarrow> block" where
  "head_block n secs d = put_sectors 0 secs (put32 0 (word_of_int n) d)"

lemma unat_lsec:
  assumes "unat start + k + 1 < 2 ^ 32"
  shows "unat (lsec start k) = unat start + k + 1"
proof -
  have "unat (word_of_nat k :: u32) = k" using assms by (simp add: unat_of_nat)
  then have "unat (start + word_of_nat k) = unat start + k" using assms by (simp add: unat_word_ariths)
  then show ?thesis using assms by (simp add: unat_word_ariths)
qed

lemma lsec_geom:
  assumes "log_geom s" "k + 1 < unat (lsize s)"
  shows "unat (lsec (lstart s) k) = unat (lstart s) + k + 1" "lsec (lstart s) k < disksize s"
    "lstart s < lsec (lstart s) k"
proof -
  have lt: "unat (lstart s) + k + 1 < unat (disksize s)" using assms unfolding log_geom_def by linarith
  then have "unat (lstart s) + k + 1 < 2 ^ 32" using unat_u32_bound [of "disksize s"] by linarith
  then show e: "unat (lsec (lstart s) k) = unat (lstart s) + k + 1" by (rule unat_lsec)
  show "lsec (lstart s) k < disksize s" unfolding word_less_nat_alt e by (rule lt)
  show "lstart s < lsec (lstart s) k" unfolding word_less_nat_alt e by linarith
qed

lemma lsec_inj:
  assumes "log_geom s" "k + 1 < unat (lsize s)" "j + 1 < unat (lsize s)" "lsec (lstart s) k = lsec (lstart s) j"
  shows "k = j"
proof -
  have "unat (lstart s) + k + 1 = unat (lstart s) + j + 1"
    using lsec_geom(1) [OF assms(1,2)] lsec_geom(1) [OF assms(1,3)] assms(4) by (simp only:)
  then show ?thesis by linarith
qed

lemma lstart_geom: "log_geom s \<Longrightarrow> lstart s < disksize s"
  unfolding log_geom_def word_less_nat_alt by linarith

lemma home_geom: "log_geom s \<Longrightarrow> x < lstart s \<Longrightarrow> x < disksize s"
  using lstart_geom order.strict_trans by blast

lemma put_sectors_length: "4 + 4 * (i + length xs) \<le> length d \<Longrightarrow> length (put_sectors i xs d) = length d"
  by (induction xs arbitrary: i d) simp_all

lemma put_sectors_below:
  "4 + 4 * (i + length xs) \<le> length d \<Longrightarrow> off + 4 \<le> 4 + 4 * i \<Longrightarrow> get32 (put_sectors i xs d) off = get32 d off"
  by (induction xs arbitrary: i d) (simp_all add: get32_put32_apart)

lemma put_sectors_get:
  "4 + 4 * (i + length xs) \<le> length d \<Longrightarrow> k < length xs \<Longrightarrow> get32 (put_sectors i xs d) (4 + 4 * (i + k)) = xs ! k"
proof (induction xs arbitrary: i d k)
  case (Cons x xs)
  show ?case
  proof (cases k)
    case 0
    then show ?thesis using Cons.prems by (simp add: put_sectors_below)
  next
    case (Suc j)
    then show ?thesis using Cons.IH [of "Suc i" "put32 (4 + 4 * i) x d" j] Cons.prems by simp
  qed
qed simp

lemma head_block_get:
  assumes "length d = BSIZE" "length secs \<le> LOGSIZE" "0 \<le> n" "n \<le> int LOGSIZE"
  shows "sint (get32 (head_block n secs d) 0) = n"
    "\<And>k. k < length secs \<Longrightarrow> get32 (head_block n secs d) (4 + 4 * k) = secs ! k"
    "length (head_block n secs d) = BSIZE"
    "get32 (head_block n secs d) 0 = word_of_int n"
proof -
  show z: "get32 (head_block n secs d) 0 = word_of_int n"
    using assms by (simp add: head_block_def put_sectors_below)
  have "sint (word_of_int n :: u32) = n"
    using assms(3,4) by (simp add: sint_sbintrunc' signed_take_bit_int_eq_self)
  then show "sint (get32 (head_block n secs d) 0) = n" using z by simp
  show "get32 (head_block n secs d) (4 + 4 * k) = secs ! k" if "k < length secs" for k
    using put_sectors_get [of 0 secs "put32 0 (word_of_int n) d" k] assms that by (simp add: head_block_def)
  show "length (head_block n secs d) = BSIZE" using assms by (simp add: head_block_def put_sectors_length)
qed

section \<open>The disk-level meaning\<close>

definition apply_writes :: "(u32 \<times> block) list \<Rightarrow> (u32 \<Rightarrow> block) \<Rightarrow> u32 \<Rightarrow> block" where
  "apply_writes ws d = fold (\<lambda>(x, v) d. d(x := v)) ws d"

lemma apply_writes_simps [simp]:
  "apply_writes [] d = d" "apply_writes ((x, v) # ws) d = apply_writes ws (d(x := v))"
  "apply_writes (ws @ vs) d = apply_writes vs (apply_writes ws d)"
  by (simp_all add: apply_writes_def)

lemma apply_writes_outside: "x \<notin> fst ` set ws \<Longrightarrow> apply_writes ws d x = d x"
  by (induction ws arbitrary: d) auto

text \<open>What recovery does to a disk: it installs the blocks that the header lists and clears the count.\<close>

definition recover_disk :: "u32 \<Rightarrow> (u32 \<Rightarrow> block) \<Rightarrow> u32 \<Rightarrow> block" where
  "recover_disk start d =
    (let h = d start; n = nat (sint (get32 h 0)) in
     (apply_writes (map (\<lambda>k. (get32 h (4 + 4 * k), d (lsec start k))) [0..<n]) d)
       (start := head_block 0 [] h))"

text \<open>The disk with the logged blocks put in their home places.\<close>

definition overlay :: "u32 \<Rightarrow> u32 list \<Rightarrow> (u32 \<Rightarrow> block) \<Rightarrow> u32 \<Rightarrow> block" where
  "overlay start secs d x =
    (let k = log_index x secs in if k < length secs then d (lsec start k) else d x)"

lemma log_index_le: "log_index x xs \<le> length xs"
  by (induction xs) simp_all

lemma log_index_less_iff: "log_index x xs < length xs \<longleftrightarrow> x \<in> set xs"
  by (induction xs) auto

lemma log_index_nth: "log_index x xs < length xs \<Longrightarrow> xs ! log_index x xs = x"
  by (induction xs) auto

lemma log_index_distinct: "distinct xs \<Longrightarrow> k < length xs \<Longrightarrow> log_index (xs ! k) xs = k"
  by (metis log_index_less_iff log_index_nth nth_eq_iff_index_eq nth_mem)

lemma apply_install:
  assumes "distinct (map fst ws)"
  shows "apply_writes ws d x = (case map_of ws x of None \<Rightarrow> d x | Some v \<Rightarrow> v)"
  using assms
proof (induction ws arbitrary: d)
  case (Cons w ws)
  obtain y v where w: "w = (y, v)" by fastforce
  show ?case
  proof (cases "x = y")
    case True
    then have "apply_writes ws (d(y := v)) x = v"
      using Cons.prems w by (subst apply_writes_outside) simp_all
    then show ?thesis using True w by simp
  next
    case False
    have "apply_writes ws (d(y := v)) x = (case map_of ws x of None \<Rightarrow> (d(y := v)) x | Some v \<Rightarrow> v)"
      by (rule Cons.IH) (use Cons.prems w in simp)
    moreover have "map_of ((y, v) # ws) x = map_of ws x" "(d(y := v)) x = d x" using False by simp_all
    ultimately show ?thesis unfolding w apply_writes_simps by (simp only:)
  qed
qed simp

lemma map_fst_index: "map fst (map (\<lambda>k. (secs ! k, f k)) [0..<length secs]) = secs"
  by (simp add: comp_def map_nth)

lemma fst_index: "fst ` set (map (\<lambda>k. (secs ! k, f k)) [0..<length secs]) = set secs"
  unfolding set_map [of fst, symmetric] map_fst_index ..

lemma map_of_zip_index:
  assumes "distinct secs"
  shows "map_of (map (\<lambda>k. (secs ! k, f k)) [0..<length secs]) x =
    (if log_index x secs < length secs then Some (f (log_index x secs)) else None)"
proof (cases "log_index x secs < length secs")
  case True
  let ?k = "log_index x secs"
  have "(x, f ?k) \<in> set (map (\<lambda>k. (secs ! k, f k)) [0..<length secs])"
    using True log_index_nth [OF True] by (auto intro!: image_eqI [of _ _ ?k])
  then show ?thesis using True assms map_fst_index [of secs f] map_of_is_SomeI by metis
next
  case False
  then have "x \<notin> set secs" by (simp add: log_index_less_iff)
  then have "x \<notin> fst ` set (map (\<lambda>k. (secs ! k, f k)) [0..<length secs])"
    unfolding set_map [of fst, symmetric] map_fst_index .
  then have "map_of (map (\<lambda>k. (secs ! k, f k)) [0..<length secs]) x = None"
    by (rule map_of_eq_None_iff [THEN iffD2])
  then show ?thesis using False by (simp only: if_False)
qed

lemma install_overlay:
  assumes "distinct secs"
  shows "apply_writes (map (\<lambda>k. (secs ! k, d (lsec start k))) [0..<length secs]) e x =
    (if log_index x secs < length secs then d (lsec start (log_index x secs)) else e x)"
  by (subst apply_install) (simp_all only: map_fst_index assms map_of_zip_index split: if_splits, simp_all)

section \<open>The operations between transactions\<close>

lemma same_rest_lst:
  assumes "same_rest s s'"
  shows "lstart s' = lstart s" "lsize s' = lsize s" "lbusy s' = lbusy s" "ldev s' = ldev s" "lhn s' = lhn s"
    "lhsector s' = lhsector s" "disksize s' = disksize s" "lst.more s' = lst.more s"
  using assms by (cases s; cases s'; simp add: same_rest_def)+

lemma same_rest_geom:
  assumes "same_rest s s'"
  shows "log_geom s' = log_geom s" "logged s' = logged s"
  unfolding log_geom_def logged_def same_rest_lst [OF assms] by (rule refl)+

lemma same_rest_trans: "same_rest s t \<Longrightarrow> same_rest t u \<Longrightarrow> same_rest s u"
  by (simp add: same_rest_def)

lemma write_head_run:
  assumes "quiet s" "log_geom s" "\<exists>i < NBUF. \<not> dirty (bufs s i)"
  shows "\<exists>s'. write_head s = Inr ((), s') \<and> wrote s (lstart s) (head_block (lhn s) (logged s) (view s (lstart s))) s'"
proof -
  have "ldev s = 1" using assms(2) by (simp add: log_geom_def)
  then show ?thesis
    using block_out_run [OF assms(1) lstart_geom [OF assms(2)] assms(3),
        of "\<lambda>d. put_sectors 0 (take (nat (lhn s)) (lhsector s)) (put32 0 (word_of_int (lhn s)) d)"]
    by (simp add: write_head_def kbind_def [of "kget _"] kget_def head_block_def logged_def)
qed

text \<open>Copying the logged blocks home. Either no buffer is dirty (recovery), or the blocks to be written are
  distinct and still dirty in the cache (commit).\<close>

definition installable :: "'a lst_scheme \<Rightarrow> nat list \<Rightarrow> bool" where
  "installable s ks \<longleftrightarrow> quiet s \<and> log_geom s \<and> (\<exists>i < NBUF. \<not> dirty (bufs s i)) \<and>
    (\<forall>x \<in> dirty_sectors s. x < lstart s) \<and>
    (\<forall>k \<in> set ks. k + 1 < unat (lsize s) \<and> lhsector s ! k < lstart s) \<and>
    ((\<forall>i < NBUF. \<not> dirty (bufs s i)) \<or>
     distinct (map (\<lambda>k. lhsector s ! k) ks) \<and> (\<forall>k \<in> set ks. lhsector s ! k \<in> dirty_sectors s))"

definition install_step :: "nat \<Rightarrow> ('a lst_scheme, unit) km" where
  "install_step tail =
      kbind (kget (\<lambda>s. (ldev s, lstart s, lhsector s ! tail))) (\<lambda>(dev, start, sec).
      kbind (bread dev (start + word_of_nat tail + 1)) (\<lambda>lbuf.
      kbind (bread dev sec) (\<lambda>dbuf.
      kbind (bget_data lbuf) (\<lambda>d.
      kthen (bset_data dbuf d)
     (kthen (bwrite dbuf)
     (kthen (brelse lbuf)
            (brelse dbuf)))))))"

lemma install_step_run:
  assumes "installable s (k # ks)"
  shows "\<exists>s'. install_step k s = Inr ((), s') \<and> wrote s (lhsector s ! k) (disk s (lsec (lstart s) k)) s' \<and> installable s' ks"
proof -
  have q: "quiet s" and g: "log_geom s" and hd: "\<forall>x \<in> dirty_sectors s. x < lstart s"
    and k: "k + 1 < unat (lsize s)" "lhsector s ! k < lstart s"
    using assms by (auto simp: installable_def)
  note ls = lsec_geom [OF g k(1)]
  have dev: "ldev s = 1" using g by (simp add: log_geom_def)
  have ne: "lsec (lstart s) k \<noteq> lhsector s ! k" using ls(3) k(2) by auto
  have nd: "lsec (lstart s) k \<notin> dirty_sectors s" using hd ls(3) by force
  obtain i where i: "i < NBUF" "\<not> dirty (bufs s i)"
    "lhsector s ! k \<in> dirty_sectors s \<or> (\<exists>j < NBUF. j \<noteq> i \<and> \<not> dirty (bufs s j))"
  proof (cases "\<forall>i < NBUF. \<not> dirty (bufs s i)")
    case True
    then show ?thesis by (intro that [of 0]) (auto intro: exI [of _ 1])
  next
    case False
    then show ?thesis using assms that unfolding installable_def by auto
  qed
  from copy_block_run [OF q ls(2) home_geom [OF g k(2)] ne nd i] obtain s'
    where r: "copy_block (lsec (lstart s) k) (lhsector s ! k) s = Inr ((), s')"
      and w: "wrote s (lhsector s ! k) (disk s (lsec (lstart s) k)) s'" by blast
  have "install_step k s = copy_block (lsec (lstart s) k) (lhsector s ! k) s"
    by (simp add: install_step_def copy_block_def kbind_def [of "kget _"] kget_def dev)
  moreover have "installable s' ks"
  proof -
    have rest: "same_rest s s'" and d: "dirty_sectors s' = dirty_sectors s - {lhsector s ! k}"
      and clean: "\<exists>i < NBUF. \<not> dirty (bufs s' i)" and q': "quiet s'"
      and fr: "\<forall>i < NBUF. dirty (bufs s' i) \<longrightarrow> bufs s' i = bufs s i" using w by (auto simp: wrote_def)
    have nd: "\<forall>i < NBUF. \<not> dirty (bufs s' i)" if "\<forall>i < NBUF. \<not> dirty (bufs s i)" using that fr by metis
    show ?thesis
      using assms q' clean nd unfolding installable_def d same_rest_geom [OF rest] same_rest_lst [OF rest]
      by (auto, metis imageI)
  qed
  ultimately show ?thesis using r w by auto
qed

lemma install_loop_run:
  assumes "installable s ks"
  shows "\<exists>s'. kfor ks install_step s = Inr ((), s') \<and> quiet s' \<and> same_rest s s' \<and>
    dtrace s' = dtrace s @ map (\<lambda>k. (lhsector s ! k, disk s (lsec (lstart s) k))) ks \<and>
    disk s' = apply_writes (map (\<lambda>k. (lhsector s ! k, disk s (lsec (lstart s) k))) ks) (disk s) \<and>
    dirty_sectors s' = dirty_sectors s - (\<lambda>k. lhsector s ! k) ` set ks \<and>
    (\<exists>i < NBUF. \<not> dirty (bufs s' i)) \<and> (\<forall>i < NBUF. dirty (bufs s' i) \<longrightarrow> bufs s' i = bufs s i)"
  using assms
proof (induction ks arbitrary: s)
  case Nil
  then show ?case by (simp add: kret_def installable_def same_rest_def)
next
  case (Cons k ks)
  from install_step_run [OF Cons.prems] obtain s1
    where r: "install_step k s = Inr ((), s1)" and w: "wrote s (lhsector s ! k) (disk s (lsec (lstart s) k)) s1"
      and inst: "installable s1 ks" by blast
  have rest: "same_rest s s1" using w by (simp add: wrote_def)
  note eq = same_rest_lst [OF rest]
  have home: "lhsector s ! k < lstart s" and g: "log_geom s" using Cons.prems by (auto simp: installable_def)
  have dk: "disk s1 (lsec (lstart s) j) = disk s (lsec (lstart s) j)" if "j \<in> set ks" for j
  proof -
    have "j + 1 < unat (lsize s)" using Cons.prems that by (simp add: installable_def)
    from lsec_geom(3) [OF g this] home have "lsec (lstart s) j \<noteq> lhsector s ! k" by auto
    then show ?thesis using w by (simp add: wrote_def)
  qed
  then have m: "map (\<lambda>k. (lhsector s1 ! k, disk s1 (lsec (lstart s1) k))) ks =
      map (\<lambda>k. (lhsector s ! k, disk s (lsec (lstart s) k))) ks" unfolding eq by simp
  from Cons.IH [OF inst] obtain s' where s': "kfor ks install_step s1 = Inr ((), s')" "quiet s'" "same_rest s1 s'"
    "dtrace s' = dtrace s1 @ map (\<lambda>k. (lhsector s ! k, disk s (lsec (lstart s) k))) ks"
    "disk s' = apply_writes (map (\<lambda>k. (lhsector s ! k, disk s (lsec (lstart s) k))) ks) (disk s1)"
    "dirty_sectors s' = dirty_sectors s1 - (\<lambda>k. lhsector s ! k) ` set ks"
    "\<exists>i < NBUF. \<not> dirty (bufs s' i)" "\<forall>i < NBUF. dirty (bufs s' i) \<longrightarrow> bufs s' i = bufs s1 i"
    unfolding m unfolding eq by blast
  have "kfor (k # ks) install_step s = Inr ((), s')" using r s'(1) by (simp add: kbind_def)
  moreover have "\<forall>i < NBUF. dirty (bufs s' i) \<longrightarrow> bufs s' i = bufs s i" using s'(8) w unfolding wrote_def by metis
  moreover have "dirty_sectors s' = dirty_sectors s - (\<lambda>k. lhsector s ! k) ` set (k # ks)"
    using s'(6) w by (auto simp: wrote_def)
  ultimately show ?case using s' w same_rest_trans [OF rest s'(3)] by (simp add: wrote_def)
qed

lemma install_trans_run:
  assumes "installable s [0..<nat (lhn s)]"
  shows "\<exists>s'. install_trans s = Inr ((), s') \<and> quiet s' \<and> same_rest s s' \<and>
    dtrace s' = dtrace s @ map (\<lambda>k. (lhsector s ! k, disk s (lsec (lstart s) k))) [0..<nat (lhn s)] \<and>
    disk s' = apply_writes (map (\<lambda>k. (lhsector s ! k, disk s (lsec (lstart s) k))) [0..<nat (lhn s)]) (disk s) \<and>
    dirty_sectors s' = dirty_sectors s - (\<lambda>k. lhsector s ! k) ` set [0..<nat (lhn s)] \<and>
    (\<exists>i < NBUF. \<not> dirty (bufs s' i)) \<and> (\<forall>i < NBUF. dirty (bufs s' i) \<longrightarrow> bufs s' i = bufs s i)"
proof -
  have "install_trans s = kfor [0..<nat (lhn s)] install_step s"
    unfolding install_trans_def install_step_def kbind_def [of "kget lhn"] kget_def by simp
  with install_loop_run [OF assms] show ?thesis by metis
qed

section \<open>Inside a transaction\<close>

text \<open>The last content of a block that is safe in the log, or else the block on disk.\<close>

definition stored :: "'a lst_scheme \<Rightarrow> u32 \<Rightarrow> block" where
  "stored s = overlay (lstart s) (logged s) (disk s)"

text \<open>
  What file system code does between \<open>begin_trans\<close> and \<open>commit_trans\<close>, of whichever process: it reads blocks,
  changes bytes of buffers it holds, logs them, and releases buffers whose changes it has logged. It
  leaves the blocks of the log alone. The state of the layers above (\<open>lst.more\<close>) may change in any way.
\<close>

inductive tstep :: "'a lst_scheme \<Rightarrow> 'a lst_scheme \<Rightarrow> bool" where
  t_bread: "bread 1 sec s = Inr (b, s') \<Longrightarrow> tstep s s'"
| t_modify: "holds s b sec \<Longrightarrow> sec < lstart s \<Longrightarrow> tstep s (upd_buf b (bdata_update (\<lambda>_. d)) s)"
| t_log_write: "holds s b sec \<Longrightarrow> sec < lstart s \<Longrightarrow> log_write b s = Inr ((), s') \<Longrightarrow> tstep s s'"
| t_brelse: "holds s b sec \<Longrightarrow> bdata (bufs s b) = stored s sec \<Longrightarrow> brelse b s = Inr ((), s') \<Longrightarrow> tstep s s'"
| t_above: "tstep s (lst.more_update f s)"

text \<open>The invariant of a transaction that started with disk \<open>d0\<close> and write history \<open>t0\<close>.\<close>

definition trans_inv :: "(u32 \<Rightarrow> block) \<Rightarrow> (u32 \<times> block) list \<Rightarrow> 'a lst_scheme \<Rightarrow> bool" where
  "trans_inv d0 t0 s \<longleftrightarrow> bcache_ok s \<and> log_geom s \<and> lbusy s \<and>
    0 \<le> lhn s \<and> nat (lhn s) < unat (lsize s) \<and>
    distinct (logged s) \<and> (\<forall>x \<in> set (logged s). x < lstart s) \<and>
    (\<exists>ws. dtrace s = t0 @ ws \<and> disk s = apply_writes ws d0 \<and> (\<forall>x \<in> fst ` set ws. lstart s < x)) \<and>
    (\<forall>i < NBUF. dirty (bufs s i) \<longrightarrow> bdev (bufs s i) = 1 \<and> bsector (bufs s i) \<in> set (logged s)) \<and>
    (\<forall>x \<in> set (logged s). \<exists>i < NBUF. bdev (bufs s i) = 1 \<and> bsector (bufs s i) = x \<and> dirty (bufs s i) \<and>
       (\<not> busy (bufs s i) \<longrightarrow> bdata (bufs s i) = stored s x)) \<and>
    (\<forall>i < NBUF. bdev (bufs s i) = 1 \<longrightarrow> valid (bufs s i) \<longrightarrow> lstart s \<le> bsector (bufs s i) \<longrightarrow>
       bdata (bufs s i) = disk s (bsector (bufs s i)))"

lemma trans_invD:
  assumes "trans_inv d0 t0 s"
  shows "bcache_ok s" "log_geom s" "lbusy s" "0 \<le> lhn s" "nat (lhn s) < unat (lsize s)"
    "distinct (logged s)" "\<And>x. x \<in> set (logged s) \<Longrightarrow> x < lstart s"
    "\<exists>ws. dtrace s = t0 @ ws \<and> disk s = apply_writes ws d0 \<and> (\<forall>x \<in> fst ` set ws. lstart s < x)"
    "\<And>i. i < NBUF \<Longrightarrow> dirty (bufs s i) \<Longrightarrow> bdev (bufs s i) = 1 \<and> bsector (bufs s i) \<in> set (logged s)"
    "\<And>x. x \<in> set (logged s) \<Longrightarrow> \<exists>i < NBUF. bdev (bufs s i) = 1 \<and> bsector (bufs s i) = x \<and> dirty (bufs s i) \<and>
       (\<not> busy (bufs s i) \<longrightarrow> bdata (bufs s i) = stored s x)"
    "\<And>i. i < NBUF \<Longrightarrow> bdev (bufs s i) = 1 \<Longrightarrow> valid (bufs s i) \<Longrightarrow> lstart s \<le> bsector (bufs s i) \<Longrightarrow>
       bdata (bufs s i) = disk s (bsector (bufs s i))"
  using assms unfolding trans_inv_def by blast+

lemma trans_invI:
  assumes "bcache_ok s" "log_geom s" "lbusy s" "0 \<le> lhn s" "nat (lhn s) < unat (lsize s)"
    "distinct (logged s)" "\<And>x. x \<in> set (logged s) \<Longrightarrow> x < lstart s"
    "\<exists>ws. dtrace s = t0 @ ws \<and> disk s = apply_writes ws d0 \<and> (\<forall>x \<in> fst ` set ws. lstart s < x)"
    "\<And>i. i < NBUF \<Longrightarrow> dirty (bufs s i) \<Longrightarrow> bdev (bufs s i) = 1 \<and> bsector (bufs s i) \<in> set (logged s)"
    "\<And>x. x \<in> set (logged s) \<Longrightarrow> \<exists>i < NBUF. bdev (bufs s i) = 1 \<and> bsector (bufs s i) = x \<and> dirty (bufs s i) \<and>
       (\<not> busy (bufs s i) \<longrightarrow> bdata (bufs s i) = stored s x)"
    "\<And>i. i < NBUF \<Longrightarrow> bdev (bufs s i) = 1 \<Longrightarrow> valid (bufs s i) \<Longrightarrow> lstart s \<le> bsector (bufs s i) \<Longrightarrow>
       bdata (bufs s i) = disk s (bsector (bufs s i))"
  shows "trans_inv d0 t0 s"
  using assms unfolding trans_inv_def by blast

lemma logged_length:
  assumes "trans_inv d0 t0 s"
  shows "length (logged s) = nat (lhn s)" "nat (lhn s) < LOGSIZE"
  using trans_invD(2,5) [OF assms] by (auto simp: logged_def log_geom_def)

text \<open>Changing only flags and bytes of one buffer that is locked afterwards.\<close>

lemma stored_bufs [simp]: "stored (s \<lparr> bufs := f \<rparr>) = stored s"
  by (simp add: stored_def logged_def)

lemma trans_inv_locked:
  assumes "trans_inv d0 t0 s" "bcache_ok (s \<lparr> bufs := (bufs s)(b := x) \<rparr>)" "b < NBUF" "busy x"
    "dirty x = dirty (bufs s b)" "dirty x \<longrightarrow> bdev x = bdev (bufs s b) \<and> bsector x = bsector (bufs s b)"
    "bdev x = 1 \<longrightarrow> valid x \<longrightarrow> lstart s \<le> bsector x \<longrightarrow> bdata x = disk s (bsector x)"
  shows "trans_inv d0 t0 (s \<lparr> bufs := (bufs s)(b := x) \<rparr>)" (is "trans_inv d0 t0 ?s")
proof -
  note inv = trans_invD [OF assms(1)]
  have fields: "lstart ?s = lstart s" "logged ?s = logged s" "log_geom ?s = log_geom s" "lbusy ?s = lbusy s"
    "lhn ?s = lhn s" "lsize ?s = lsize s" "disk ?s = disk s" "dtrace ?s = dtrace s"
    by (simp_all add: logged_def log_geom_def)
  show ?thesis
  proof (rule trans_invI, unfold fields)
    show "bcache_ok ?s" by (rule assms(2))
    show "bdev (bufs ?s i) = 1 \<and> bsector (bufs ?s i) \<in> set (logged s)" if "i < NBUF" "dirty (bufs ?s i)" for i
      using that inv(9) [of i] assms(5,6) by (cases "i = b") auto
    show "\<exists>i < NBUF. bdev (bufs ?s i) = 1 \<and> bsector (bufs ?s i) = y \<and> dirty (bufs ?s i) \<and>
       (\<not> busy (bufs ?s i) \<longrightarrow> bdata (bufs ?s i) = stored ?s y)" if y: "y \<in> set (logged s)" for y
    proof -
      from inv(10) [OF y] obtain i where "i < NBUF" "bdev (bufs s i) = 1" "bsector (bufs s i) = y" "dirty (bufs s i)"
        "\<not> busy (bufs s i) \<longrightarrow> bdata (bufs s i) = stored s y" by blast
      then show ?thesis using assms(4,5,6) by (intro exI [of _ i]) auto
    qed
    show "bdata (bufs ?s i) = disk s (bsector (bufs ?s i))"
      if "i < NBUF" "bdev (bufs ?s i) = 1" "valid (bufs ?s i)" "lstart s \<le> bsector (bufs ?s i)" for i
      using that inv(11) [of i] assms(7) by (cases "i = b") auto
  qed (use inv in blast)+
qed

lemma trans_inv_view_log:
  assumes "trans_inv d0 t0 s" "lstart s \<le> x"
  shows "view s x = disk s x"
proof (cases "\<exists>i < NBUF. bdev (bufs s i) = 1 \<and> valid (bufs s i) \<and> bsector (bufs s i) = x")
  case True
  then obtain i where i: "i < NBUF" "bdev (bufs s i) = 1" "valid (bufs s i)" "bsector (bufs s i) = x" by blast
  then show ?thesis using view_cached [OF trans_invD(1) [OF assms(1)] i(1-4)] trans_invD(11) [OF assms(1) i(1-3)] assms(2) by simp
next
  case False
  show ?thesis by (rule view_uncached [OF trans_invD(1) [OF assms(1)]]) (use False in blast)
qed

lemma trans_inv_bread:
  assumes "trans_inv d0 t0 s" "bread 1 sec s = Inr (b, s')"
  shows "trans_inv d0 t0 s'"
proof -
  have ok: "bcache_ok s" by (rule trans_invD(1) [OF assms(1)])
  have post: "bread_post s sec b s'" by (rule bread_Inr [OF ok assms(2)])
  then obtain x where x: "s' = s \<lparr> bufs := (bufs s)(b := x) \<rparr>" "b < NBUF" "busy x" "valid x" "bdev x = 1" "bsector x = sec"
    "bdata x = view s sec" "dirty x = dirty (bufs s b)" "bdev (bufs s b) = 1 \<and> bsector (bufs s b) = sec \<or> \<not> dirty (bufs s b)"
    unfolding bread_post_def by blast
  have "bcache_ok (s \<lparr> bufs := (bufs s)(b := x) \<rparr>)" using bread_post_ok(1) [OF ok post] x(1) by simp
  moreover have "bdata x = disk s sec" if "lstart s \<le> sec" using trans_inv_view_log [OF assms(1) that] x(7) by simp
  ultimately show ?thesis unfolding x(1) by (intro trans_inv_locked [OF assms(1)]) (use x in auto)
qed

lemma trans_inv_modify:
  assumes "trans_inv d0 t0 s" "holds s b sec" "sec < lstart s"
  shows "trans_inv d0 t0 (upd_buf b (bdata_update (\<lambda>_. d)) s)"
proof -
  have "bcache_ok (s \<lparr> bufs := (bufs s)(b := (bufs s b) \<lparr> bdata := d \<rparr>) \<rparr>)"
    using bset_data_ok(1) [OF trans_invD(1) [OF assms(1)] assms(2), of d] by (simp add: upd_buf_def)
  then have "trans_inv d0 t0 (s \<lparr> bufs := (bufs s)(b := (bufs s b) \<lparr> bdata := d \<rparr>) \<rparr>)"
    by (rule trans_inv_locked [OF assms(1)]) (use assms(2,3) in \<open>auto simp: holds_def\<close>)
  then show ?thesis by (simp add: upd_buf_def)
qed

lemma logged_dirty:
  assumes "trans_inv d0 t0 s" "holds s b sec"
  shows "dirty (bufs s b) \<longleftrightarrow> sec \<in> set (logged s)"
proof
  assume "dirty (bufs s b)"
  then show "sec \<in> set (logged s)" using trans_invD(9) [OF assms(1), of b] assms(2) by (auto simp: holds_def)
next
  assume "sec \<in> set (logged s)"
  from trans_invD(10) [OF assms(1) this] obtain i where i: "i < NBUF" "bdev (bufs s i) = 1" "bsector (bufs s i) = sec" "dirty (bufs s i)"
    by blast
  then have "i = b" using holds_unique [OF trans_invD(1) [OF assms(1)] assms(2), of i] by blast
  then show "dirty (bufs s b)" using i by simp
qed

lemma stored_not_logged: "x \<notin> set (logged s) \<Longrightarrow> stored s x = disk s x"
  by (simp add: stored_def overlay_def Let_def log_index_less_iff)

lemma stored_logged: "x \<in> set (logged s) \<Longrightarrow> stored s x = disk s (lsec (lstart s) (log_index x (logged s)))"
  by (simp add: stored_def overlay_def Let_def log_index_less_iff)

lemma trans_inv_brelse:
  assumes "trans_inv d0 t0 s" "holds s b sec" "bdata (bufs s b) = stored s sec" "brelse b s = Inr ((), s')"
  shows "trans_inv d0 t0 s'"
proof -
  note inv = trans_invD [OF assms(1)]
  have h: "b < NBUF" "busy (bufs s b)" "bdev (bufs s b) = 1" "bsector (bufs s b) = sec"
    using assms(2) by (auto simp: holds_def)
  let ?w = "woken s @ [Chan_buf b]"
  have s': "s' = (upd_buf b (busy_update (\<lambda>_. False)) s) \<lparr> lru := b # remove1 b (lru s), woken := ?w \<rparr>"
    using brelse_run [OF h(2)] assms(4) by simp
  have "dirty (bufs s b) \<or> bdata (bufs s b) = disk s sec"
    using logged_dirty [OF assms(1,2)] assms(3) stored_not_logged by metis
  note ok = brelse_ok(1) [OF inv(1) assms(2) this, of ?w]
  have fields: "lstart s' = lstart s" "logged s' = logged s" "log_geom s' = log_geom s" "lbusy s' = lbusy s"
    "lhn s' = lhn s" "lsize s' = lsize s" "disk s' = disk s" "dtrace s' = dtrace s" "stored s' = stored s"
    by (simp_all add: s' upd_buf_def logged_def log_geom_def stored_def)
  have b: "bufs s' i = (if i = b then (bufs s b) \<lparr> busy := False \<rparr> else bufs s i)" for i
    by (simp add: s' upd_buf_def)
  show ?thesis
  proof (rule trans_invI, unfold fields)
    show "bcache_ok s'" using ok s' by simp
    show "bdev (bufs s' i) = 1 \<and> bsector (bufs s' i) \<in> set (logged s)" if "i < NBUF" "dirty (bufs s' i)" for i
      using that inv(9) [of i] by (cases "i = b") (auto simp: b)
    show "\<exists>i < NBUF. bdev (bufs s' i) = 1 \<and> bsector (bufs s' i) = y \<and> dirty (bufs s' i) \<and>
       (\<not> busy (bufs s' i) \<longrightarrow> bdata (bufs s' i) = stored s y)" if y: "y \<in> set (logged s)" for y
    proof -
      from inv(10) [OF y] obtain i where "i < NBUF" "bdev (bufs s i) = 1" "bsector (bufs s i) = y" "dirty (bufs s i)"
        "\<not> busy (bufs s i) \<longrightarrow> bdata (bufs s i) = stored s y" by blast
      then show ?thesis using assms(3) h by (intro exI [of _ i]) (auto simp: b)
    qed
    show "bdata (bufs s' i) = disk s (bsector (bufs s' i))"
      if "i < NBUF" "bdev (bufs s' i) = 1" "valid (bufs s' i)" "lstart s \<le> bsector (bufs s' i)" for i
      using that inv(11) [of i] by (cases "i = b") (auto simp: b)
  qed (use inv in blast)+
qed

lemma kthen3: "kthen a (kthen b (kthen c r)) = kthen (kthen a (kthen b c)) r"
  by (simp add: kbind_assoc)

lemma bcache_ok_lhn: "bcache_ok (upd_buf b g (lhn_update f s)) = bcache_ok (upd_buf b g s)"
  by (simp add: bcache_ok_def upd_buf_def)

lemma log_write_guard:
  assumes "trans_inv d0 t0 s"
  shows "(lhn s \<ge> int LOGSIZE \<or> lhn s \<ge> sint (lsize s) - 1) \<longleftrightarrow> \<not> nat (lhn s) + 1 < unat (lsize s)"
proof -
  note inv = trans_invD [OF assms]
  have "sint (lsize s) = int (unat (lsize s))" using inv(2) by (intro sint_small) (auto simp: log_geom_def)
  moreover have "unat (lsize s) \<le> NBUF" using inv(2) by (simp add: log_geom_def)
  ultimately show ?thesis using inv(4) by linarith
qed

text \<open>With room in the log, \<open>log_write\<close> is the body after its two checks.\<close>

lemma log_write_body:
  assumes "trans_inv d0 t0 s" "holds s b sec" "nat (lhn s) + 1 < unat (lsize s)"
  defines "i \<equiv> log_index sec (logged s)"
  shows "log_write b s = kbind (bread 1 (lsec (lstart s) i)) (\<lambda>lbuf. kbind (bget_data b) (\<lambda>d.
      kthen (kthen (bset_data lbuf d) (kthen (bwrite lbuf) (brelse lbuf)))
        (kthen (kwhen (i = nat (lhn s)) (kmod (lhn_update (\<lambda>m. m + 1)))) (kmod (upd_buf b (dirty_update (\<lambda>_. True)))))))
      (s \<lparr> lhsector := (lhsector s)[i := sec] \<rparr>)"
proof -
  have "\<not> (lhn s \<ge> int LOGSIZE \<or> lhn s \<ge> sint (lsize s) - 1)" using log_write_guard [OF assms(1)] assms(3) by blast
  moreover have "bdev (bufs s b) = 1" "bsector (bufs s b) = sec" using assms(2) by (auto simp: holds_def)
  ultimately show ?thesis
    unfolding log_write_def kthen3 [symmetric] kbind_kget prod.case i_def logged_def
    by (simp only: trans_invD(3) [OF assms(1)] if_False not_True_eq_False kbind_kget kbind_kmod prod.case)
qed

lemma log_write_returns:
  assumes "trans_inv d0 t0 s" "holds s b sec" "nat (lhn s) + 1 < unat (lsize s)"
    "\<exists>i < NBUF. \<not> busy (bufs s i) \<and> \<not> dirty (bufs s i)"
    "\<And>i. i < NBUF \<Longrightarrow> busy (bufs s i) \<Longrightarrow> bsector (bufs s i) < lstart s"
  shows "\<exists>s'. log_write b s = Inr ((), s')"
proof -
  note inv = trans_invD [OF assms(1)]
  let ?i = "log_index sec (logged s)"
  let ?s0 = "s \<lparr> lhsector := (lhsector s)[?i := sec] \<rparr>"
  have "?i + 1 < unat (lsize s)"
    using log_index_le [of sec "logged s"] logged_length(1) [OF assms(1)] assms(3) by simp
  note ls = lsec_geom [OF inv(2) this]
  have ok: "bcache_ok ?s0" using inv(1) by (simp add: bcache_ok_def)
  have "\<not> busy (bufs s i)" if "i < NBUF" "bsector (bufs s i) = lsec (lstart s) ?i" for i
    using assms(5) [OF that(1)] that(2) ls(3) by (auto dest: order.asym)
  with bread_returns [OF ok, of "lsec (lstart s) ?i"] ls(2) assms(4) obtain l s1
    where r: "bread 1 (lsec (lstart s) ?i) ?s0 = Inr (l, s1)" and post: "bread_post ?s0 (lsec (lstart s) ?i) l s1" by auto
  note p = bread_post_ok [OF ok post]
  have "lsec (lstart s) ?i < disksize s1" using ls(2) p(7) by simp
  from write_out_run [OF p(1,3) this] obtain s2 where
    w: "kthen (bset_data l (bdata (bufs s1 b))) (kthen (bwrite l) (brelse l)) s1 = Inr ((), s2)" by blast
  have "log_write b s = kthen (kwhen (?i = nat (lhn s)) (kmod (lhn_update (\<lambda>m. m + 1))))
      (kmod (upd_buf b (dirty_update (\<lambda>_. True)))) s2"
    unfolding log_write_body [OF assms(1-3)] kbind_Inr [of "bread 1 (lsec (lstart s) ?i)", OF r] bget_data_def kbind_kget
      kbind_Inr [of "kthen (bset_data l (bdata (bufs s1 b))) (kthen (bwrite l) (brelse l))", OF w] ..
  then show ?thesis by (simp add: kbind_def kmod_def kret_def)
qed

text \<open>The state that \<open>log_write\<close> leaves.\<close>

lemma log_write_result:
  assumes "trans_inv d0 t0 s" "holds s b sec" "sec < lstart s" "log_write b s = Inr ((), s')"
  defines "i \<equiv> log_index sec (logged s)" and "v \<equiv> bdata (bufs s b)"
  shows "\<exists>l. nat (lhn s) + 1 < unat (lsize s) \<and> bcache_ok s' \<and> l < NBUF \<and> l \<noteq> b \<and> \<not> dirty (bufs s l) \<and>
    (\<forall>j. j \<noteq> b \<longrightarrow> j \<noteq> l \<longrightarrow> bufs s' j = bufs s j) \<and> bufs s' b = (bufs s b) \<lparr> dirty := True \<rparr> \<and>
    \<not> dirty (bufs s' l) \<and> bdev (bufs s' l) = 1 \<and> bsector (bufs s' l) = lsec (lstart s) i \<and> bdata (bufs s' l) = v \<and>
    disk s' = (disk s)(lsec (lstart s) i := v) \<and> dtrace s' = dtrace s @ [(lsec (lstart s) i, v)] \<and>
    lstart s' = lstart s \<and> lsize s' = lsize s \<and> ldev s' = ldev s \<and> lbusy s' = lbusy s \<and> disksize s' = disksize s \<and>
    lhsector s' = (lhsector s)[i := sec] \<and> lhn s' = (if i = nat (lhn s) then lhn s + 1 else lhn s) \<and>
    lst.more s' = lst.more s \<and> \<not> busy (bufs s l) \<and> \<not> busy (bufs s' l)"
proof -
  note inv = trans_invD [OF assms(1)]
  have h: "b < NBUF" "busy (bufs s b)" "valid (bufs s b)" "bdev (bufs s b) = 1" "bsector (bufs s b) = sec"
    using assms(2) by (auto simp: holds_def)
  have ilen: "i \<le> nat (lhn s)" using log_index_le [of sec "logged s"] logged_length(1) [OF assms(1)] by (simp add: i_def)
  let ?s0 = "s \<lparr> lhsector := (lhsector s)[i := sec] \<rparr>"
  let ?fin = "\<lambda>t. upd_buf b (dirty_update (\<lambda>_. True)) (if i = nat (lhn s) then lhn_update (\<lambda>m. m + 1) t else t)"
  have "\<not> (lhn s \<ge> int LOGSIZE \<or> lhn s \<ge> sint (lsize s) - 1)"
    using assms(4) by (auto simp: log_write_def kbind_kget kstop_def split: if_splits)
  then have n: "nat (lhn s) + 1 < unat (lsize s)" using log_write_guard [OF assms(1)] by blast
  have lg: "i + 1 < unat (lsize s)" using ilen n by simp
  note ls = lsec_geom [OF inv(2) lg]
  have ok0: "bcache_ok ?s0" using inv(1) by (simp add: bcache_ok_def)
  note run = log_write_body [OF assms(1,2) n, folded i_def]
  from assms(4) obtain l s1 where r: "bread 1 (lsec (lstart s) i) ?s0 = Inr (l, s1)"
    unfolding run kbind_eq_Inr by blast
  have post: "bread_post ?s0 (lsec (lstart s) i) l s1" by (rule bread_Inr [OF ok0 r])
  note p = bread_post_ok [OF ok0 post]
  have lb: "l \<noteq> b" using p(12) h(2) by auto
  have "lsec (lstart s) i < disksize s1" using ls(2) p(7) by simp
  from write_out_run [OF p(1,3) this, of v] obtain s2 where w:
    "kthen (bset_data l v) (kthen (bwrite l) (brelse l)) s1 = Inr ((), s2)" "bcache_ok s2" "\<not> busy (bufs s2 l)"
    "bdev (bufs s2 l) = 1" "bsector (bufs s2 l) = lsec (lstart s) i" "valid (bufs s2 l)" "bdata (bufs s2 l) = v" "same_rest s1 s2"
    "disk s2 = (disk s1)(lsec (lstart s) i := v)" "dtrace s2 = dtrace s1 @ [(lsec (lstart s) i, v)]"
    "\<forall>j. j \<noteq> l \<longrightarrow> bufs s2 j = bufs s1 j" "\<not> dirty (bufs s2 l)" by blast
  have bb: "bufs s1 b = bufs s b" "bufs s2 b = bufs s b" using p(10) w(11) lb by auto
  have res: "s' = ?fin s2"
  proof -
    have "log_write b s = kthen (kwhen (i = nat (lhn s)) (kmod (lhn_update (\<lambda>m. m + 1))))
        (kmod (upd_buf b (dirty_update (\<lambda>_. True)))) s2"
      unfolding run kbind_Inr [of "bread 1 (lsec (lstart s) i)", OF r] bget_data_def kbind_kget bb(1) v_def [symmetric]
        kbind_Inr [of "kthen (bset_data l v) (kthen (bwrite l) (brelse l))", OF w(1)] ..
    then show ?thesis using assms(4) by (simp add: kbind_def kmod_def kret_def split: if_splits)
  qed
  have fin_ok: "bcache_ok s'"
  proof -
    have "holds s2 b sec" using h bb by (simp add: holds_def)
    from mark_dirty_ok(1) [OF w(2) this] show ?thesis unfolding res by (simp add: bcache_ok_lhn)
  qed
  have nd: "\<not> dirty (bufs s l)"
  proof
    assume "dirty (bufs s l)"
    moreover have "bdev (bufs s l) = 1 \<and> bsector (bufs s l) = lsec (lstart s) i \<or> \<not> dirty (bufs s l)"
      using post by (auto simp: bread_post_def)
    ultimately show False using inv(9) [OF p(13)] inv(7) ls(3) by (metis order.asym)
  qed
  have rest: "same_rest ?s0 s1" using post by (auto simp: bread_post_def same_rest_def)
  note eqs = same_rest_lst [OF same_rest_trans [OF rest w(8)]]
  show ?thesis
    by (rule exI [of _ l]) (use n fin_ok p(12,13) lb nd w p(5,6,10) bb eqs in \<open>auto simp: res upd_buf_def\<close>)
qed

lemma log_index_append:
  "log_index x (xs @ [y]) = (if x \<in> set xs then log_index x xs else if x = y then length xs else Suc (length xs))"
  by (induction xs) auto

lemma list_update_take_same:
  assumes "i < n" "n \<le> length xs" "take n xs ! i = x"
  shows "take n (xs[i := x]) = take n xs"
  using assms by (metis list_update_id nth_take take_update_swap)

lemma logged_after:
  assumes "trans_inv d0 t0 s"
    "lhsector s' = (lhsector s)[log_index sec (logged s) := sec]"
    "lhn s' = (if log_index sec (logged s) = nat (lhn s) then lhn s + 1 else lhn s)"
  shows "logged s' = (if sec \<in> set (logged s) then logged s else logged s @ [sec])"
proof -
  let ?i = "log_index sec (logged s)" and ?n = "nat (lhn s)"
  note len = logged_length [OF assms(1)]
  have ls: "length (lhsector s) = LOGSIZE" using trans_invD(2) [OF assms(1)] by (simp add: log_geom_def)
  show ?thesis
  proof (cases "sec \<in> set (logged s)")
    case True
    then have i: "?i < ?n" using len(1) log_index_less_iff by metis
    have "take ?n (lhsector s) ! ?i = sec" using log_index_nth [of sec "logged s"] i len(1) by (simp add: logged_def)
    from list_update_take_same [OF i _ this] show ?thesis
      using True i assms(2,3) ls len(2) by (simp add: logged_def)
  next
    case False
    then have i: "?i = ?n" using len(1) log_index_less_iff [of sec "logged s"] log_index_le [of sec "logged s"] by simp
    have "nat (lhn s + 1) = Suc ?n" using trans_invD(4) [OF assms(1)] by simp
    then have "logged s' = take (Suc ?n) ((lhsector s)[?n := sec])" using assms(2,3) i by (simp add: logged_def)
    also have "\<dots> = take ?n (lhsector s) @ [sec]"
      using ls len(2) by (simp add: take_Suc_conv_app_nth)
    finally show ?thesis using False by (simp add: logged_def)
  qed
qed

lemma trans_inv_log_write:
  assumes "trans_inv d0 t0 s" "holds s b sec" "sec < lstart s" "log_write b s = Inr ((), s')"
  shows "trans_inv d0 t0 s'"
    and "set (logged s') = insert sec (set (logged s))"
    and "\<And>x. x < lstart s \<Longrightarrow> stored s' x = (if x = sec then bdata (bufs s b) else stored s x)"
proof -
  note inv = trans_invD [OF assms(1)]
  let ?i = "log_index sec (logged s)" and ?v = "bdata (bufs s b)"
  from log_write_result [OF assms] obtain l where r:
    "nat (lhn s) + 1 < unat (lsize s)" "bcache_ok s'" "l < NBUF" "l \<noteq> b" "\<not> dirty (bufs s l)"
    "\<forall>j. j \<noteq> b \<longrightarrow> j \<noteq> l \<longrightarrow> bufs s' j = bufs s j" "bufs s' b = (bufs s b) \<lparr> dirty := True \<rparr>"
    "\<not> dirty (bufs s' l)" "bdev (bufs s' l) = 1" "bsector (bufs s' l) = lsec (lstart s) ?i" "bdata (bufs s' l) = ?v"
    "disk s' = (disk s)(lsec (lstart s) ?i := ?v)" "dtrace s' = dtrace s @ [(lsec (lstart s) ?i, ?v)]"
    "lstart s' = lstart s" "lsize s' = lsize s" "ldev s' = ldev s" "lbusy s' = lbusy s" "disksize s' = disksize s"
    "lhsector s' = (lhsector s)[?i := sec]" "lhn s' = (if ?i = nat (lhn s) then lhn s + 1 else lhn s)" by blast
  have h: "b < NBUF" "busy (bufs s b)" "valid (bufs s b)" "bdev (bufs s b) = 1" "bsector (bufs s b) = sec"
    using assms(2) by (auto simp: holds_def)
  note lg = logged_after [OF assms(1) r(19,20)]
  note len = logged_length [OF assms(1)]
  have ilt: "?i + 1 < unat (lsize s)" using log_index_le [of sec "logged s"] len(1) r(1) by simp
  note ls = lsec_geom [OF inv(2) ilt]
  show set': "set (logged s') = insert sec (set (logged s))" unfolding lg by auto
  show st: "stored s' x = (if x = sec then ?v else stored s x)" if "x < lstart s" for x
  proof -
    have xl: "x \<noteq> lsec (lstart s) ?i" using that ls(3) by auto
    have ix: "log_index x (logged s) + 1 < unat (lsize s)" if "x \<in> set (logged s)"
      using that log_index_less_iff [of x "logged s"] len(1) r(1) by simp
    have lx: "lsec (lstart s) (log_index x (logged s)) \<noteq> lsec (lstart s) ?i" if "x \<in> set (logged s)" "x \<noteq> sec"
    proof
      assume "lsec (lstart s) (log_index x (logged s)) = lsec (lstart s) ?i"
      from lsec_inj [OF inv(2) ix [OF that(1)] ilt this] have "log_index x (logged s) = ?i" .
      then show False using that log_index_nth [of x "logged s"] log_index_nth [of sec "logged s"]
        by (metis log_index_less_iff)
    qed
    show ?thesis
    proof (cases "x = sec")
      case True
      then show ?thesis
        using log_index_append [of sec "logged s" sec] log_index_less_iff [of sec "logged s"] log_index_le [of sec "logged s"]
        by (cases "sec \<in> set (logged s)") (simp_all add: stored_def overlay_def lg r(12,14) Let_def)
    next
      case False
      then show ?thesis using lx xl
        by (cases "x \<in> set (logged s)")
          (auto simp: stored_def overlay_def lg r(12,14) Let_def log_index_append log_index_less_iff)
    qed
  qed
  show "trans_inv d0 t0 s'"
  proof (rule trans_invI)
    show "bcache_ok s'" by (rule r(2))
    show "log_geom s'" using inv(2) r(14-19) by (simp add: log_geom_def)
    show "lbusy s'" using inv(3) r(17) by simp
    show "0 \<le> lhn s'" "nat (lhn s') < unat (lsize s')" using inv(4) r(1,15,20) by auto
    show "distinct (logged s')" using inv(6) by (simp add: lg)
    show "x < lstart s'" if "x \<in> set (logged s')" for x using that inv(7) assms(3) r(14) set' by auto
    show "\<exists>ws. dtrace s' = t0 @ ws \<and> disk s' = apply_writes ws d0 \<and> (\<forall>x \<in> fst ` set ws. lstart s' < x)"
    proof -
      from inv(8) obtain ws where ws: "dtrace s = t0 @ ws" "disk s = apply_writes ws d0" "\<forall>x \<in> fst ` set ws. lstart s < x"
        by blast
      show ?thesis using ws r(12-14) ls(3) by (intro exI [of _ "ws @ [(lsec (lstart s) ?i, ?v)]"]) auto
    qed
    show "bdev (bufs s' j) = 1 \<and> bsector (bufs s' j) \<in> set (logged s')" if "j < NBUF" "dirty (bufs s' j)" for j
    proof (cases "j = b")
      case True
      then show ?thesis using h r(7) set' by simp
    next
      case False
      moreover have "j \<noteq> l" using that(2) r(8) by blast
      ultimately show ?thesis using that inv(9) [of j] r(6) set' by auto
    qed
    show "\<exists>j < NBUF. bdev (bufs s' j) = 1 \<and> bsector (bufs s' j) = x \<and> dirty (bufs s' j) \<and>
       (\<not> busy (bufs s' j) \<longrightarrow> bdata (bufs s' j) = stored s' x)" if x: "x \<in> set (logged s')" for x
    proof (cases "x = sec")
      case True
      then show ?thesis using h r(7) by (intro exI [of _ b]) simp
    next
      case False
      then have xl: "x \<in> set (logged s)" using x set' by simp
      from inv(10) [OF this] obtain j where j: "j < NBUF" "bdev (bufs s j) = 1" "bsector (bufs s j) = x" "dirty (bufs s j)"
        "\<not> busy (bufs s j) \<longrightarrow> bdata (bufs s j) = stored s x" by blast
      have "j \<noteq> b" "j \<noteq> l" using j False h r(5) by auto
      then have "bufs s' j = bufs s j" using r(6) by blast
      then show ?thesis using j st [OF inv(7) [OF xl]] False by (intro exI [of _ j]) simp
    qed
    show "bdata (bufs s' j) = disk s' (bsector (bufs s' j))"
      if j: "j < NBUF" "bdev (bufs s' j) = 1" "valid (bufs s' j)" "lstart s' \<le> bsector (bufs s' j)" for j
    proof -
      have "j \<noteq> b" using j(4) h(5) r(7,14) assms(3) by auto
      show ?thesis
      proof (cases "j = l")
        case True
        then show ?thesis using r(10,11,12) by simp
      next
        case False
        then have "bufs s' j = bufs s j" using r(6) \<open>j \<noteq> b\<close> by blast
        moreover have "bsector (bufs s' j) \<noteq> lsec (lstart s) ?i"
          using bcache_okD(3) [OF r(2) j(1) r(3) j(2) r(9)] False r(10) by auto
        ultimately show ?thesis using j inv(11) [of j] r(12,14) by simp
      qed
    qed
  qed
qed

lemma trans_inv_above: "trans_inv d0 t0 s \<Longrightarrow> trans_inv d0 t0 (lst.more_update f s)"
  by (simp add: trans_inv_def bcache_ok_def log_geom_def logged_def stored_def)

lemma trans_inv_step: "tstep s s' \<Longrightarrow> trans_inv d0 t0 s \<Longrightarrow> trans_inv d0 t0 s'"
  by (induction rule: tstep.induct)
    (blast intro: trans_inv_bread trans_inv_modify trans_inv_log_write(1) trans_inv_brelse trans_inv_above)+

lemma trans_inv_steps: "tstep\<^sup>*\<^sup>* s s' \<Longrightarrow> trans_inv d0 t0 s \<Longrightarrow> trans_inv d0 t0 s'"
  by (induction rule: rtranclp_induct) (blast intro: trans_inv_step)+

lemma tstep_lstart:
  assumes "tstep s s'" "trans_inv d0 t0 s"
  shows "lstart s' = lstart s"
  using assms
proof (induction rule: tstep.induct)
  case (t_bread sec s b s')
  from bread_Inr [OF trans_invD(1) [OF t_bread(2)] t_bread(1)] show ?case by (auto simp: bread_post_def)
next
  case (t_modify s b sec d)
  then show ?case by (simp add: upd_buf_def)
next
  case (t_log_write s b sec s')
  from log_write_result [OF t_log_write(4,1,2,3)] show ?case by blast
next
  case (t_brelse s b sec s')
  then have "busy (bufs s b)" by (simp add: holds_def)
  from brelse_run [OF this] t_brelse(3) show ?case by (auto simp: upd_buf_def)
next
  case (t_above s f)
  show ?case by simp
qed

lemma tsteps_lstart: "tstep\<^sup>*\<^sup>* s s' \<Longrightarrow> trans_inv d0 t0 s \<Longrightarrow> lstart s' = lstart s"
  by (induction rule: rtranclp_induct) (auto dest: tstep_lstart trans_inv_steps)

lemma trans_inv_dirty:
  assumes "trans_inv d0 t0 s"
  shows "dirty_sectors s = set (logged s)" "\<exists>i < NBUF. \<not> dirty (bufs s i)"
proof -
  note inv = trans_invD [OF assms]
  show "dirty_sectors s = set (logged s)"
    using inv(9,10) by (auto simp: dirty_sectors_iff) metis
  show "\<exists>i < NBUF. \<not> dirty (bufs s i)"
  proof (rule ccontr)
    assume "\<not> (\<exists>i < NBUF. \<not> dirty (bufs s i))"
    then have d: "\<And>i. i < NBUF \<Longrightarrow> dirty (bufs s i)" by blast
    have "inj_on (\<lambda>i. bsector (bufs s i)) {..<NBUF}"
      using bcache_okD(3) [OF inv(1)] inv(9) d by (auto intro!: inj_onI)
    moreover have "(\<lambda>i. bsector (bufs s i)) ` {..<NBUF} \<subseteq> set (logged s)" using inv(9) d by auto
    ultimately have "card {..<NBUF} \<le> card (set (logged s))" by (rule card_inj_on_le) simp
    also have "\<dots> \<le> length (logged s)" by (rule card_length)
    finally show False using logged_length [OF assms] by simp
  qed
qed

end
