(* ===== verification/Tx.thy ===== *)
theory Tx
  imports Log
begin

text \<open>
  The calculus in which the file system operations are verified. Inside a transaction the code only reads
  blocks, overwrites and logs held blocks, and releases them. The three rules below describe these steps by their effect on
  the home blocks that a reader sees (\<open>home\<close>), the set of buffers that are held and the set of blocks that
  the transaction has logged; they also say how much room in the log and in the cache each step needs.
\<close>

section \<open>States between two steps\<close>

definition held :: "'a bst_scheme \<Rightarrow> nat set" where
  "held s = {b. b < NBUF \<and> busy (bufs s b)}"

text \<open>A transaction is under way and every change to a held buffer has been logged.\<close>

definition tx :: "'a lst_scheme \<Rightarrow> bool" where
  "tx s \<longleftrightarrow> (\<exists>d0 t0. trans_inv d0 t0 s) \<and>
    (\<forall>b \<in> held s. bdev (bufs s b) = 1 \<and> valid (bufs s b) \<and> bsector (bufs s b) < lstart s \<and>
       bdata (bufs s b) = stored s (bsector (bufs s b)))"

text \<open>The file system blocks as a reader sees them.\<close>

definition home :: "'a lst_scheme \<Rightarrow> u32 \<Rightarrow> block" where
  "home s x = (if x < lstart s then view s x else [])"

definition nlog :: "'a lst_scheme \<Rightarrow> nat" where
  "nlog s = card (set (logged s))"

definition evolves :: "'a lst_scheme \<Rightarrow> 'a lst_scheme \<Rightarrow> bool" where
  "evolves s s' \<longleftrightarrow> tstep\<^sup>*\<^sup>* s s' \<and> lst.more s' = lst.more s \<and> lstart s' = lstart s \<and> lsize s' = lsize s \<and>
    disksize s' = disksize s"

lemma evolves_refl [simp]: "evolves s s"
  by (simp add: evolves_def)

lemma evolves_trans: "evolves s t \<Longrightarrow> evolves t u \<Longrightarrow> evolves s u"
  by (auto simp: evolves_def)

lemma finite_held [simp]: "finite (held s)"
  by (simp add: held_def)

lemma nlog_lhn:
  assumes "trans_inv d0 t0 s"
  shows "nat (lhn s) = nlog s"
  using logged_length(1) [OF assms] trans_invD(6) [OF assms] by (simp add: nlog_def distinct_card)

lemma free_buffer:
  assumes "trans_inv d0 t0 s" "nlog s + card (held s) < NBUF"
  shows "\<exists>i < NBUF. \<not> busy (bufs s i) \<and> \<not> dirty (bufs s i)"
proof (rule ccontr)
  assume no: "\<not> ?thesis"
  note inv = trans_invD [OF assms(1)]
  let ?D = "{i. i < NBUF \<and> dirty (bufs s i)}"
  have "inj_on (\<lambda>i. bsector (bufs s i)) ?D"
    using bcache_okD(3) [OF inv(1)] inv(9) by (auto intro!: inj_onI)
  moreover have "(\<lambda>i. bsector (bufs s i)) ` ?D \<subseteq> set (logged s)" using inv(9) by auto
  ultimately have "card ?D \<le> nlog s" unfolding nlog_def by (rule card_inj_on_le) simp
  moreover have "{..<NBUF} \<subseteq> held s \<union> ?D" using no by (auto simp: held_def)
  then have "card {..<NBUF} \<le> card (held s \<union> ?D)" by (rule card_mono [rotated]) simp
  moreover have "card (held s \<union> ?D) \<le> card (held s) + card ?D" by (rule card_Un_le)
  ultimately show False using assms(2) by simp
qed

lemma tx_view:
  assumes "tx s" "x < lstart s"
  shows "view s x = stored s x"
proof -
  from assms(1) obtain d0 t0 where ti: "trans_inv d0 t0 s" by (auto simp: tx_def)
  note inv = trans_invD [OF ti]
  have h: "bdata (bufs s i) = stored s (bsector (bufs s i))" if "i < NBUF" "busy (bufs s i)" for i
    using assms(1) that by (auto simp: tx_def held_def)
  show ?thesis
  proof (cases "x \<in> set (logged s)")
    case True
    from inv(10) [OF True] obtain i where i: "i < NBUF" "bdev (bufs s i) = 1" "bsector (bufs s i) = x" "dirty (bufs s i)"
      "\<not> busy (bufs s i) \<longrightarrow> bdata (bufs s i) = stored s x" by blast
    have "valid (bufs s i)" by (rule bcache_okD(4) [OF inv(1) i(1,4)])
    from view_cached [OF inv(1) i(1,2) this i(3)] i h [of i] show ?thesis by auto
  next
    case False
    show ?thesis
    proof (cases "\<exists>i < NBUF. bdev (bufs s i) = 1 \<and> valid (bufs s i) \<and> bsector (bufs s i) = x")
      case True
      then obtain i where i: "i < NBUF" "bdev (bufs s i) = 1" "valid (bufs s i)" "bsector (bufs s i) = x" by blast
      have "\<not> dirty (bufs s i)" using inv(9) [OF i(1)] i(4) False by blast
      then have "bdata (bufs s i) = stored s x"
        using bcache_okD(5) [OF inv(1) i(1-3)] h [of i] i stored_not_logged [OF False] by (cases "busy (bufs s i)") auto
      then show ?thesis using view_cached [OF inv(1) i] by simp
    next
      case uncached: False
      have "view s x = disk s x" by (rule view_uncached [OF inv(1)]) (use uncached in blast)
      then show ?thesis using stored_not_logged [OF False] by simp
    qed
  qed
qed

lemma tx_holds: "tx s \<Longrightarrow> b \<in> held s \<Longrightarrow> holds s b (bsector (bufs s b))"
  by (auto simp: tx_def held_def holds_def)

lemma tx_held_unique:
  assumes "tx s" "b \<in> held s" "c \<in> held s" "bsector (bufs s b) = bsector (bufs s c)"
  shows "b = c"
  using assms bcache_okD(3) trans_invD(1) unfolding tx_def held_def by blast

lemma tx_data:
  assumes "tx s" "b \<in> held s"
  shows "bdata (bufs s b) = home s (bsector (bufs s b))" "bsector (bufs s b) < lstart s"
proof -
  have h: "bsector (bufs s b) < lstart s" "bdata (bufs s b) = stored s (bsector (bufs s b))"
    using assms by (auto simp: tx_def)
  then show "bdata (bufs s b) = home s (bsector (bufs s b))" "bsector (bufs s b) < lstart s"
    using tx_view [OF assms(1) h(1)] by (simp_all add: home_def)
qed

section \<open>The steps\<close>

lemma tx_bread:
  assumes "tx s" "sec < lstart s" "\<forall>b \<in> held s. bsector (bufs s b) \<noteq> sec" "nlog s + card (held s) < NBUF"
  shows "\<exists>b s'. bread 1 sec s = Inr (b, s') \<and> tx s' \<and> evolves s s' \<and> home s' = home s \<and> logged s' = logged s \<and>
    b \<notin> held s \<and> held s' = insert b (held s) \<and> bsector (bufs s' b) = sec \<and> bdata (bufs s' b) = home s sec \<and>
    (\<forall>i \<in> held s. bufs s' i = bufs s i)"
proof -
  from assms(1) obtain d0 t0 where ti: "trans_inv d0 t0 s" by (auto simp: tx_def)
  note inv = trans_invD [OF ti]
  have "\<not> busy (bufs s i)" if "i < NBUF" "bsector (bufs s i) = sec" for i using assms(3) that by (auto simp: held_def)
  with bread_returns [OF inv(1) home_geom [OF inv(2) assms(2)]] free_buffer [OF ti assms(4)] obtain b s'
    where r: "bread 1 sec s = Inr (b, s')" and post: "bread_post s sec b s'" by blast
  note p = bread_post_ok [OF inv(1) post]
  from post obtain x where x: "s' = s \<lparr> bufs := (bufs s)(b := x) \<rparr>" unfolding bread_post_def by blast
  have f: "lstart s' = lstart s" "logged s' = logged s" "stored s' = stored s" "lsize s' = lsize s"
    "disksize s' = disksize s" "lst.more s' = lst.more s" by (simp_all add: x logged_def)
  have nb: "b \<notin> held s" using p(12) by (simp add: held_def)
  have held: "held s' = insert b (held s)" using p(3,10,13) by (auto simp: held_def holds_def) metis+
  have same: "\<forall>i \<in> held s. bufs s' i = bufs s i" using nb p(10) by metis
  have hs: "home s' = home s" using p(2) f(1) by (simp add: home_def fun_eq_iff)
  have d: "bdata (bufs s' b) = home s sec" using p(4) assms(2) by (simp add: home_def)
  have "tx s'"
    unfolding tx_def held f using trans_inv_bread [OF ti r] same assms(1,2) p(3,4) tx_view [OF assms(1,2)]
    by (auto simp: tx_def holds_def)
  moreover have "evolves s s'" unfolding evolves_def f using t_bread [OF r] by simp
  ultimately show ?thesis using r hs f nb held same d p(3) by (auto simp: holds_def)
qed

text \<open>Overwriting a held block and logging it.\<close>

lemma tx_log_write:
  assumes "tx s" "b \<in> held s" "nlog s + 1 < unat (lsize s)" "nlog s + card (held s) < NBUF"
  shows "\<exists>s'. kthen (bset_data b d) (log_write b) s = Inr ((), s') \<and> tx s' \<and> evolves s s' \<and>
    home s' = (home s)(bsector (bufs s b) := d) \<and> set (logged s') = insert (bsector (bufs s b)) (set (logged s)) \<and>
    held s' = held s \<and> (\<forall>i \<in> held s. bsector (bufs s' i) = bsector (bufs s i))"
proof -
  from assms(1) obtain d0 t0 where ti: "trans_inv d0 t0 s" by (auto simp: tx_def)
  let ?sec = "bsector (bufs s b)" and ?s1 = "upd_buf b (bdata_update (\<lambda>_. d)) s"
  have h: "holds s b ?sec" by (rule tx_holds [OF assms(1,2)])
  have home: "?sec < lstart s" using assms(1,2) by (auto simp: tx_def)
  note t1 = trans_inv_modify [OF ti h home, of d]
  have h1: "holds ?s1 b ?sec" using h by (simp add: holds_def upd_buf_def)
  have f1: "lstart ?s1 = lstart s" "logged ?s1 = logged s" "lhn ?s1 = lhn s" "lsize ?s1 = lsize s" "stored ?s1 = stored s"
    "held ?s1 = held s" "lst.more ?s1 = lst.more s" "disksize ?s1 = disksize s"
    "\<And>i. i \<noteq> b \<Longrightarrow> bufs ?s1 i = bufs s i" "bdata (bufs ?s1 b) = d"
    "\<And>i. bsector (bufs ?s1 i) = bsector (bufs s i)" by (auto simp: upd_buf_def logged_def held_def)
  have "nlog ?s1 + card (held ?s1) < NBUF" using assms(4) f1 by (simp add: nlog_def)
  note free = free_buffer [OF t1 this]
  have low: "bsector (bufs ?s1 i) < lstart ?s1" if "i < NBUF" "busy (bufs ?s1 i)" for i
    using assms(1) f1(6) that by (auto simp: tx_def held_def upd_buf_def split: if_splits)
  have room: "nat (lhn ?s1) + 1 < unat (lsize ?s1)" using assms(3) nlog_lhn [OF ti] f1 by simp
  from log_write_returns [OF t1 h1 room free low] obtain s' where r: "log_write b ?s1 = Inr ((), s')" by blast
  have hl: "?sec < lstart ?s1" using home f1 by simp
  note lw = trans_inv_log_write [OF t1 h1 hl r, unfolded f1(1-5,10)]
  from log_write_result [OF t1 h1 hl r] obtain l where l: "l \<noteq> b" "\<forall>j. j \<noteq> b \<longrightarrow> j \<noteq> l \<longrightarrow> bufs s' j = bufs ?s1 j"
    "bufs s' b = (bufs ?s1 b) \<lparr> dirty := True \<rparr>" "\<not> busy (bufs ?s1 l)" "\<not> busy (bufs s' l)" "lstart s' = lstart s"
    "lsize s' = lsize s" "disksize s' = disksize s" "lst.more s' = lst.more s" unfolding f1(1-8) by blast
  have "busy (bufs s' i) = busy (bufs ?s1 i)" for i using l(2-5) by (cases "i = b"; cases "i = l") auto
  then have "held s' = held ?s1" unfolding held_def by (simp only:)
  then have held: "held s' = held s" using f1(6) by (rule trans)
  have old: "bufs s' i = bufs s i" if "i \<in> held s" "i \<noteq> b" for i
  proof -
    have "i \<noteq> l" using that(1) l(4) f1(6) by (metis (mono_tags, lifting) held_def mem_Collect_eq)
    then show ?thesis using l(2) f1(9) that(2) by metis
  qed
  have bsame: "bsector (bufs s' i) = bsector (bufs s i)" if "i \<in> held s" for i
    using old [OF that] l(3) f1(11) by (cases "i = b") auto
  have "tx s'"
    unfolding tx_def held l(6)
  proof (intro conjI ballI)
    show "\<exists>d0 t0. trans_inv d0 t0 s'" using lw(1) by blast
    fix i
    assume i: "i \<in> held s"
    show "bdev (bufs s' i) = 1" "valid (bufs s' i)" "bsector (bufs s' i) < lstart s"
      "bdata (bufs s' i) = stored s' (bsector (bufs s' i))"
      using assms(1) i old [OF i] l(3) h lw(3) f1(10) home tx_held_unique [OF assms(1) i assms(2)]
      by (cases "i = b"; auto simp: tx_def upd_buf_def holds_def)+
  qed
  moreover have "home s' = (home s)(?sec := d)"
    using tx_view [OF \<open>tx s'\<close>] tx_view [OF assms(1)] lw(3) home l(6) by (auto simp: home_def fun_eq_iff)
  moreover have "evolves s s'"
    using converse_rtranclp_into_rtranclp [OF t_modify [OF h home] r_into_rtranclp [of tstep, OF t_log_write [OF h1 hl r]]] l(6-9)
    by (simp add: evolves_def)
  moreover have "kthen (bset_data b d) (log_write b) s = Inr ((), s')" using r by (simp add: bset_data_def kbind_kmod)
  ultimately show ?thesis using lw(2) held bsame by blast
qed

lemma tx_brelse:
  assumes "tx s" "b \<in> held s"
  shows "\<exists>s'. brelse b s = Inr ((), s') \<and> tx s' \<and> evolves s s' \<and> home s' = home s \<and> logged s' = logged s \<and>
    held s' = held s - {b} \<and> (\<forall>i \<in> held s - {b}. bufs s' i = bufs s i)"
proof -
  from assms(1) obtain d0 t0 where ti: "trans_inv d0 t0 s" by (auto simp: tx_def)
  let ?sec = "bsector (bufs s b)"
  have h: "holds s b ?sec" by (rule tx_holds [OF assms])
  have d: "bdata (bufs s b) = stored s ?sec" using assms by (auto simp: tx_def)
  have busy: "busy (bufs s b)" using h by (simp add: holds_def)
  define s' where "s' = (upd_buf b (busy_update (\<lambda>_. False)) s) \<lparr> lru := b # remove1 b (lru s), woken := woken s @ [Chan_buf b] \<rparr>"
  have r: "brelse b s = Inr ((), s')" using brelse_run [OF busy] by (simp add: s'_def)
  have f: "lstart s' = lstart s" "logged s' = logged s" "stored s' = stored s" "lsize s' = lsize s" "disksize s' = disksize s"
    "lst.more s' = lst.more s" "\<And>i. i \<noteq> b \<Longrightarrow> bufs s' i = bufs s i" "held s' = held s - {b}"
    by (auto simp: s'_def upd_buf_def logged_def stored_def held_def split: if_splits)
  have t': "tx s'" unfolding tx_def f using trans_inv_brelse [OF ti h d r] assms(1) f(7) by (auto simp: tx_def)
  moreover have "home s' = home s" using tx_view [OF t'] tx_view [OF assms(1)] f by (auto simp: home_def fun_eq_iff)
  moreover have "evolves s s'" unfolding evolves_def f using t_brelse [OF h d r] by simp
  ultimately show ?thesis using r f by blast
qed

section \<open>Whole accesses\<close>

lemma tx_nlog: "logged s' = logged s \<Longrightarrow> nlog s' = nlog s"
  by (simp add: nlog_def)

lemma nlog_insert: "set (logged s') = insert x (set (logged s)) \<Longrightarrow> nlog s' \<le> nlog s + 1"
  unfolding nlog_def by (simp add: card_insert_if)

lemma tx_peek:
  assumes "tx s" "sec < lstart s" "\<forall>b \<in> held s. bsector (bufs s b) \<noteq> sec" "nlog s + card (held s) < NBUF"
  shows "\<exists>s'. kbind (bread 1 sec) (\<lambda>b. kbind (bget_data b) (\<lambda>d. kthen (brelse b) (kret (f d)))) s = Inr (f (home s sec), s') \<and>
    tx s' \<and> evolves s s' \<and> home s' = home s \<and> logged s' = logged s \<and> held s' = held s \<and> (\<forall>i \<in> held s. bufs s' i = bufs s i)"
proof -
  from tx_bread [OF assms] obtain b s1 where 1: "bread 1 sec s = Inr (b, s1)" "tx s1" "evolves s s1" "home s1 = home s"
    "logged s1 = logged s" "b \<notin> held s" "held s1 = insert b (held s)" "bdata (bufs s1 b) = home s sec" "\<forall>i \<in> held s. bufs s1 i = bufs s i" by blast
  from tx_brelse [OF 1(2), of b] 1(7) obtain s2 where 2: "brelse b s1 = Inr ((), s2)" "tx s2" "evolves s1 s2" "home s2 = home s1"
    "logged s2 = logged s1" "held s2 = held s1 - {b}" "\<forall>i \<in> held s1 - {b}. bufs s2 i = bufs s1 i" by blast
  have "held s2 = held s" using 1(6,7) 2(6) by auto
  moreover have "\<forall>i \<in> held s. bufs s2 i = bufs s i" using 1(6,7,9) 2(7) by auto
  moreover have "kbind (bread 1 sec) (\<lambda>b. kbind (bget_data b) (\<lambda>d. kthen (brelse b) (kret (f d)))) s = Inr (f (home s sec), s2)"
    using 1(1,8) 2(1) by (simp add: kbind_def bget_data_def kget_def kret_def)
  ultimately show ?thesis using 2(2,4,5) evolves_trans [OF 1(3) 2(3)] 1(4,5) by (intro exI [of _ s2]) simp
qed

lemma tx_change:
  assumes "tx s" "b \<in> held s" "nlog s + 1 < unat (lsize s)" "nlog s + card (held s) < NBUF"
  shows "\<exists>s'. kthen (bset_data b d) (kthen (log_write b) (brelse b)) s = Inr ((), s') \<and>
    tx s' \<and> evolves s s' \<and> home s' = (home s)(bsector (bufs s b) := d) \<and>
    set (logged s') = insert (bsector (bufs s b)) (set (logged s)) \<and>
    held s' = held s - {b} \<and> (\<forall>i \<in> held s - {b}. bsector (bufs s' i) = bsector (bufs s i))"
proof -
  from tx_log_write [OF assms] obtain s1 where 1: "kthen (bset_data b d) (log_write b) s = Inr ((), s1)" "tx s1" "evolves s s1"
    "home s1 = (home s)(bsector (bufs s b) := d)" "set (logged s1) = insert (bsector (bufs s b)) (set (logged s))"
    "held s1 = held s" "\<forall>i \<in> held s. bsector (bufs s1 i) = bsector (bufs s i)" by blast
  from tx_brelse [OF 1(2), of b] 1(6) assms(2) obtain s2 where 2: "brelse b s1 = Inr ((), s2)" "tx s2" "evolves s1 s2"
    "home s2 = home s1" "logged s2 = logged s1" "held s2 = held s - {b}" "\<forall>i \<in> held s - {b}. bufs s2 i = bufs s1 i" by auto
  have "kthen (bset_data b d) (kthen (log_write b) (brelse b)) s = Inr ((), s2)"
    unfolding kbind_assoc [symmetric] kbind_Inr [of "kthen (bset_data b d) (log_write b)", OF 1(1)] by (rule 2(1))
  moreover have "\<forall>i \<in> held s - {b}. bsector (bufs s2 i) = bsector (bufs s i)" using 1(7) 2(7) by auto
  ultimately show ?thesis using 2 evolves_trans [OF 1(3) 2(3)] 1(4,5) by (intro exI [of _ s2]) simp
qed

lemma tx_update:
  assumes "tx s" "sec < lstart s" "\<forall>b \<in> held s. bsector (bufs s b) \<noteq> sec"
    "nlog s + 1 < unat (lsize s)" "nlog s + card (held s) + 1 < NBUF"
  shows "\<exists>s'. kbind (bread 1 sec) (\<lambda>b. kbind (bget_data b) (\<lambda>d. kthen (bset_data b (f d)) (kthen (log_write b) (brelse b)))) s =
      Inr ((), s') \<and> tx s' \<and> evolves s s' \<and> home s' = (home s)(sec := f (home s sec)) \<and>
    set (logged s') = insert sec (set (logged s)) \<and> held s' = held s \<and> (\<forall>i \<in> held s. bsector (bufs s' i) = bsector (bufs s i))"
proof -
  have "nlog s + card (held s) < NBUF" using assms(5) by simp
  from tx_bread [OF assms(1-3) this] obtain b s1 where 1: "bread 1 sec s = Inr (b, s1)" "tx s1" "evolves s s1" "home s1 = home s"
    "logged s1 = logged s" "b \<notin> held s" "held s1 = insert b (held s)" "bsector (bufs s1 b) = sec" "bdata (bufs s1 b) = home s sec"
    "\<forall>i \<in> held s. bufs s1 i = bufs s i" by blast
  have "nlog s1 = nlog s" by (rule tx_nlog [OF 1(5)])
  then have room: "nlog s1 + 1 < unat (lsize s1)" "nlog s1 + card (held s1) < NBUF"
    using assms(4,5) 1(3,6,7) by (simp_all add: evolves_def)
  have "b \<in> held s1" using 1(7) by simp
  from tx_change [OF 1(2) this room, of "f (home s sec)"] 1(4,5,6,7,8) obtain s2 where
    2: "kthen (bset_data b (f (home s sec))) (kthen (log_write b) (brelse b)) s1 = Inr ((), s2)" "tx s2" "evolves s1 s2"
    "home s2 = (home s)(sec := f (home s sec))" "set (logged s2) = insert sec (set (logged s))" "held s2 = held s"
    "\<forall>i \<in> held s. bsector (bufs s2 i) = bsector (bufs s1 i)" by auto
  have "kbind (bread 1 sec) (\<lambda>b. kbind (bget_data b) (\<lambda>d. kthen (bset_data b (f d)) (kthen (log_write b) (brelse b)))) s = Inr ((), s2)"
    using 1(1,9) 2(1) by (simp add: kbind_def bget_data_def kget_def)
  moreover have "\<forall>i \<in> held s. bsector (bufs s2 i) = bsector (bufs s i)" using 1(10) 2(7) by simp
  ultimately show ?thesis using 2 evolves_trans [OF 1(3) 2(3)] by blast
qed

end
