(* ===== verification/Str.thy ===== *)
theory Str
  imports Xv6_Prelude
begin

text \<open>
  The kernel's string and memory routines, \<open>src/string.c\<close>. Memory is flat and byte addressed;
  32-bit accesses are big endian, as on mist32 (\<open>elf.h\<close>, \<open>xint\<close> of \<open>mkfs.c\<close>). A pointer that is
  only read is the sequence of bytes at and after it (\<open>nat \<Rightarrow> u8\<close>; in memory, \<open>at m p\<close>), so that
  the comparison routines apply to memory and to arrays alike. Countdown loops over an unsigned or
  signed counter recurse on the number of iterations.
\<close>

section \<open>32-bit accesses\<close>

definition load32 :: "mem \<Rightarrow> u32 \<Rightarrow> u32" where
  "load32 m a = push_bit 24 (ucast (m a)) OR push_bit 16 (ucast (m (a + 1)))
     OR push_bit 8 (ucast (m (a + 2))) OR ucast (m (a + 3))"

definition store32 :: "mem \<Rightarrow> u32 \<Rightarrow> u32 \<Rightarrow> mem" where
  "store32 m a v = m(a := ucast (drop_bit 24 v), a + 1 := ucast (drop_bit 16 v),
     a + 2 := ucast (drop_bit 8 v), a + 3 := ucast v)"

abbreviation at :: "mem \<Rightarrow> u32 \<Rightarrow> nat \<Rightarrow> u8" where
  "at m p \<equiv> \<lambda>i. m (p + word_of_nat i)"

section \<open>The routines\<close>

text \<open>
  \<open>memset\<close> stores whole words when address and length are word aligned. A signed remainder by 4 is
  zero exactly when the unsigned one is.
\<close>

definition memset :: "mem \<Rightarrow> u32 \<Rightarrow> u32 \<Rightarrow> u32 \<Rightarrow> mem" where
  "memset m dst c n =
    (if dst mod 4 = 0 \<and> n mod 4 = 0
     then let c = c AND 0xFF in
       fold (\<lambda>i m. store32 m (dst + 4 * word_of_nat i)
               (push_bit 24 c OR push_bit 16 c OR push_bit 8 c OR c)) [0..<unat (n div 4)] m
     else fold (\<lambda>i m. m(dst + word_of_nat i := ucast c)) [0..<unat n] m)"

fun memcmp :: "(nat \<Rightarrow> u8) \<Rightarrow> (nat \<Rightarrow> u8) \<Rightarrow> nat \<Rightarrow> int" where
  "memcmp s1 s2 0 = 0"
| "memcmp s1 s2 (Suc n) =
    (if s1 0 \<noteq> s2 0 then uint (s1 0) - uint (s2 0)
     else memcmp (\<lambda>i. s1 (Suc i)) (\<lambda>i. s2 (Suc i)) n)"

text \<open>The three copying loops of \<open>memmove\<close>: downwards, upwards by bytes, upwards by words.\<close>

fun memmove_down :: "mem \<Rightarrow> u32 \<Rightarrow> u32 \<Rightarrow> nat \<Rightarrow> mem" where
  "memmove_down m d s 0 = m"
| "memmove_down m d s (Suc n) = memmove_down (m(d - 1 := m (s - 1))) (d - 1) (s - 1) n"

fun memmove_up :: "mem \<Rightarrow> u32 \<Rightarrow> u32 \<Rightarrow> nat \<Rightarrow> mem" where
  "memmove_up m d s 0 = m"
| "memmove_up m d s (Suc n) = memmove_up (m(d := m s)) (d + 1) (s + 1) n"

text \<open>The word loop takes 4 from \<open>n\<close> per turn; its guard makes \<open>n\<close> a multiple of 4.\<close>

fun memmove_words :: "mem \<Rightarrow> u32 \<Rightarrow> u32 \<Rightarrow> nat \<Rightarrow> mem" where
  "memmove_words m dd ss 0 = m"
| "memmove_words m dd ss (Suc k) = memmove_words (store32 m dd (load32 m ss)) (dd + 4) (ss + 4) k"

definition memmove :: "mem \<Rightarrow> u32 \<Rightarrow> u32 \<Rightarrow> u32 \<Rightarrow> mem" where
  "memmove m dst src n =
    (if src < dst \<and> src + n > dst then memmove_down m (dst + n) (src + n) (unat n)
     else if src AND 3 \<noteq> 0 \<or> dst AND 3 \<noteq> 0 \<or> n AND 3 \<noteq> 0 then memmove_up m dst src (unat n)
     else memmove_words m dst src (unat n div 4))"

definition memcpy :: "mem \<Rightarrow> u32 \<Rightarrow> u32 \<Rightarrow> u32 \<Rightarrow> mem" where
  "memcpy m dst src n = memmove m dst src n"

fun strncmp :: "(nat \<Rightarrow> u8) \<Rightarrow> (nat \<Rightarrow> u8) \<Rightarrow> nat \<Rightarrow> int" where
  "strncmp p q 0 = 0"
| "strncmp p q (Suc n) =
    (if p 0 \<noteq> 0 \<and> p 0 = q 0 then strncmp (\<lambda>i. p (Suc i)) (\<lambda>i. q (Suc i)) n
     else uint (p 0) - uint (q 0))"

text \<open>
  The first loop of \<open>strncpy\<close> copies up to and including the NUL; the second one pads with NULs.
  Both count the same \<open>n\<close> down.
\<close>

fun strncpy_pad :: "mem \<Rightarrow> u32 \<Rightarrow> nat \<Rightarrow> mem" where
  "strncpy_pad m s 0 = m"
| "strncpy_pad m s (Suc n) = strncpy_pad (m(s := 0)) (s + 1) n"

fun strncpy_copy :: "mem \<Rightarrow> u32 \<Rightarrow> u32 \<Rightarrow> nat \<Rightarrow> mem" where
  "strncpy_copy m s t 0 = m"
| "strncpy_copy m s t (Suc n) =
    (if m t \<noteq> 0 then strncpy_copy (m(s := m t)) (s + 1) (t + 1) n
     else strncpy_pad (m(s := m t)) (s + 1) n)"

definition strncpy :: "mem \<Rightarrow> u32 \<Rightarrow> u32 \<Rightarrow> int \<Rightarrow> mem" where
  "strncpy m s t n = strncpy_copy m s t (nat n)"

fun safestrcpy_copy :: "mem \<Rightarrow> u32 \<Rightarrow> u32 \<Rightarrow> nat \<Rightarrow> mem" where
  "safestrcpy_copy m s t 0 = m(s := 0)"
| "safestrcpy_copy m s t (Suc k) =
    (if m t \<noteq> 0 then safestrcpy_copy (m(s := m t)) (s + 1) (t + 1) k
     else m(s := m t, s + 1 := 0))"

definition safestrcpy :: "mem \<Rightarrow> u32 \<Rightarrow> u32 \<Rightarrow> int \<Rightarrow> mem" where
  "safestrcpy m s t n = (if n \<le> 0 then m else safestrcpy_copy m s t (nat n - 1))"

text \<open>\<open>strlen\<close> does not return when there is no NUL.\<close>

partial_function (option) strlen_from :: "(nat \<Rightarrow> u8) \<Rightarrow> nat \<Rightarrow> nat option" where
  "strlen_from s n = (if s n \<noteq> 0 then strlen_from s (Suc n) else Some n)"

definition strlen :: "(nat \<Rightarrow> u8) \<Rightarrow> nat option" where
  "strlen s = strlen_from s 0"

section \<open>Words in memory\<close>

lemma word_neighbours [simp]:
  "(a :: u32) + 1 \<noteq> a" "a + 2 \<noteq> a" "a + 3 \<noteq> a" "a \<noteq> a + 1" "a \<noteq> a + 2" "a \<noteq> a + 3"
  "a + 2 \<noteq> a + 1" "a + 1 \<noteq> a + 2" "a + 3 \<noteq> a + 1" "a + 1 \<noteq> a + 3" "a + 3 \<noteq> a + 2" "a + 2 \<noteq> a + 3"
  by simp_all

lemma load32_store32 [simp]: "load32 (store32 m a v) a = v"
proof (rule bit_word_eqI)
  fix n
  assume "n < LENGTH(32)"
  then show "bit (load32 (store32 m a v) a) n = bit v n"
    by (cases "n < 8"; cases "n < 16"; cases "n < 24") (auto simp: load32_def store32_def bit_simps)
qed

lemma load32_bytes:
  "ucast (drop_bit 24 (load32 m a)) = m a"
  "ucast (drop_bit 16 (load32 m a)) = m (a + 1)"
  "ucast (drop_bit 8 (load32 m a)) = m (a + 2)"
  "ucast (load32 m a) = m (a + 3)"
  by (rule bit_word_eqI; auto simp: load32_def bit_simps; simp add: bit_word_def)+

section \<open>Copying\<close>

text \<open>
  What a block copy must achieve, whatever the overlap of source and destination.
\<close>

definition copied :: "mem \<Rightarrow> u32 \<Rightarrow> u32 \<Rightarrow> nat \<Rightarrow> mem" where
  "copied m d s n = (\<lambda>a. if unat (a - d) < n then m (s + (a - d)) else m a)"

lemma memmove_up_copied:
  assumes "\<And>i j. i < j \<Longrightarrow> j < n \<Longrightarrow> d + word_of_nat i \<noteq> s + word_of_nat j" and "n \<le> 2 ^ 32"
  shows "memmove_up m d s n = copied m d s n"
  using assms
proof (induction n arbitrary: m d s)
  case 0
  then show ?case by (simp add: copied_def)
next
  case (Suc n)
  have apart: "d + 1 + word_of_nat i \<noteq> s + 1 + word_of_nat j" if "i < j" "j < n" for i j
    using Suc.prems(1) [of "Suc i" "Suc j"] that by (simp add: ac_simps)
  have IH: "memmove_up (m(d := m s)) (d + 1) (s + 1) n = copied (m(d := m s)) (d + 1) (s + 1) n"
    using Suc.IH [OF apart] Suc.prems(2) by simp
  show ?case
  proof (rule ext)
    fix a
    show "memmove_up m d s (Suc n) a = copied m d s (Suc n) a"
    proof (cases "a = d")
      case True
      then have "unat (a - (d + 1)) = 2 ^ 32 - 1" by (simp add: unat_max_u32 [simplified])
      with True Suc.prems(2) IH show ?thesis by (simp add: copied_def)
    next
      case False
      then have nz: "a - d \<noteq> 0" by simp
      have step: "a - (d + 1) = a - d - 1" by (simp add: algebra_simps)
      have "d + word_of_nat 0 \<noteq> s + word_of_nat (unat (a - d))" if "unat (a - d) < Suc n"
        using that nz by (intro Suc.prems(1)) (simp_all add: unat_gt_0)
      then have keep: "unat (a - d) < Suc n \<Longrightarrow> (m(d := m s)) (s + (a - d)) = m (s + (a - d))"
        by simp
      have shift: "s + 1 + (a - d - 1) = s + (a - d)" by simp
      have less: "unat (a - d) - 1 < n \<longleftrightarrow> unat (a - d) < Suc n"
        using nz unat_gt_0 [of "a - d"] by linarith
      have "memmove_up m d s (Suc n) a = copied (m(d := m s)) (d + 1) (s + 1) n a"
        by (simp only: memmove_up.simps IH)
      also have "\<dots> = (if unat (a - d) < Suc n then (m(d := m s)) (s + (a - d)) else (m(d := m s)) a)"
        by (simp only: copied_def step unat_minus_one [OF nz] less shift)
      also have "\<dots> = copied m d s (Suc n) a"
        using keep False by (simp only: copied_def fun_upd_other split: if_split) simp
      finally show ?thesis .
    qed
  qed
qed

lemma memmove_down_copied:
  assumes "\<And>i j. j < i \<Longrightarrow> i < n \<Longrightarrow> d + word_of_nat i \<noteq> s + word_of_nat j" and "n \<le> 2 ^ 32"
  shows "memmove_down m (d + word_of_nat n) (s + word_of_nat n) n = copied m d s n"
  using assms
proof (induction n arbitrary: m)
  case 0
  then show ?case by (simp add: copied_def)
next
  case (Suc n)
  let ?m = "m(d + word_of_nat n := m (s + word_of_nat n))"
  have IH: "memmove_down ?m (d + word_of_nat n) (s + word_of_nat n) n = copied ?m d s n"
    using Suc by simp
  have "copied ?m d s n = copied m d s (Suc n)"
  proof (rule ext)
    fix a
    have "s + (a - d) \<noteq> d + word_of_nat n" if "unat (a - d) < n"
      using Suc.prems(1) [of "unat (a - d)" n] that by (simp add: eq_commute)
    moreover have "a = d + word_of_nat n \<longleftrightarrow> unat (a - d) = n"
      using Suc.prems(2) by (intro addr_eq_offset) simp
    ultimately show "copied ?m d s n a = copied m d s (Suc n) a"
      by (auto simp: copied_def)
  qed
  with IH show ?case by (simp add: algebra_simps)
qed

text \<open>One word store of a word load is four byte copies, when no byte is overwritten before use.\<close>

lemma word_copy_near:
  assumes apart: "\<And>i j. i < j \<Longrightarrow> j < 4 * Suc k \<Longrightarrow> d + word_of_nat i \<noteq> s + word_of_nat j"
  shows "s + 1 \<noteq> d" "s + 2 \<noteq> d" "s + 3 \<noteq> d" "s + 2 \<noteq> d + 1" "s + 3 \<noteq> d + 1" "s + 3 \<noteq> (d :: u32) + 2"
  subgoal using apart [of 0 1] by simp
  subgoal using apart [of 0 2] by simp
  subgoal using apart [of 0 3] by simp
  subgoal using apart [of 1 2] by simp
  subgoal using apart [of 1 3] by simp
  subgoal using apart [of 2 3] by simp
  done

lemma word_copy:
  "store32 m d (load32 m s) = m(d := m s, d + 1 := m (s + 1), d + 2 := m (s + 2), d + 3 := m (s + 3))"
  by (simp add: store32_def load32_bytes)

lemma memmove_up_four:
  assumes near: "s + 1 \<noteq> d" "s + 2 \<noteq> d" "s + 3 \<noteq> d" "s + 2 \<noteq> d + 1" "s + 3 \<noteq> d + 1" "s + 3 \<noteq> d + 2"
  shows "memmove_up m d s (4 + n) = memmove_up (store32 m d (load32 m s)) (d + 4) (s + 4) n"
proof -
  have two: "x + 1 + 1 = x + 2" "x + 2 + 1 = x + 3" "x + 3 + 1 = x + 4" for x :: u32
    by simp_all
  have "4 + n = Suc (Suc (Suc (Suc n)))" by simp
  then have "memmove_up m d s (4 + n) = memmove_up m d s (Suc (Suc (Suc (Suc n))))"
    by (simp only:)
  also have "\<dots> = memmove_up (store32 m d (load32 m s)) (d + 4) (s + 4) n"
    by (simp only: memmove_up.simps fun_upd_apply near two if_False word_copy)
  finally show ?thesis .
qed

lemma memmove_words_up:
  assumes "\<And>i j. i < j \<Longrightarrow> j < 4 * k \<Longrightarrow> d + word_of_nat i \<noteq> s + word_of_nat j"
  shows "memmove_words m d s k = memmove_up m d s (4 * k)"
  using assms
proof (induction k arbitrary: m d s)
  case 0
  then show ?case by simp
next
  case (Suc k)
  have "memmove_words m d s (Suc k) = memmove_words (store32 m d (load32 m s)) (d + 4) (s + 4) k"
    by simp
  also have "\<dots> = memmove_up (store32 m d (load32 m s)) (d + 4) (s + 4) (4 * k)"
  proof (rule Suc.IH)
    fix i j
    assume "i < j" "j < 4 * k"
    then show "d + 4 + word_of_nat i \<noteq> s + 4 + word_of_nat j"
      using Suc.prems [of "4 + i" "4 + j"] by (simp add: ac_simps)
  qed
  also have "\<dots> = memmove_up m d s (4 * Suc k)"
    using memmove_up_four [OF word_copy_near [of k d s, OF Suc.prems]] by (simp only: mult_Suc_right)
  finally show ?case .
qed

text \<open>The test at the head of \<open>memmove\<close> picks a direction in which nothing is overwritten early.\<close>

lemma memmove_up_apart:
  assumes "\<not> (s < d \<and> s + n > d)"
    and "unat s + unat n < 2 ^ 32" and "unat d + unat n < 2 ^ 32"
    and "i < j" and "j < unat n"
  shows "(d :: u32) + word_of_nat i \<noteq> s + word_of_nat j"
proof
  assume eq: "d + word_of_nat i = s + word_of_nat j"
  have "unat (d + word_of_nat i) = unat d + i" "unat (s + word_of_nat j) = unat s + j"
    using assms by (simp_all add: unat_word_ariths unat_of_nat)
  with eq have "unat d + i = unat s + j" by simp
  moreover have "unat (s + n) = unat s + unat n"
    using assms(2) by (simp add: unat_word_ariths)
  ultimately show False using assms by (simp add: word_less_nat_alt)
qed

lemma memmove_down_apart:
  assumes "s < d" and "unat s + unat n < 2 ^ 32" and "unat d + unat n < 2 ^ 32"
    and "j < i" and "i < unat n"
  shows "(d :: u32) + word_of_nat i \<noteq> s + word_of_nat j"
proof
  assume eq: "d + word_of_nat i = s + word_of_nat j"
  have "unat (d + word_of_nat i) = unat d + i" "unat (s + word_of_nat j) = unat s + j"
    using assms by (simp_all add: unat_word_ariths unat_of_nat)
  with eq have "unat d + i = unat s + j" by simp
  then show False using assms by (simp add: word_less_nat_alt)
qed

lemma unat_mult_of_4: "(n :: u32) AND 3 = 0 \<Longrightarrow> 4 * (unat n div 4) = unat n"
proof -
  assume "n AND 3 = 0"
  moreover have "(3 :: u32) = mask 2" by (simp add: mask_eq_exp_minus_1)
  ultimately have "take_bit 2 n = 0" by (simp add: take_bit_eq_mask)
  then have "unat (n mod 4) = 0" by (simp add: take_bit_eq_mod)
  then have "unat n mod 4 = 0" by (simp add: unat_mod)
  then show ?thesis by presburger
qed

lemma memmove_copied:
  assumes "unat src + unat n < 2 ^ 32" and "unat dst + unat n < 2 ^ 32"
  shows "memmove m dst src n = copied m dst src (unat n)"
proof -
  have le: "unat n \<le> 2 ^ 32" using assms by simp
  consider (down) "src < dst \<and> src + n > dst"
    | (up) "\<not> (src < dst \<and> src + n > dst)" "src AND 3 \<noteq> 0 \<or> dst AND 3 \<noteq> 0 \<or> n AND 3 \<noteq> 0"
    | (words) "\<not> (src < dst \<and> src + n > dst)" "n AND 3 = 0"
        "\<not> (src AND 3 \<noteq> 0 \<or> dst AND 3 \<noteq> 0 \<or> n AND 3 \<noteq> 0)"
    by blast
  then show ?thesis
  proof cases
    case down
    then show ?thesis
      using memmove_down_copied [OF memmove_down_apart [OF _ assms] le, of m]
      by (simp add: memmove_def)
  next
    case up
    show ?thesis
      using memmove_up_copied [OF memmove_up_apart [OF up(1) assms] le, of m] up
      by (simp only: memmove_def if_False if_True)
  next
    case words
    have "memmove m dst src n = memmove_words m dst src (unat n div 4)"
      using words by (simp only: memmove_def if_False)
    also have "\<dots> = memmove_up m dst src (unat n)"
      using memmove_words_up [of "unat n div 4" dst src m] memmove_up_apart [OF words(1) assms]
        unat_mult_of_4 [OF words(2)] by simp
    also have "\<dots> = copied m dst src (unat n)"
      using memmove_up_copied [OF memmove_up_apart [OF words(1) assms] le] by blast
    finally show ?thesis .
  qed
qed

section \<open>Filling\<close>

lemma fill_bytes:
  "k \<le> 2 ^ 32 \<Longrightarrow>
    fold (\<lambda>i m. m(d + word_of_nat i := c)) [0..<k] m = (\<lambda>a. if unat (a - d) < k then c else (m :: mem) a)"
proof (induction k)
  case 0
  then show ?case by simp
next
  case (Suc k)
  then have "a = d + word_of_nat k \<longleftrightarrow> unat (a - d) = k" for a
    by (intro addr_eq_offset) simp
  with Suc show ?case by (auto simp: fun_eq_iff)
qed

lemma store32_fill:
  assumes "ucast (drop_bit 24 w) = c" "ucast (drop_bit 16 w) = c" "ucast (drop_bit 8 w) = c" "ucast w = c"
    and "4 * k + 3 < 2 ^ 32"
  shows "store32 m (d + 4 * word_of_nat k) w a =
    (if 4 * k \<le> unat (a - d) \<and> unat (a - d) < 4 * k + 4 then c else m a)"
proof -
  have "a = d + 4 * word_of_nat k + word_of_nat j \<longleftrightarrow> unat (a - d) = 4 * k + j" if "j < 4" for j
  proof -
    have "d + 4 * word_of_nat k + word_of_nat j = d + word_of_nat (4 * k + j)" by simp
    moreover have "4 * k + j < 2 ^ LENGTH(32)" using that assms(5) by simp
    ultimately show ?thesis using addr_eq_offset by (simp only:)
  qed
  from this [of 0] this [of 1] this [of 2] this [of 3]
  have eqs: "a = d + 4 * word_of_nat k \<longleftrightarrow> unat (a - d) = 4 * k"
    "a = d + 4 * word_of_nat k + 1 \<longleftrightarrow> unat (a - d) = 4 * k + 1"
    "a = d + 4 * word_of_nat k + 2 \<longleftrightarrow> unat (a - d) = 4 * k + 2"
    "a = d + 4 * word_of_nat k + 3 \<longleftrightarrow> unat (a - d) = 4 * k + 3"
    by simp_all
  have "4 * k \<le> x \<and> x < 4 * k + 4 \<longleftrightarrow> x = 4 * k \<or> x = 4 * k + 1 \<or> x = 4 * k + 2 \<or> x = 4 * k + 3" for x
    by arith
  then show ?thesis
    unfolding store32_def fun_upd_apply assms(1-4) eqs by presburger
qed

lemma fill_words:
  assumes "ucast (drop_bit 24 w) = c" "ucast (drop_bit 16 w) = c" "ucast (drop_bit 8 w) = c" "ucast w = c"
    and "4 * k \<le> 2 ^ 32"
  shows "fold (\<lambda>i m. store32 m (d + 4 * word_of_nat i) w) [0..<k] m =
    (\<lambda>a. if unat (a - d) < 4 * k then c else m a)"
  using assms(5)
proof (induction k)
  case 0
  then show ?case by simp
next
  case (Suc k)
  then show ?case
    by (auto simp: fun_eq_iff store32_fill [OF assms(1-4)])
qed

lemma byte_quadruple:
  fixes c :: u32
  defines "w \<equiv> push_bit 24 (c AND 0xFF) OR push_bit 16 (c AND 0xFF) OR push_bit 8 (c AND 0xFF) OR (c AND 0xFF)"
  shows "ucast (drop_bit 24 w) = (ucast c :: u8)" "ucast (drop_bit 16 w) = (ucast c :: u8)"
    "ucast (drop_bit 8 w) = (ucast c :: u8)" "ucast w = (ucast c :: u8)"
proof -
  have "(0xFF :: u32) = mask 8" by (simp add: mask_eq_exp_minus_1)
  then have low: "c AND 0xFF = take_bit 8 c" by (simp add: take_bit_eq_mask)
  show "ucast (drop_bit 24 w) = (ucast c :: u8)" "ucast (drop_bit 16 w) = (ucast c :: u8)"
    "ucast (drop_bit 8 w) = (ucast c :: u8)" "ucast w = (ucast c :: u8)"
    by (rule bit_word_eqI; simp add: w_def low bit_simps; fail)+
qed

lemma memset_fill: "memset m dst c n = (\<lambda>a. if a - dst < n then ucast c else m a)"
proof (cases "dst mod 4 = 0 \<and> n mod 4 = 0")
  case True
  then have "unat n mod 4 = 0" using unat_mod [of n 4] by simp
  then have four: "4 * unat (n div 4) = unat n"
    using unat_div [of n 4] by auto
  have "4 * unat (n div 4) \<le> 2 ^ 32"
    unfolding four using unat_u32_bound [of n] by simp
  then have "memset m dst c n = (\<lambda>a. if unat (a - dst) < unat n then ucast c else m a)"
    using True unfolding memset_def Let_def
    by (simp only: fill_words [OF byte_quadruple] four if_True simp_thms)
  then show ?thesis by (simp add: word_less_nat_alt)
next
  case False
  have "unat n \<le> 2 ^ 32" using unat_u32_bound [of n] by simp
  then have "memset m dst c n = (\<lambda>a. if unat (a - dst) < unat n then ucast c else m a)"
    using False unfolding memset_def by (simp only: fill_bytes if_False)
  then show ?thesis by (simp add: word_less_nat_alt)
qed

text \<open>
  C19. \<open>memset\<close> writes the low byte of \<open>c\<close> to exactly the \<open>n\<close> bytes from \<open>dst\<close> and nothing else,
  whether it runs by bytes or by words, and also across the end of the address space.
\<close>

theorem memset_fills: "memset m dst c n = (\<lambda>a. if a - dst < n then ucast c else m a)"
  by (rule memset_fill)

text \<open>
  C16. \<open>memmove\<close> copies: after it, the \<open>n\<close> bytes at \<open>dst\<close> are the \<open>n\<close> bytes that were at \<open>src\<close>
  before, and every other byte is unchanged. This holds for every overlap of the two areas and in
  each of the three loops, as long as neither area runs over the end of the address space.
\<close>

theorem memmove_correct:
  assumes "unat src + unat n < 2 ^ 32" and "unat dst + unat n < 2 ^ 32"
  shows "memmove m dst src n = (\<lambda>a. if a - dst < n then m (src + (a - dst)) else m a)"
  using memmove_copied [OF assms] by (simp add: copied_def word_less_nat_alt)

theorem memmove_correct_witness:
  "memmove (\<lambda>a. ucast a) 0x1001 0x1000 8 0x1008 = 7 \<and> memmove (\<lambda>a. ucast a) 0x1001 0x1000 8 0x1009 = 9"
  using memmove_correct [where src = "0x1000" and n = 8 and dst = "0x1001" and m = "\<lambda>a. ucast a"] by simp

section \<open>Strings\<close>

text \<open>The C string at \<open>p\<close>, cut after \<open>n\<close> bytes.\<close>

definition cstrn :: "(nat \<Rightarrow> u8) \<Rightarrow> nat \<Rightarrow> u8 list" where
  "cstrn p n = takeWhile (\<lambda>b. b \<noteq> 0) (map p [0..<n])"

lemma cstrn_0 [simp]: "cstrn p 0 = []"
  by (simp add: cstrn_def)

lemma cstrn_Suc [simp]:
  "cstrn p (Suc n) = (if p 0 = 0 then [] else p 0 # cstrn (\<lambda>i. p (Suc i)) n)"
  unfolding cstrn_def by (simp add: map_upt_Suc del: upt_Suc)

lemma cstrn_numeral [simp]: "cstrn p (numeral k) = cstrn p (Suc (pred_numeral k))"
  by (simp only: numeral_eq_Suc)

lemma cstrn_cong: "(\<And>i. i < n \<Longrightarrow> p i = q i) \<Longrightarrow> cstrn p n = cstrn q n"
  unfolding cstrn_def by (metis (mono_tags, lifting) atLeastLessThan_iff map_eq_conv set_upt)

lemma length_cstrn: "length (cstrn p n) \<le> n"
  unfolding cstrn_def by (metis diff_zero length_map length_takeWhile_le length_upt)

lemma cstrn_no_nul: "b \<in> set (cstrn p n) \<Longrightarrow> b \<noteq> 0"
  unfolding cstrn_def by (blast dest: set_takeWhileD)

lemma uint_compare:
  "uint a = uint b \<longleftrightarrow> a = b" "uint a < uint b \<longleftrightarrow> a < b" "0 < uint a \<longleftrightarrow> a \<noteq> 0" "uint a = 0 \<longleftrightarrow> a = 0"
  for a b :: u8
  by (simp_all add: word_uint_eq_iff word_less_def order_less_le)

text \<open>
  C20. \<open>strncmp\<close> orders C strings cut after \<open>n\<close> bytes lexicographically by unsigned bytes: its result
  is 0 exactly for equal strings and negative exactly when the first comes before the second.
\<close>

theorem strncmp_lexicographic:
  "(strncmp p q n = 0) = (cstrn p n = cstrn q n) \<and>
   (strncmp p q n < 0) = ord_class.lexordp (cstrn p n) (cstrn q n)"
proof (induction n arbitrary: p q)
  case 0
  then show ?case by simp
next
  case (Suc n)
  then show ?case
    by (auto simp: uint_compare)
qed

lemma memcmp_zero: "memcmp p q n = 0 \<longleftrightarrow> (\<forall>i < n. p i = q i)"
proof (induction n arbitrary: p q)
  case 0
  then show ?case by simp
next
  case (Suc n)
  then show ?case by (auto simp: less_Suc_eq_0_disj uint_compare)
qed

text \<open>A run of bytes written from an address on.\<close>

definition written :: "mem \<Rightarrow> u32 \<Rightarrow> u8 list \<Rightarrow> mem" where
  "written m s xs = (\<lambda>a. if unat (a - s) < length xs then xs ! unat (a - s) else m a)"

lemma written_Nil [simp]: "written m s [] = m"
  by (simp add: written_def)

lemma written_Cons:
  assumes "length xs < 2 ^ 32"
  shows "written (m(s := x)) (s + 1) xs = written m s (x # xs)"
proof (rule ext)
  fix a
  show "written (m(s := x)) (s + 1) xs a = written m s (x # xs) a"
  proof (cases "a = s")
    case True
    then have "unat (a - (s + 1)) = 2 ^ 32 - 1" by (simp add: unat_max_u32 [simplified])
    with True assms show ?thesis by (simp add: written_def)
  next
    case False
    then have nz: "a - s \<noteq> 0" by simp
    have step: "a - (s + 1) = a - s - 1" by simp
    have k: "unat (a - s) = Suc (unat (a - s - 1))"
      using nz unat_gt_0 [of "a - s"] by (simp add: unat_minus_one [OF nz])
    have "(m(s := x)) a = m a" using False by (rule fun_upd_other)
    then show ?thesis
      by (simp only: written_def step k length_Cons nth_Cons_Suc Suc_less_eq)
  qed
qed

lemma written_one: "m(s := x) = written m s [x]"
  using written_Cons [of "[]" m s x] by simp

lemma written_outside: "\<not> unat (a - s) < length xs \<Longrightarrow> written m s xs a = m a"
  by (simp add: written_def)

lemma written_inside: "i < length xs \<Longrightarrow> length xs \<le> 2 ^ 32 \<Longrightarrow> written m s xs (s + word_of_nat i) = xs ! i"
  by (simp add: written_def unat_of_nat)

lemma strncpy_pad_written: "n \<le> 2 ^ 32 \<Longrightarrow> strncpy_pad m s n = written m s (replicate n 0)"
  by (induction n arbitrary: m s) (simp_all add: written_Cons)

definition padded :: "u8 list \<Rightarrow> nat \<Rightarrow> u8 list" where
  "padded xs n = xs @ replicate (n - length xs) 0"

lemma length_padded: "length xs \<le> n \<Longrightarrow> length (padded xs n) = n"
  by (simp add: padded_def)

text \<open>Source and destination areas of a string copy that do not meet.\<close>

definition areas_apart :: "u32 \<Rightarrow> u32 \<Rightarrow> nat \<Rightarrow> bool" where
  "areas_apart s t n \<longleftrightarrow> (\<forall>i < n. \<forall>j < n. s + word_of_nat i \<noteq> t + word_of_nat j)"

lemma areas_apart_step:
  assumes "areas_apart s t (Suc n)"
  shows "areas_apart (s + 1) (t + 1) n" and "i < n \<Longrightarrow> t + 1 + word_of_nat i \<noteq> s"
proof -
  have all: "s + word_of_nat i \<noteq> t + word_of_nat j" if "i < Suc n" "j < Suc n" for i j
    using assms that by (simp add: areas_apart_def del: of_nat_Suc)
  show "areas_apart (s + 1) (t + 1) n"
    unfolding areas_apart_def
  proof (intro allI impI)
    fix i j
    assume "i < n" "j < n"
    then show "s + 1 + word_of_nat i \<noteq> t + 1 + word_of_nat j"
      using all [of "Suc i" "Suc j"] by (simp add: add.assoc add.commute add.left_commute)
  qed
  show "t + 1 + word_of_nat i \<noteq> s" if "i < n"
    using all [of 0 "Suc i"] that by (auto simp: add.assoc)
qed

lemma cstrn_step:
  assumes "areas_apart s t (Suc n)" and "k \<le> n"
  shows "cstrn (at (m(s := x)) (t + 1)) k = cstrn (\<lambda>i. at m t (Suc i)) k"
proof (rule cstrn_cong)
  fix i
  assume "i < k"
  then have "t + 1 + word_of_nat i \<noteq> s"
    using areas_apart_step(2) [OF assms(1)] assms(2) by simp
  then show "at (m(s := x)) (t + 1) i = at m t (Suc i)"
    by (simp add: add.assoc)
qed

lemma strncpy_copy_written:
  assumes "areas_apart s t n" and "n \<le> 2 ^ 32"
  shows "strncpy_copy m s t n = written m s (padded (cstrn (at m t) n) n)"
  using assms
proof (induction n arbitrary: m s t)
  case 0
  then show ?case by (simp add: padded_def)
next
  case (Suc n)
  show ?case
  proof (cases "m t = 0")
    case True
    then show ?thesis
      using Suc.prems(2) by (simp add: padded_def strncpy_pad_written written_Cons)
  next
    case False
    let ?w = "cstrn (\<lambda>i. at m t (Suc i)) n"
    have "strncpy_copy m s t (Suc n) = written (m(s := m t)) (s + 1) (padded ?w n)"
      using False Suc.IH [OF areas_apart_step(1) [OF Suc.prems(1)], of "m(s := m t)"] Suc.prems(2)
      by (simp only: strncpy_copy.simps cstrn_step [OF Suc.prems(1) order_refl] Suc_leD if_True simp_thms)
    also have "\<dots> = written m s (m t # padded ?w n)"
      using Suc.prems(2) length_padded [OF length_cstrn] by (intro written_Cons) simp
    finally show ?thesis using False by (simp add: padded_def)
  qed
qed

lemma safestrcpy_copy_written:
  assumes "areas_apart s t (Suc k)" and "Suc k < 2 ^ 32"
  shows "safestrcpy_copy m s t k =
    written m s (cstrn (at m t) k @ (if length (cstrn (at m t) k) < k then [0, 0] else [0]))"
  using assms
proof (induction k arbitrary: m s t)
  case 0
  then show ?case by (simp add: written_one)
next
  case (Suc k)
  show ?case
  proof (cases "m t = 0")
    case True
    then show ?thesis
      by (simp add: written_one [of "m(s := 0)"] written_Cons)
  next
    case False
    let ?w = "cstrn (\<lambda>i. at m t (Suc i)) k"
    have "safestrcpy_copy m s t (Suc k) =
        written (m(s := m t)) (s + 1) (?w @ (if length ?w < k then [0, 0] else [0]))"
      using False Suc.IH [OF areas_apart_step(1) [OF Suc.prems(1)], of "m(s := m t)"] Suc.prems(2)
      by (simp only: safestrcpy_copy.simps cstrn_step [OF Suc.prems(1) le_SucI [OF order_refl]]
          Suc_lessD if_True simp_thms)
    also have "\<dots> = written m s (m t # ?w @ (if length ?w < k then [0, 0] else [0]))"
      using Suc.prems(2) length_cstrn [of "\<lambda>i. at m t (Suc i)" k] by (intro written_Cons) simp
    finally show ?thesis using False by simp
  qed
qed

text \<open>
  C21. \<open>strncpy\<close> writes exactly \<open>n\<close> bytes, namely the C string at \<open>t\<close> cut after \<open>n\<close> bytes and padded
  with NULs to length \<open>n\<close>; \<open>safestrcpy\<close> writes the string cut after \<open>n - 1\<close> bytes followed by a NUL
  (two when the source ended earlier), so it always terminates its result and stays within \<open>n\<close> bytes.
\<close>

theorem string_copies:
  assumes "areas_apart s t (nat n)" and "0 < n" and "n < 2 ^ 32"
  shows "strncpy m s t n = written m s (padded (cstrn (at m t) (nat n)) (nat n)) \<and>
    safestrcpy m s t n =
      written m s (cstrn (at m t) (nat n - 1) @
        (if length (cstrn (at m t) (nat n - 1)) < nat n - 1 then [0, 0] else [0]))"
proof (rule conjI)
  have small: "nat n < 2 ^ 32" "nat n = Suc (nat n - 1)" using assms by simp_all
  show "strncpy m s t n = written m s (padded (cstrn (at m t) (nat n)) (nat n))"
    using strncpy_copy_written [OF assms(1)] small by (simp add: strncpy_def)
  have "safestrcpy m s t n = safestrcpy_copy m s t (nat n - 1)"
    using assms by (simp add: safestrcpy_def)
  then show "safestrcpy m s t n =
      written m s (cstrn (at m t) (nat n - 1) @
        (if length (cstrn (at m t) (nat n - 1)) < nat n - 1 then [0, 0] else [0]))"
    using safestrcpy_copy_written [of s t "nat n - 1" m] assms(1) small by simp
qed

theorem string_copies_witness:
  "areas_apart 0x1000 0x2000 (nat 2) \<and>
   strncpy (\<lambda>a. if a = 0x2000 then 65 else 0) 0x1000 0x2000 2 =
     written (\<lambda>a. if a = 0x2000 then 65 else 0) 0x1000 [65, 0] \<and>
   safestrcpy (\<lambda>a. if a = 0x2000 then 65 else 0) 0x1000 0x2000 2 =
     written (\<lambda>a. if a = 0x2000 then 65 else 0) 0x1000 [65, 0]"
proof -
  have two: "nat 2 = Suc (Suc 0)" by simp
  then have apart: "areas_apart 0x1000 0x2000 (nat 2)"
    unfolding areas_apart_def two by (simp add: All_less_Suc)
  from two show ?thesis
    using string_copies [OF apart, of "\<lambda>a. if a = 0x2000 then 65 else 0"] apart
    by (simp add: padded_def)
qed

section \<open>String length\<close>

lemma strlen_from_Some:
  "s (n + k) = 0 \<Longrightarrow> (\<And>i. i < k \<Longrightarrow> s (n + i) \<noteq> 0) \<Longrightarrow> strlen_from s n = Some (n + k)"
proof (induction k arbitrary: n)
  case 0
  then show ?case by (simp add: strlen_from.simps)
next
  case (Suc k)
  have "strlen_from s n = strlen_from s (Suc n)"
    using Suc.prems(2) [of 0] by (simp add: strlen_from.simps [of s n])
  also have "\<dots> = Some (Suc n + k)"
    using Suc.prems(1) Suc.prems(2) [of "Suc _"] by (intro Suc.IH) simp_all
  finally show ?case by simp
qed

lemma strlen_from_nul:
  assumes "strlen_from s n = Some r"
  shows "s r = 0"
  by (rule strlen_from.raw_induct [where P = "\<lambda>s n r. s r = 0", OF _ assms]) (auto split: if_splits)

text \<open>
  \<open>strlen\<close> returns exactly when there is a NUL, and then it returns the distance of the first one.
\<close>

lemma strlen_first_nul: "strlen s = Some k \<longleftrightarrow> s k = 0 \<and> (\<forall>i < k. s i \<noteq> 0)"
proof
  assume k: "strlen s = Some k"
  then have nul: "s k = 0" unfolding strlen_def by (rule strlen_from_nul)
  define l where "l = (LEAST i. s i = 0)"
  have l: "s l = 0" "\<And>i. i < l \<Longrightarrow> s i \<noteq> 0"
    unfolding l_def using nul by (rule LeastI) (rule not_less_Least)
  then have "strlen s = Some l" unfolding strlen_def using strlen_from_Some [of s 0 l] by simp
  with k l show "s k = 0 \<and> (\<forall>i < k. s i \<noteq> 0)" by simp
next
  assume "s k = 0 \<and> (\<forall>i < k. s i \<noteq> 0)"
  then show "strlen s = Some k" unfolding strlen_def using strlen_from_Some [of s 0 k] by simp
qed

lemma strlen_two: "strlen (\<lambda>i. if i < 2 then 65 else 0) = Some 2"
  using strlen_first_nul [of "\<lambda>i. if i < 2 then 65 else 0" 2] by simp

end
