(* ===== verification/Fs.thy ===== *)
theory Fs
  imports Tx Str
begin

text \<open>
  The file system of \<open>src/fs.c\<close>: the block and inode allocators, the inode cache, file contents,
  directories and path names. The state extends the log's by the inode cache. An inode pointer is an
  index into the cache, a null pointer is \<open>None\<close>. Operations are translated one by one; the parts of
  the code that hold only \<open>icache.lock\<close> are single steps.
\<close>

section \<open>State\<close>

record inode =
  idev :: u32
  inum :: u32
  iref :: int
  ibusy :: bool
  ivalid :: bool
  idi :: dinode

record fst = lst +
  inodes :: "nat \<Rightarrow> inode"

definition upd_inode :: "nat \<Rightarrow> (inode \<Rightarrow> inode) \<Rightarrow> 'a fst_scheme \<Rightarrow> 'a fst_scheme" where
  "upd_inode ip f s = s \<lparr> inodes := (inodes s)(ip := f (inodes s ip)) \<rparr>"

abbreviation (input) upd_di :: "nat \<Rightarrow> (dinode \<Rightarrow> dinode) \<Rightarrow> 'a fst_scheme \<Rightarrow> 'a fst_scheme" where
  "upd_di ip f \<equiv> upd_inode ip (idi_update f)"

text \<open>\<open>struct devsw\<close>: the read and write functions of the devices, by major number. A read gives the return
  value and the bytes it stored.\<close>

record 's devsw =
  dev_read :: "int \<Rightarrow> (nat \<Rightarrow> u32 \<Rightarrow> ('s, int \<times> u8 list) km) option"
  dev_write :: "int \<Rightarrow> (nat \<Rightarrow> u8 list \<Rightarrow> u32 \<Rightarrow> ('s, int) km) option"

section \<open>Blocks\<close>

definition bzero :: "u32 \<Rightarrow> u32 \<Rightarrow> ('a lst_scheme, unit) km" where
  "bzero dev bno =
    kbind (bread dev bno) (\<lambda>bp.
    kthen (bset_data bp (replicate BSIZE 0))
   (kthen (log_write bp)
          (brelse bp)))"

definition bit_free :: "block \<Rightarrow> nat \<Rightarrow> bool" where
  "bit_free d bi \<longleftrightarrow> d ! (bi div 8) AND push_bit (bi mod 8) 1 = 0"

definition bit_mark :: "block \<Rightarrow> nat \<Rightarrow> block" where
  "bit_mark d bi = d[bi div 8 := d ! (bi div 8) OR push_bit (bi mod 8) 1]"

definition bit_clear :: "block \<Rightarrow> nat \<Rightarrow> block" where
  "bit_clear d bi = d[bi div 8 := d ! (bi div 8) AND NOT (push_bit (bi mod 8) 1)]"

fun balloc_loop :: "u32 \<Rightarrow> superblock \<Rightarrow> nat list \<Rightarrow> ('a lst_scheme, u32) km" where
  "balloc_loop dev sb [] = kpanic ''balloc: out of blocks''"
| "balloc_loop dev sb (b # bs) =
    kbind (bread dev (BBLOCK (word_of_nat b) (sb_ninodes sb))) (\<lambda>bp.
    kbind (bget_data bp) (\<lambda>d.
    case find (bit_free d) [0..<min BPB (unat (sb_size sb) - b)] of
      Some bi \<Rightarrow>
        kthen (bset_data bp (bit_mark d bi))
       (kthen (log_write bp)
       (kthen (brelse bp)
       (kthen (bzero dev (word_of_nat (b + bi)))
              (kret (word_of_nat (b + bi))))))
    | None \<Rightarrow> kthen (brelse bp) (balloc_loop dev sb bs)))"

definition balloc :: "u32 \<Rightarrow> ('a lst_scheme, u32) km" where
  "balloc dev =
    kbind (readsb dev) (\<lambda>sb.
    balloc_loop dev sb (map (\<lambda>k. BPB * k) [0..<(unat (sb_size sb) + BPB - 1) div BPB]))"

definition bfree :: "u32 \<Rightarrow> u32 \<Rightarrow> ('a lst_scheme, unit) km" where
  "bfree dev b =
    kbind (readsb dev) (\<lambda>sb.
    kbind (bread dev (BBLOCK b (sb_ninodes sb))) (\<lambda>bp.
    let bi = unat b mod BPB in
    kbind (bget_data bp) (\<lambda>d.
    if bit_free d bi then kpanic ''freeing free block''
    else
      kthen (bset_data bp (bit_clear d bi))
     (kthen (log_write bp)
            (brelse bp)))))"

section \<open>Inodes\<close>

abbreviation (input) ioff :: "u32 \<Rightarrow> nat" where
  "ioff i \<equiv> 64 * (unat i mod IPB)"

text \<open>Find the cache entry of an inode, or recycle the first free one.\<close>

definition iget :: "u32 \<Rightarrow> u32 \<Rightarrow> ('a fst_scheme, nat) km" where
  "iget dev i =
    kbind (kget inodes) (\<lambda>ino.
    case find (\<lambda>ip. iref (ino ip) > 0 \<and> idev (ino ip) = dev \<and> inum (ino ip) = i) [0..<NINODE] of
      Some ip \<Rightarrow> kthen (kmod (upd_inode ip (iref_update (\<lambda>r. r + 1)))) (kret ip)
    | None \<Rightarrow>
        (case find (\<lambda>ip. iref (ino ip) = 0) [0..<NINODE] of
           None \<Rightarrow> kpanic ''iget: no inodes''
         | Some ip \<Rightarrow>
             kthen (kmod (upd_inode ip (\<lambda>x. x \<lparr> idev := dev, inum := i, iref := 1, ibusy := False, ivalid := False \<rparr>)))
                   (kret ip)))"

definition zero_dinode :: "u16 \<Rightarrow> dinode" where
  "zero_dinode type =
    \<lparr> di_type = type, di_major = 0, di_minor = 0, di_nlink = 0, di_size = 0, di_addrs = replicate (NDIRECT + 1) 0 \<rparr>"

fun ialloc_loop :: "u32 \<Rightarrow> u16 \<Rightarrow> u32 list \<Rightarrow> ('a fst_scheme, nat) km" where
  "ialloc_loop dev type [] = kpanic ''ialloc: no inodes''"
| "ialloc_loop dev type (i # is) =
    kbind (bread dev (IBLOCK i)) (\<lambda>bp.
    kbind (bget_data bp) (\<lambda>d.
    if di_type (get_dinode d (ioff i)) = 0 then
      kthen (bset_data bp (put_dinode (ioff i) (zero_dinode type) d))
     (kthen (log_write bp)
     (kthen (brelse bp)
            (iget dev i)))
    else kthen (brelse bp) (ialloc_loop dev type is)))"

definition ialloc :: "u32 \<Rightarrow> u16 \<Rightarrow> ('a fst_scheme, nat) km" where
  "ialloc dev type =
    kbind (readsb dev) (\<lambda>sb.
    ialloc_loop dev type (map word_of_nat [1..<unat (sb_ninodes sb)]))"

definition iupdate :: "nat \<Rightarrow> ('a fst_scheme, unit) km" where
  "iupdate ip =
    kbind (kget (\<lambda>s. inodes s ip)) (\<lambda>x.
    kbind (bread (idev x) (IBLOCK (inum x))) (\<lambda>bp.
    kbind (bget_data bp) (\<lambda>d.
    kthen (bset_data bp (put_dinode (ioff (inum x)) (idi x) d))
   (kthen (log_write bp)
          (brelse bp)))))"

definition idup :: "nat \<Rightarrow> ('a fst_scheme, nat) km" where
  "idup ip = kthen (kmod (upd_inode ip (iref_update (\<lambda>r. r + 1)))) (kret ip)"

definition ilock :: "nat \<Rightarrow> ('a fst_scheme, unit) km" where
  "ilock ip =
    kbind (kget (\<lambda>s. inodes s ip)) (\<lambda>x.
    if iref x < 1 then kpanic ''ilock''
    else if ibusy x then kstop (Sleep (Chan_inode ip))
    else
      kthen (kmod (upd_inode ip (ibusy_update (\<lambda>_. True))))
     (if ivalid x then kret ()
      else
        kbind (bread (idev x) (IBLOCK (inum x))) (\<lambda>bp.
        kbind (bget_data bp) (\<lambda>d.
        let di = get_dinode d (ioff (inum x)) in
        kthen (kmod (upd_inode ip (idi_update (\<lambda>_. di))))
       (kthen (brelse bp)
       (kthen (kmod (upd_inode ip (ivalid_update (\<lambda>_. True))))
       (if di_type di = 0 then kpanic ''ilock: no type'' else kret ())))))))"

definition iunlock :: "nat \<Rightarrow> ('a fst_scheme, unit) km" where
  "iunlock ip =
    kbind (kget (\<lambda>s. inodes s ip)) (\<lambda>x.
    if \<not> ibusy x \<or> iref x < 1 then kpanic ''iunlock''
    else kthen (kmod (upd_inode ip (ibusy_update (\<lambda>_. False)))) (wakeup (Chan_inode ip)))"

section \<open>Inode content\<close>

text \<open>The address of a block of a file; a missing block is allocated.\<close>

definition bmap :: "nat \<Rightarrow> nat \<Rightarrow> ('a fst_scheme, u32) km" where
  "bmap ip bn =
    kbind (kget (\<lambda>s. inodes s ip)) (\<lambda>x.
    if bn < NDIRECT then
      (let addr = di_addrs (idi x) ! bn in
       if addr = 0 then
         kbind (balloc (idev x)) (\<lambda>addr.
         kthen (kmod (upd_di ip (\<lambda>di. di \<lparr> di_addrs := (di_addrs di)[bn := addr] \<rparr>)))
               (kret addr))
       else kret addr)
    else if bn - NDIRECT < NINDIRECT then
      (let bn = bn - NDIRECT; addr = di_addrs (idi x) ! NDIRECT in
       kbind (if addr = 0 then
                kbind (balloc (idev x)) (\<lambda>addr.
                kthen (kmod (upd_di ip (\<lambda>di. di \<lparr> di_addrs := (di_addrs di)[NDIRECT := addr] \<rparr>)))
                      (kret addr))
              else kret addr) (\<lambda>addr.
       kbind (bread (idev x) addr) (\<lambda>bp.
       kbind (bget_data bp) (\<lambda>d.
       kbind (if get32 d (4 * bn) = 0 then
                kbind (balloc (idev x)) (\<lambda>addr.
                kbind (bget_data bp) (\<lambda>d.
                kthen (bset_data bp (put32 (4 * bn) addr d))
               (kthen (log_write bp) (kret addr))))
              else kret (get32 d (4 * bn))) (\<lambda>addr.
       kthen (brelse bp) (kret addr))))))
    else kpanic ''bmap: out of range'')"

definition itrunc :: "nat \<Rightarrow> ('a fst_scheme, unit) km" where
  "itrunc ip =
    kthen (kfor [0..<NDIRECT] (\<lambda>i.
      kbind (kget (\<lambda>s. inodes s ip)) (\<lambda>x.
      kwhen (di_addrs (idi x) ! i \<noteq> 0)
        (kthen (bfree (idev x) (di_addrs (idi x) ! i))
               (kmod (upd_di ip (\<lambda>di. di \<lparr> di_addrs := (di_addrs di)[i := 0] \<rparr>)))))))
   (kbind (kget (\<lambda>s. inodes s ip)) (\<lambda>x.
    let addr = di_addrs (idi x) ! NDIRECT in
    kthen (kwhen (addr \<noteq> 0)
      (kbind (bread (idev x) addr) (\<lambda>bp.
       kthen (kfor [0..<NINDIRECT] (\<lambda>j.
         kbind (bget_data bp) (\<lambda>d.
         kwhen (get32 d (4 * j) \<noteq> 0) (bfree (idev x) (get32 d (4 * j))))))
      (kthen (brelse bp)
      (kthen (bfree (idev x) addr)
             (kmod (upd_di ip (\<lambda>di. di \<lparr> di_addrs := (di_addrs di)[NDIRECT := 0] \<rparr>))))))))
   (kthen (kmod (upd_di ip (di_size_update (\<lambda>_. 0))))
          (iupdate ip))))"

definition iput :: "nat \<Rightarrow> ('a fst_scheme, unit) km" where
  "iput ip =
    kbind (kget (\<lambda>s. inodes s ip)) (\<lambda>x.
    kthen (if iref x = 1 \<and> ivalid x \<and> di_nlink (idi x) = 0 then
             if ibusy x then kpanic ''iput busy''
             else
               kthen (kmod (upd_inode ip (ibusy_update (\<lambda>_. True))))
              (kthen (itrunc ip)
              (kthen (kmod (upd_di ip (di_type_update (\<lambda>_. 0))))
              (kthen (iupdate ip)
              (kthen (kmod (upd_inode ip (\<lambda>x. x \<lparr> ibusy := False, ivalid := False \<rparr>)))
                     (wakeup (Chan_inode ip))))))
           else kret ())
          (kmod (upd_inode ip (iref_update (\<lambda>r. r - 1)))))"

definition iunlockput :: "nat \<Rightarrow> ('a fst_scheme, unit) km" where
  "iunlockput ip = kthen (iunlock ip) (iput ip)"

record stat =
  st_type :: u16
  st_dev :: u32
  st_ino :: u32
  st_nlink :: u16
  st_size :: u32

definition stati :: "nat \<Rightarrow> ('a fst_scheme, stat) km" where
  "stati ip = kget (\<lambda>s. let x = inodes s ip in
    \<lparr> st_type = di_type (idi x), st_dev = idev x, st_ino = inum x, st_nlink = di_nlink (idi x), st_size = di_size (idi x) \<rparr>)"

text \<open>The loop of \<open>readi\<close>: \<open>r\<close> is \<open>n - tot\<close>. The offset does not wrap, which the checks before the loop ensure.\<close>

function readi_loop :: "nat \<Rightarrow> nat \<Rightarrow> nat \<Rightarrow> ('a fst_scheme, u8 list) km" where
  "readi_loop ip off r =
    (if r = 0 then kret []
     else
       kbind (bmap ip (off div BSIZE)) (\<lambda>addr.
       kbind (kget (\<lambda>s. idev (inodes s ip))) (\<lambda>dev.
       kbind (bread dev addr) (\<lambda>bp.
       let m = min r (BSIZE - off mod BSIZE) in
       kbind (bget_data bp) (\<lambda>d.
       kthen (brelse bp)
      (kbind (readi_loop ip (off + m) (r - m)) (\<lambda>rest.
       kret (bslice (off mod BSIZE) m d @ rest))))))))"
  by pat_completeness auto
termination
  by (relation "measure (\<lambda>(ip, off, r). r)") (auto simp: Let_def)

definition readi :: "'a fst_scheme devsw \<Rightarrow> nat \<Rightarrow> u32 \<Rightarrow> u32 \<Rightarrow> ('a fst_scheme, int \<times> u8 list) km" where
  "readi devsw ip off n =
    kbind (kget (\<lambda>s. idi (inodes s ip))) (\<lambda>di.
    if di_type di = T_DEV then
      (let major = sint (di_major di) in
       if major < 0 \<or> major \<ge> int NDEV then kret (- 1, [])
       else (case dev_read devsw major of None \<Rightarrow> kret (- 1, []) | Some f \<Rightarrow> f ip n))
    else if off > di_size di \<or> off + n < off then kret (- 1, [])
    else
      (let n = (if off + n > di_size di then di_size di - off else n) in
       kbind (readi_loop ip (unat off) (unat n)) (\<lambda>bs. kret (sint n, bs))))"

text \<open>The loop of \<open>writei\<close>; \<open>src\<close> are the bytes that are still to be written.\<close>

function writei_loop :: "nat \<Rightarrow> nat \<Rightarrow> u8 list \<Rightarrow> ('a fst_scheme, unit) km" where
  "writei_loop ip off src =
    (if src = [] then kret ()
     else
       kbind (bmap ip (off div BSIZE)) (\<lambda>addr.
       kbind (kget (\<lambda>s. idev (inodes s ip))) (\<lambda>dev.
       kbind (bread dev addr) (\<lambda>bp.
       let m = min (length src) (BSIZE - off mod BSIZE) in
       kbind (bget_data bp) (\<lambda>d.
       kthen (bset_data bp (bsplice (off mod BSIZE) (take m src) d))
      (kthen (log_write bp)
      (kthen (brelse bp)
             (writei_loop ip (off + m) (drop m src)))))))))"
  by pat_completeness auto
termination
  by (relation "measure (\<lambda>(ip, off, src). length src)") (auto simp: Let_def)

definition writei :: "'a fst_scheme devsw \<Rightarrow> nat \<Rightarrow> u8 list \<Rightarrow> u32 \<Rightarrow> u32 \<Rightarrow> ('a fst_scheme, int) km" where
  "writei devsw ip src off n =
    kbind (kget (\<lambda>s. idi (inodes s ip))) (\<lambda>di.
    if di_type di = T_DEV then
      (let major = sint (di_major di) in
       if major < 0 \<or> major \<ge> int NDEV then kret (- 1)
       else (case dev_write devsw major of None \<Rightarrow> kret (- 1) | Some f \<Rightarrow> f ip src n))
    else if off > di_size di \<or> off + n < off then kret (- 1)
    else if unat (off + n) > MAXFILE * BSIZE then kret (- 1)
    else
      kthen (writei_loop ip (unat off) (take (unat n) src))
     (kbind (kget (\<lambda>s. di_size (idi (inodes s ip)))) (\<lambda>sz.
      kthen (kwhen (n > 0 \<and> off + n > sz)
               (kthen (kmod (upd_di ip (di_size_update (\<lambda>_. off + n)))) (iupdate ip)))
            (kret (sint n)))))"

section \<open>Directories\<close>

text \<open>A byte array, or a string constant with its NUL, read at an index.\<close>

definition chars :: "u8 list \<Rightarrow> nat \<Rightarrow> u8" where
  "chars s i = (if i < length s then s ! i else 0)"

definition namecmp :: "u8 list \<Rightarrow> u8 list \<Rightarrow> int" where
  "namecmp s t = strncmp (chars s) (chars t) DIRSIZ"

text \<open>The offsets of the entries of a directory of the given size.\<close>

definition dir_offsets :: "u32 \<Rightarrow> nat list" where
  "dir_offsets sz = map (\<lambda>k. 16 * k) [0..<(unat sz + 15) div 16]"

definition read_dirent :: "'a fst_scheme devsw \<Rightarrow> nat \<Rightarrow> nat \<Rightarrow> ('a fst_scheme, dirent) km" where
  "read_dirent devsw dp off =
    kbind (readi devsw dp (word_of_nat off) 16) (\<lambda>(r, bs).
    if r \<noteq> 16 then kpanic ''dirlink read'' else kret (dirent_of bs))"

fun dirlookup_loop :: "'a fst_scheme devsw \<Rightarrow> nat \<Rightarrow> u8 list \<Rightarrow> nat list \<Rightarrow> ('a fst_scheme, (nat \<times> nat) option) km" where
  "dirlookup_loop devsw dp name [] = kret None"
| "dirlookup_loop devsw dp name (off # offs) =
    kbind (read_dirent devsw dp off) (\<lambda>de.
    if de_inum de = 0 then dirlookup_loop devsw dp name offs
    else if namecmp name (de_name de) = 0 then
      kbind (kget (\<lambda>s. idev (inodes s dp))) (\<lambda>dev.
      kbind (iget dev (ucast (de_inum de))) (\<lambda>ip.
      kret (Some (ip, off))))
    else dirlookup_loop devsw dp name offs)"

text \<open>The entry's inode and its offset (\<open>*poff\<close>).\<close>

definition dirlookup :: "'a fst_scheme devsw \<Rightarrow> nat \<Rightarrow> u8 list \<Rightarrow> ('a fst_scheme, (nat \<times> nat) option) km" where
  "dirlookup devsw dp name =
    kbind (kget (\<lambda>s. idi (inodes s dp))) (\<lambda>di.
    if di_type di \<noteq> T_DIR then kpanic ''dirlookup not DIR''
    else dirlookup_loop devsw dp name (dir_offsets (di_size di)))"

fun dirlink_loop :: "'a fst_scheme devsw \<Rightarrow> nat \<Rightarrow> nat \<Rightarrow> nat list \<Rightarrow> ('a fst_scheme, nat) km" where
  "dirlink_loop devsw dp off [] = kret off"
| "dirlink_loop devsw dp _ (off # offs) =
    kbind (read_dirent devsw dp off) (\<lambda>de.
    if de_inum de = 0 then kret off else dirlink_loop devsw dp (off + 16) offs)"

definition dirlink :: "'a fst_scheme devsw \<Rightarrow> nat \<Rightarrow> u8 list \<Rightarrow> u32 \<Rightarrow> ('a fst_scheme, int) km" where
  "dirlink devsw dp name i =
    kbind (dirlookup devsw dp name) (\<lambda>r.
    case r of
      Some (ip, _) \<Rightarrow> kthen (iput ip) (kret (- 1))
    | None \<Rightarrow>
        kbind (kget (\<lambda>s. di_size (idi (inodes s dp)))) (\<lambda>sz.
        kbind (dirlink_loop devsw dp 0 (dir_offsets sz)) (\<lambda>off.
        let de = \<lparr> de_inum = ucast i, de_name = padded (cstrn (chars name) DIRSIZ) DIRSIZ \<rparr> in
        kbind (writei devsw dp (dirent_bytes de) (word_of_nat off) 16) (\<lambda>r.
        if r \<noteq> 16 then kpanic ''dirlink'' else kret 0))))"

section \<open>Paths\<close>

text \<open>A path is the characters before the NUL; \<open>name\<close> is the array of \<open>DIRSIZ\<close> bytes that receives the element.\<close>

definition skipelem :: "u8 list \<Rightarrow> u8 list \<Rightarrow> (u8 list \<times> u8 list) option" where
  "skipelem path name =
    (let path = dropWhile (\<lambda>c. c = asc CHR ''/'') path in
     if path = [] then None
     else
       let s = takeWhile (\<lambda>c. c \<noteq> asc CHR ''/'') path;
           path = dropWhile (\<lambda>c. c \<noteq> asc CHR ''/'') path;
           name = (if length s \<ge> DIRSIZ then take DIRSIZ s else s @ [0] @ drop (length s + 1) name)
       in Some (dropWhile (\<lambda>c. c = asc CHR ''/'') path, name))"

lemma skipelem_shorter: "skipelem path name = Some (path', name') \<Longrightarrow> length path' < length path"
proof -
  assume a: "skipelem path name = Some (path', name')"
  let ?sl = "asc CHR ''/''"
  let ?p = "dropWhile (\<lambda>c. c = ?sl) path"
  have ne: "?p \<noteq> []" and p': "path' = dropWhile (\<lambda>c. c = ?sl) (dropWhile (\<lambda>c. c \<noteq> ?sl) ?p)"
    using a by (auto simp: skipelem_def Let_def split: if_splits)
  have "hd ?p \<noteq> ?sl" by (rule hd_dropWhile [OF ne])
  then have "length (dropWhile (\<lambda>c. c \<noteq> ?sl) ?p) < length ?p"
    using ne by (cases ?p) (auto simp: length_dropWhile_le le_imp_less_Suc)
  then show ?thesis unfolding p' using length_dropWhile_le [of _ path] length_dropWhile_le
    by (meson le_less_trans less_le_trans)
qed

function namex_loop :: "'a fst_scheme devsw \<Rightarrow> bool \<Rightarrow> nat \<Rightarrow> u8 list \<Rightarrow> u8 list \<Rightarrow> ('a fst_scheme, (nat \<times> u8 list) option) km" where
  "namex_loop devsw nameiparent ip path name =
    (case skipelem path name of
       None \<Rightarrow> if nameiparent then kthen (iput ip) (kret None) else kret (Some (ip, name))
     | Some (path', name') \<Rightarrow>
         kthen (ilock ip)
        (kbind (kget (\<lambda>s. di_type (idi (inodes s ip)))) (\<lambda>type.
         if type \<noteq> T_DIR then kthen (iunlockput ip) (kret None)
         else if nameiparent \<and> path' = [] then kthen (iunlock ip) (kret (Some (ip, name')))
         else
           kbind (dirlookup devsw ip name') (\<lambda>r.
           case r of
             None \<Rightarrow> kthen (iunlockput ip) (kret None)
           | Some (next, _) \<Rightarrow> kthen (iunlockput ip) (namex_loop devsw nameiparent next path' name')))))"
  by pat_completeness auto
termination
  by (relation "measure (\<lambda>(devsw, np, ip, path, name). length path)") (auto dest: skipelem_shorter)

definition namex :: "'a fst_scheme devsw \<Rightarrow> nat \<Rightarrow> u8 list \<Rightarrow> bool \<Rightarrow> u8 list \<Rightarrow> ('a fst_scheme, (nat \<times> u8 list) option) km" where
  "namex devsw cwd path nameiparent name =
    kbind (if path \<noteq> [] \<and> hd path = asc CHR ''/'' then iget ROOTDEV ROOTINO else idup cwd) (\<lambda>ip.
    namex_loop devsw nameiparent ip path name)"

definition namei :: "'a fst_scheme devsw \<Rightarrow> nat \<Rightarrow> u8 list \<Rightarrow> ('a fst_scheme, nat option) km" where
  "namei devsw cwd path =
    kbind (namex devsw cwd path False (replicate DIRSIZ 0)) (\<lambda>r. kret (map_option fst r))"

definition nameiparent :: "'a fst_scheme devsw \<Rightarrow> nat \<Rightarrow> u8 list \<Rightarrow> u8 list \<Rightarrow> ('a fst_scheme, (nat \<times> u8 list) option) km" where
  "nameiparent devsw cwd path name = namex devsw cwd path True name"

declare readi_loop.simps [simp del] writei_loop.simps [simp del] namex_loop.simps [simp del]

end
