(* ===== verification/Fs_Alloc.thy ===== *)
theory Fs_Alloc
  imports Fs
begin

text \<open>
  The block allocator of \<open>src/fs.c\<close> inside a transaction. A step of file system code is described by the set of
  blocks that it may log and change; the room that the code needs in the log and in the buffer cache
  is counted against the blocks that the transaction will log. The allocator returns the lowest
  free block of the bitmap, marked and cleared.
\<close>

section \<open>Steps that touch a set of blocks\<close>

definition moved :: "'a lst_scheme \<Rightarrow> 'a lst_scheme \<Rightarrow> bool" where
  "moved s s' \<longleftrightarrow> tstep\<^sup>*\<^sup>* s s' \<and> lstart s' = lstart s \<and> lsize s' = lsize s \<and> disksize s' = disksize s"

definition touches :: "'a lst_scheme \<Rightarrow> u32 set \<Rightarrow> 'a lst_scheme \<Rightarrow> bool" where
  "touches s W s' \<longleftrightarrow> tx s' \<and> moved s s' \<and> held s' = held s \<and> (\<forall>i \<in> held s. bsector (bufs s' i) = bsector (bufs s i)) \<and>
    set (logged s') \<subseteq> set (logged s) \<union> W \<and> (\<forall>x. x \<notin> W \<longrightarrow> home s' x = home s x)"

text \<open>The transaction can still log the blocks \<open>X\<close> and \<open>n\<close> more, while \<open>k\<close> further buffers are in use.\<close>

definition room :: "'a lst_scheme \<Rightarrow> u32 set \<Rightarrow> nat \<Rightarrow> nat \<Rightarrow> bool" where
  "room s X n k \<longleftrightarrow> finite X \<and> card (set (logged s) \<union> X) + n + 1 < unat (lsize s) \<and>
    card (set (logged s) \<union> X) + n + card (held s) + k < NBUF"

definition sectors :: "'a bst_scheme \<Rightarrow> u32 set" where
  "sectors s = (\<lambda>i. bsector (bufs s i)) ` held s"

lemma moved_refl [simp]: "moved s s"
  by (simp add: moved_def)

lemma moved_trans: "moved s t \<Longrightarrow> moved t u \<Longrightarrow> moved s u"
  by (auto simp: moved_def)

lemma evolves_moved: "evolves s t \<Longrightarrow> moved s t"
  by (simp add: evolves_def moved_def)

lemma touchesD:
  assumes "touches s W s'"
  shows "tx s'" "moved s s'" "held s' = held s" "sectors s' = sectors s" "set (logged s') \<subseteq> set (logged s) \<union> W"
    "\<And>x. x \<notin> W \<Longrightarrow> home s' x = home s x" "lstart s' = lstart s" "lsize s' = lsize s"
  using assms by (auto simp: touches_def sectors_def moved_def)

lemma touches_refl: "tx s \<Longrightarrow> touches s W s"
  by (simp add: touches_def)

lemma touches_mono: "touches s W s' \<Longrightarrow> W \<subseteq> W' \<Longrightarrow> touches s W' s'"
  unfolding touches_def by blast

lemma touches_trans: "touches s W t \<Longrightarrow> touches t W u \<Longrightarrow> touches s W u"
  unfolding touches_def using moved_trans by (auto 4 3)

lemma room_touches:
  assumes "room s X n k" "touches s W s'" "W \<subseteq> X"
  shows "room s' X n k"
proof -
  have "set (logged s') \<union> X \<subseteq> set (logged s) \<union> X" using touchesD(5) [OF assms(2)] assms(3) by blast
  then have "card (set (logged s') \<union> X) \<le> card (set (logged s) \<union> X)"
    using assms(1) by (intro card_mono) (auto simp: room_def)
  then show ?thesis using assms(1) touchesD(3,8) [OF assms(2)] by (simp add: room_def)
qed

lemma room_insert:
  assumes "room s X (Suc n) k"
  shows "room s (insert x X) n k"
proof -
  have "card (set (logged s) \<union> insert x X) \<le> Suc (card (set (logged s) \<union> X))"
    using assms by (simp add: room_def card_insert_if)
  then show ?thesis using assms by (simp add: room_def)
qed

lemma room_weaken: "room s X n k \<Longrightarrow> n' \<le> n \<Longrightarrow> k' \<le> k \<Longrightarrow> room s X n' k'"
  by (simp add: room_def)

lemma room_use:
  assumes "room s X n k"
  shows "nlog s + n + 1 < unat (lsize s)" "nlog s + n + card (held s) + k < NBUF"
proof -
  have "nlog s \<le> card (set (logged s) \<union> X)" unfolding nlog_def using assms by (intro card_mono) (auto simp: room_def)
  then show "nlog s + n + 1 < unat (lsize s)" "nlog s + n + card (held s) + k < NBUF"
    using assms by (simp_all add: room_def)
qed

text \<open>A change of the state above the log touches no block.\<close>

lemma above_same [simp]:
  "held (lst.more_update f s) = held s" "home (lst.more_update f s) = home s" "logged (lst.more_update f s) = logged s"
  "lstart (lst.more_update f s) = lstart s" "bufs (lst.more_update f s) = bufs s"
  "lsize (lst.more_update f s) = lsize s"
  by (simp_all add: held_def home_def fun_eq_iff view_def logged_def split: option.split)

lemma above_touches:
  assumes "tx s"
  shows "touches s W (lst.more_update f s)"
proof -
  have "stored (lst.more_update f s) = stored s" by (simp add: stored_def)
  then have "tx (lst.more_update f s)" using assms trans_inv_above [of _ _ s f] by (auto simp: tx_def)
  moreover have "moved s (lst.more_update f s)"
    unfolding moved_def using r_into_rtranclp [of tstep, OF t_above] by simp
  ultimately show ?thesis by (simp add: touches_def)
qed

lemma touch_peek:
  assumes "tx s" "sec < lstart s" "sec \<notin> sectors s" "room s X n 1"
  shows "\<exists>s'. kbind (bread 1 sec) (\<lambda>b. kbind (bget_data b) (\<lambda>d. kthen (brelse b) (kret (f d)))) s = Inr (f (home s sec), s') \<and>
    touches s {} s' \<and> lst.more s' = lst.more s"
proof -
  have "\<forall>b \<in> held s. bsector (bufs s b) \<noteq> sec" using assms(3) by (auto simp: sectors_def)
  moreover have "nlog s + card (held s) < NBUF" using room_use(2) [OF assms(4)] by simp
  ultimately show ?thesis using tx_peek [OF assms(1,2), of f]
    by (fastforce simp: touches_def evolves_moved evolves_def)
qed

lemma touch_update:
  assumes "tx s" "sec < lstart s" "sec \<notin> sectors s" "room s X n 1"
  shows "\<exists>s'. kbind (bread 1 sec) (\<lambda>b. kbind (bget_data b) (\<lambda>d. kthen (bset_data b (f d)) (kthen (log_write b) (brelse b)))) s =
      Inr ((), s') \<and> touches s {sec} s' \<and> home s' = (home s)(sec := f (home s sec)) \<and> lst.more s' = lst.more s"
proof -
  have "\<forall>b \<in> held s. bsector (bufs s b) \<noteq> sec" using assms(3) by (auto simp: sectors_def)
  moreover have "nlog s + 1 < unat (lsize s)" "nlog s + card (held s) + 1 < NBUF" using room_use [OF assms(4)] by simp_all
  ultimately show ?thesis using tx_update [OF assms(1,2), of f]
    by (fastforce simp: touches_def evolves_moved evolves_def)
qed

lemma kthen_assoc3: "kthen a (kthen b c) s = Inr ((), s') \<Longrightarrow> kthen a (kthen b (kthen c m)) s = m s'"
  by (auto simp: kbind_def split: sum.splits)

text \<open>The same update, when the code looks at the block before it decides what to write.\<close>

lemma touch_modify:
  assumes "tx s" "sec < lstart s" "sec \<notin> sectors s" "room s X n 1"
  shows "\<exists>bp s1 s2. bread 1 sec s = Inr (bp, s1) \<and> bget_data bp s1 = Inr (home s sec, s1) \<and>
    kthen (bset_data bp d) (kthen (log_write bp) (brelse bp)) s1 = Inr ((), s2) \<and>
    touches s {sec} s2 \<and> home s2 = (home s)(sec := d) \<and> lst.more s2 = lst.more s"
proof -
  have a: "\<forall>b \<in> held s. bsector (bufs s b) \<noteq> sec" using assms(3) by (auto simp: sectors_def)
  have "nlog s + card (held s) < NBUF" using room_use(2) [OF assms(4)] by simp
  from tx_bread [OF assms(1,2) a this] obtain bp s1 where
    b: "bread 1 sec s = Inr (bp, s1)" "bdata (bufs s1 bp) = home s sec" by blast
  have g: "bget_data bp s1 = Inr (home s sec, s1)" using b(2) by (simp add: bget_data_def kget_def)
  from touch_update [OF assms, of "\<lambda>_. d"] obtain s2 where
    "kthen (bset_data bp d) (kthen (log_write bp) (brelse bp)) s1 = Inr ((), s2)"
    "touches s {sec} s2" "home s2 = (home s)(sec := d)" "lst.more s2 = lst.more s"
    using b g by (auto simp: kbind_def)
  then show ?thesis using b g by blast
qed

section \<open>The bitmap\<close>

lemma bit_free_iff: "bit_free d b \<longleftrightarrow> \<not> bit (d ! (b div 8)) (b mod 8)"
  by (simp add: bit_free_def push_bit_eq_mult and_exp_eq_0_iff_not_bit)

lemma bit_free_mark:
  assumes "i < 8 * length d" "j < 8 * length d"
  shows "bit_free (bit_mark d i) j \<longleftrightarrow> bit_free d j \<and> j \<noteq> i"
proof -
  have "j div 8 = i div 8 \<Longrightarrow> j mod 8 = i mod 8 \<Longrightarrow> j = i" by (metis div_mult_mod_eq)
  moreover have "i div 8 < length d" "i mod 8 < 8" "j mod 8 < 8" using assms by auto
  ultimately show ?thesis
    by (cases "j div 8 = i div 8") (auto simp: bit_free_iff bit_mark_def bit_simps)
qed

lemma bit_free_clear:
  assumes "i < 8 * length d" "j < 8 * length d"
  shows "bit_free (bit_clear d i) j \<longleftrightarrow> bit_free d j \<or> j = i"
proof -
  have "j div 8 = i div 8 \<Longrightarrow> j mod 8 = i mod 8 \<Longrightarrow> j = i" by (metis div_mult_mod_eq)
  moreover have "i div 8 < length d" "i mod 8 < 8" "j mod 8 < 8" using assms by auto
  ultimately show ?thesis
    by (cases "j div 8 = i div 8") (auto simp: bit_free_iff bit_clear_def bit_simps)
qed

lemma length_bit_mark [simp]: "length (bit_mark d i) = length d" "length (bit_clear d i) = length d"
  by (simp_all add: bit_mark_def bit_clear_def)

lemma find_skip: "find P xs = None \<Longrightarrow> find P (xs @ ys) = find P ys"
  by (induction xs) (auto split: if_splits)

lemma find_least:
  assumes "b < n" "P b" "\<And>c. c < b \<Longrightarrow> \<not> P c"
  shows "find P [0..<n] = Some b"
proof -
  have "[0..<n] = [0..<b] @ b # [Suc b..<n]" using assms(1) by (metis append_Cons append_Nil less_imp_add_positive upt_add_eq_append upt_conv_Cons zero_le)
  moreover have "find P [0..<b] = None" using assms(3) by (simp add: find_None_iff)
  ultimately show ?thesis using assms(2) by (simp add: find_skip)
qed

section \<open>Allocation\<close>

definition bitmap :: "superblock \<Rightarrow> u32" where
  "bitmap sb = BBLOCK 0 (sb_ninodes sb)"

text \<open>A disk with the layout that \<open>mkfs\<close> makes and one bitmap block, in which the blocks up to the bitmap are in use.\<close>

definition fs_geom :: "superblock \<Rightarrow> 'a lst_scheme \<Rightarrow> bool" where
  "fs_geom sb s \<longleftrightarrow> get_superblock (home s 1) = sb \<and> unat (sb_size sb) \<le> BPB \<and> lstart s \<le> sb_size sb \<and>
    1 < bitmap sb \<and> bitmap sb < lstart s \<and> (\<forall>x < lstart s. length (home s x) = BSIZE) \<and>
    (\<forall>b \<le> bitmap sb. \<not> bit_free (home s (bitmap sb)) (unat b))"

abbreviation free_block :: "superblock \<Rightarrow> 'a lst_scheme \<Rightarrow> u32 \<Rightarrow> bool" where
  "free_block sb s b \<equiv> bit_free (home s (bitmap sb)) (unat b)"

lemma fs_geomD:
  assumes "fs_geom sb s"
  shows "get_superblock (home s 1) = sb" "unat (sb_size sb) \<le> BPB" "unat (lstart s) \<le> unat (sb_size sb)"
    "1 < bitmap sb" "bitmap sb < lstart s" "1 < lstart s" "\<And>x. x < lstart s \<Longrightarrow> length (home s x) = BSIZE"
    "\<And>b. free_block sb s b \<Longrightarrow> bitmap sb < b"
  using assms by (auto simp: fs_geom_def word_le_nat_alt not_le [symmetric] intro: order.strict_trans)

lemma bitmap_block:
  assumes "b < 4096"
  shows "BBLOCK b n = BBLOCK 0 n"
proof -
  have "b div 4096 = 0" using assms by (simp add: div_word_less)
  then show ?thesis by (simp add: BBLOCK_def)
qed

lemma bit_range:
  assumes "fs_geom sb s" "b < lstart s"
  shows "unat b < 8 * length (home s (bitmap sb))" "b < 4096"
proof -
  have "unat b < BPB" using fs_geomD(2,3) [OF assms(1)] assms(2) by (simp add: word_less_nat_alt)
  then show "unat b < 8 * length (home s (bitmap sb))" "b < 4096"
    using fs_geomD(5,7) [OF assms(1)] by (simp_all add: word_less_nat_alt)
qed

lemma free_mark:
  assumes "fs_geom sb s" "b < lstart s" "c < lstart s" "home s' (bitmap sb) = bit_mark (home s (bitmap sb)) (unat b)"
  shows "free_block sb s' c \<longleftrightarrow> free_block sb s c \<and> c \<noteq> b"
  unfolding assms(4) by (subst bit_free_mark [OF bit_range(1) [OF assms(1,2)] bit_range(1) [OF assms(1,3)]]) (simp add: word_unat_eq_iff)

lemma geom_keep:
  assumes "fs_geom sb s" "lstart s' = lstart s" "home s' 1 = home s 1"
    "\<And>x. x < lstart s \<Longrightarrow> length (home s' x) = BSIZE" "\<And>b. b \<le> bitmap sb \<Longrightarrow> \<not> free_block sb s' b"
  shows "fs_geom sb s'"
  using assms by (simp add: fs_geom_def)

lemma bzero_update:
  "bzero dev b = kbind (bread dev b) (\<lambda>b. kbind (bget_data b) (\<lambda>d. kthen (bset_data b (replicate BSIZE 0)) (kthen (log_write b) (brelse b))))"
  by (rule ext) (simp add: bzero_def kbind_def bget_data_def kget_def split: sum.split)

lemma readsb_run:
  assumes "tx s" "fs_geom sb s" "1 \<notin> sectors s" "room s X n 1"
  shows "\<exists>s'. readsb 1 s = Inr (sb, s') \<and> touches s {} s' \<and> lst.more s' = lst.more s"
  using touch_peek [OF assms(1) fs_geomD(6) [OF assms(2)] assms(3,4), of get_superblock]
  unfolding readsb_def fs_geomD(1) [OF assms(2)] .

lemma balloc_run:
  assumes tx: "tx s" and g: "fs_geom sb s" and b: "b < lstart s" "free_block sb s b" "\<And>c. c < b \<Longrightarrow> \<not> free_block sb s c"
    and sec: "{1, bitmap sb, b} \<inter> sectors s = {}" and X: "room s X n 1" "{bitmap sb, b} \<subseteq> X"
  shows "\<exists>s'. balloc 1 s = Inr (b, s') \<and> touches s {bitmap sb, b} s' \<and> lst.more s' = lst.more s \<and>
    home s' = (home s)(bitmap sb := bit_mark (home s (bitmap sb)) (unat b), b := replicate BSIZE 0)"
proof -
  have "1 \<notin> sectors s" using sec by blast
  from readsb_run [OF tx g this X(1)] obtain s1 where 1: "readsb 1 s = Inr (sb, s1)" "touches s {} s1" "lst.more s1 = lst.more s" by blast
  note t1 = touchesD [OF 1(2)]
  have h1: "home s1 = home s" using t1(6) by (simp add: fun_eq_iff)
  have size: "0 < unat (sb_size sb)" "unat (sb_size sb) \<le> BPB" "unat b < unat (sb_size sb)"
    using fs_geomD(2,3) [OF g] b(1) by (simp_all add: word_less_nat_alt)
  then have "(unat (sb_size sb) + BPB - 1) div BPB = 1" by (simp add: div_nat_eqI)
  then have bs: "map (\<lambda>k. BPB * k) [0..<(unat (sb_size sb) + BPB - 1) div BPB] = [0]" by simp
  let ?d = "home s (bitmap sb)"
  have "bitmap sb < lstart s1" "bitmap sb \<notin> sectors s1" using fs_geomD(5) [OF g] t1(4,7) sec by auto
  from touch_modify [OF t1(1) this room_touches [OF X(1) 1(2)], of "bit_mark ?d (unat b)"] X(2) h1
  obtain bp s2 s3 where 2: "bread 1 (bitmap sb) s1 = Inr (bp, s2)" "bget_data bp s2 = Inr (?d, s2)"
    "kthen (bset_data bp (bit_mark ?d (unat b))) (kthen (log_write bp) (brelse bp)) s2 = Inr ((), s3)"
    "touches s1 {bitmap sb} s3" "home s3 = (home s)(bitmap sb := bit_mark ?d (unat b))" "lst.more s3 = lst.more s1" by auto
  note t3 = touchesD [OF 2(4)]
  have "room s3 X n 1" using room_touches [OF room_touches [OF X(1) 1(2)] 2(4)] X(2) by simp
  then obtain s4 where 4: "bzero 1 b s3 = Inr ((), s4)" "touches s3 {b} s4" "home s4 = (home s3)(b := replicate BSIZE 0)" "lst.more s4 = lst.more s3"
    using touch_update [OF t3(1), of b X n "\<lambda>_. replicate BSIZE 0"] b(1) sec t1(4,7) t3(4,7) unfolding bzero_update by auto
  have "find (bit_free ?d) [0..<min BPB (unat (sb_size sb) - 0)] = Some (unat b)"
  proof (rule find_least)
    show "\<not> bit_free ?d c" if "c < unat b" for c
      using b(3) [of "word_of_nat c"] that by (simp add: word_less_nat_alt unat_word_of_nat_less)
  qed (use size b(2) in auto)
  then have "balloc_loop 1 sb [0] s1 = Inr (b, s4)"
    using kthen_assoc3 [OF 2(3), of "kthen (bzero 1 b) (kret b)"] 2(1,2) 4(1) by (simp add: bitmap_def kbind_Inr kret_def)
  then have "balloc 1 s = Inr (b, s4)" unfolding balloc_def kbind_Inr [of "readsb 1", OF 1(1)] bs .
  moreover have "touches s {bitmap sb, b} s4"
    using 1(2) 2(4) 4(2) by (meson touches_mono touches_trans empty_subsetI insert_subset subset_insertI insertI1 insertI2)
  ultimately show ?thesis using 1(3) 2(5,6) 4(3,4) by auto
qed

lemma touches_geom:
  assumes "fs_geom sb s" "touches s W s'" "1 \<notin> W"
    "\<And>x. x \<in> W \<Longrightarrow> x < lstart s \<Longrightarrow> length (home s' x) = BSIZE" "\<And>b. b \<le> bitmap sb \<Longrightarrow> \<not> free_block sb s' b"
  shows "fs_geom sb s'"
  using touchesD(6,7) [OF assms(2)] fs_geomD(7) [OF assms(1)] assms(3-5)
  by (intro geom_keep [OF assms(1)]) metis+

text \<open>Allocation when some block below the log is free.\<close>

definition alloc_post :: "superblock \<Rightarrow> u32 set \<Rightarrow> 'a lst_scheme \<Rightarrow> u32 \<Rightarrow> 'a lst_scheme \<Rightarrow> bool" where
  "alloc_post sb W s b s' \<longleftrightarrow> bitmap sb < b \<and> b < lstart s \<and> free_block sb s b \<and> touches s ({bitmap sb, b} \<union> W) s' \<and>
    lst.more s' = lst.more s \<and> fs_geom sb s' \<and> home s' b = replicate BSIZE 0 \<and>
    (\<forall>c < lstart s. free_block sb s' c \<longleftrightarrow> free_block sb s c \<and> c \<noteq> b)"

lemma alloc_run:
  assumes tx: "tx s" and g: "fs_geom sb s" and f: "\<exists>b < lstart s. free_block sb s b"
    and sec: "sectors s \<inter> {1, bitmap sb} = {}" "\<And>b. b \<in> sectors s \<Longrightarrow> \<not> free_block sb s b"
    and X: "room s X (Suc n) 1" "bitmap sb \<in> X"
  shows "\<exists>b s'. balloc 1 s = Inr (b, s') \<and> alloc_post sb {} s b s' \<and> room s' (insert b X) n 1"
proof -
  let ?F = "{b. b < lstart s \<and> free_block sb s b}"
  define b where "b = Min ?F"
  have "finite ?F" "?F \<noteq> {}" using f by auto
  then have b: "b < lstart s" "free_block sb s b" using Min_in [of ?F] by (auto simp: b_def)
  have low: "\<not> free_block sb s c" if "c < b" for c
    using Min_le [OF \<open>finite ?F\<close>, of c] that b(1) unfolding b_def [symmetric] by force
  have bm: "bitmap sb < b" by (rule fs_geomD(8) [OF g b(2)])
  have s: "{1, bitmap sb, b} \<inter> sectors s = {}" using sec b(2) by auto
  have X': "room s (insert b X) n 1" by (rule room_insert [OF X(1)])
  have "{bitmap sb, b} \<subseteq> insert b X" using X(2) by simp
  from balloc_run [OF tx g b low s X' this] obtain s' where r: "balloc 1 s = Inr (b, s')" "touches s {bitmap sb, b} s'" "lst.more s' = lst.more s"
    "home s' = (home s)(bitmap sb := bit_mark (home s (bitmap sb)) (unat b), b := replicate BSIZE 0)" by blast
  have m: "home s' (bitmap sb) = bit_mark (home s (bitmap sb)) (unat b)" using r(4) bm by auto
  have free: "free_block sb s' c \<longleftrightarrow> free_block sb s c \<and> c \<noteq> b" if "c < lstart s" for c
    by (rule free_mark [OF g b(1) that m])
  have "fs_geom sb s'"
  proof (rule touches_geom [OF g r(2)])
    show "1 \<notin> {bitmap sb, b}" using fs_geomD(4) [OF g] bm by auto
    show "\<not> free_block sb s' c" if "c \<le> bitmap sb" for c
      using free [of c] fs_geomD(5,8) [OF g] that by (meson leD le_less_trans)
  qed (use r(4) fs_geomD(5,7) [OF g] in auto)
  moreover have "room s' (insert b X) n 1" by (rule room_touches [OF X' r(2)]) (use X(2) in auto)
  ultimately show ?thesis unfolding alloc_post_def using r free b bm by auto
qed

lemma alloc_postD:
  assumes "alloc_post sb W s b s'"
  shows "bitmap sb < b" "b < lstart s" "free_block sb s b" "touches s ({bitmap sb, b} \<union> W) s'" "lst.more s' = lst.more s"
    "fs_geom sb s'" "home s' b = replicate BSIZE 0"
    "\<And>c. c < lstart s \<Longrightarrow> free_block sb s' c \<longleftrightarrow> free_block sb s c \<and> c \<noteq> b"
    "\<And>x. x \<noteq> bitmap sb \<Longrightarrow> x \<noteq> b \<Longrightarrow> x \<notin> W \<Longrightarrow> home s' x = home s x"
  using assms touchesD(6) [of s "{bitmap sb, b} \<union> W" s'] by (auto simp: alloc_post_def)

end
