(* ===== verification/Fs_Map.thy ===== *)
theory Fs_Map
  imports Fs_Alloc
begin

text \<open>
  The block map of a file (\<open>bmap\<close> of \<open>src/fs.c\<close>): direct and indirect addresses, and what allocating a missing block
  does to the map of the file, to the bitmap and to every other block.
\<close>

section \<open>Holding one buffer\<close>

definition holding :: "'a lst_scheme \<Rightarrow> u32 set \<Rightarrow> nat \<Rightarrow> u32 \<Rightarrow> 'a lst_scheme \<Rightarrow> bool" where
  "holding s W bp sec s' \<longleftrightarrow> tx s' \<and> moved s s' \<and> bp \<notin> held s \<and> held s' = insert bp (held s) \<and> bsector (bufs s' bp) = sec \<and>
    (\<forall>i \<in> held s. bsector (bufs s' i) = bsector (bufs s i)) \<and> set (logged s') \<subseteq> set (logged s) \<union> W \<and>
    (\<forall>x. x \<notin> W \<longrightarrow> home s' x = home s x)"

lemma holding_mono: "holding s W bp sec t \<Longrightarrow> W \<subseteq> W' \<Longrightarrow> holding s W' bp sec t"
  unfolding holding_def by blast

lemma holding_touches: "holding s W bp sec t \<Longrightarrow> touches t W u \<Longrightarrow> holding s W bp sec u"
  unfolding holding_def touches_def using moved_trans by (auto 4 3)

lemma holding_data: "holding s W bp sec t \<Longrightarrow> bget_data bp t = Inr (home t sec, t)"
  using tx_data(1) [of t bp] by (auto simp: holding_def bget_data_def kget_def)

lemma holding_sectors: "holding s W bp sec t \<Longrightarrow> sectors t = insert sec (sectors s)"
  by (auto simp: holding_def sectors_def)

lemma hold_run:
  assumes "tx s" "sec < lstart s" "sec \<notin> sectors s" "room s X n (Suc k)"
  shows "\<exists>bp s'. bread 1 sec s = Inr (bp, s') \<and> holding s {} bp sec s' \<and> home s' = home s \<and> lst.more s' = lst.more s \<and> room s' X n k"
proof -
  have a: "\<forall>b \<in> held s. bsector (bufs s b) \<noteq> sec" using assms(3) by (auto simp: sectors_def)
  have "nlog s + card (held s) < NBUF" using room_use(2) [OF assms(4)] by simp
  from tx_bread [OF assms(1,2) a this] obtain bp s' where
    b: "bread 1 sec s = Inr (bp, s')" "tx s'" "evolves s s'" "home s' = home s" "logged s' = logged s" "bp \<notin> held s"
    "held s' = insert bp (held s)" "bsector (bufs s' bp) = sec" "\<forall>i \<in> held s. bufs s' i = bufs s i" by blast
  have "room s' X n k" using assms(4) b(3,5,6,7) by (simp add: room_def evolves_def)
  moreover have "holding s {} bp sec s'" using b evolves_moved by (simp add: holding_def)
  ultimately show ?thesis using b(1,3,4) by (auto simp: evolves_def)
qed

lemma release_run:
  assumes "holding s W bp sec t"
  shows "\<exists>t'. brelse bp t = Inr ((), t') \<and> touches s W t' \<and> home t' = home t \<and> lst.more t' = lst.more t"
proof -
  note h = assms [unfolded holding_def]
  from tx_brelse [of t bp] h obtain t' where
    t': "brelse bp t = Inr ((), t')" "tx t'" "evolves t t'" "home t' = home t" "logged t' = logged t" "held t' = held t - {bp}"
    "\<forall>i \<in> held t - {bp}. bufs t' i = bufs t i" by auto
  have "touches s W t'" unfolding touches_def using t' h moved_trans [OF _ evolves_moved [OF t'(3)]] by auto
  then show ?thesis using t' by (auto simp: evolves_def)
qed

lemma change_run:
  assumes "holding s W bp sec t" "room t X n k"
  shows "\<exists>t'. kthen (bset_data bp d) (kthen (log_write bp) (brelse bp)) t = Inr ((), t') \<and> touches s (insert sec W) t' \<and>
    home t' = (home t)(sec := d) \<and> lst.more t' = lst.more t"
proof -
  note h = assms(1) [unfolded holding_def]
  have "bp \<in> held t" using h by simp
  from tx_change [OF _ this, of d] room_use [OF assms(2)] h obtain t' where
    t': "kthen (bset_data bp d) (kthen (log_write bp) (brelse bp)) t = Inr ((), t')" "tx t'" "evolves t t'" "home t' = (home t)(sec := d)"
    "set (logged t') = insert sec (set (logged t))" "held t' = held t - {bp}"
    "\<forall>i \<in> held t - {bp}. bsector (bufs t' i) = bsector (bufs t i)" by auto
  have "touches s (insert sec W) t'" unfolding touches_def
    using t' h moved_trans [OF _ evolves_moved [OF t'(3)]] by auto
  then show ?thesis using t' by (auto simp: evolves_def)
qed

section \<open>An entry of the indirect block\<close>

abbreviation (input) ind_entry :: "u32 \<Rightarrow> u32 \<Rightarrow> nat \<Rightarrow> ('a lst_scheme, u32) km" where
  "ind_entry dev a k \<equiv>
    kbind (bread dev a) (\<lambda>bp.
    kbind (bget_data bp) (\<lambda>d.
    kbind (if get32 d (4 * k) = 0 then
             kbind (balloc dev) (\<lambda>addr.
             kbind (bget_data bp) (\<lambda>d.
             kthen (bset_data bp (put32 (4 * k) addr d))
            (kthen (log_write bp) (kret addr))))
           else kret (get32 d (4 * k))) (\<lambda>addr.
    kthen (brelse bp) (kret addr))))"

lemma ind_entry_old:
  assumes "tx s" "a < lstart s" "a \<notin> sectors s" "room s X n 1" "get32 (home s a) (4 * k) \<noteq> 0"
  shows "\<exists>s'. ind_entry 1 a k s = Inr (get32 (home s a) (4 * k), s') \<and> touches s {} s' \<and> lst.more s' = lst.more s"
proof -
  from hold_run [OF assms(1-3), of X n 0] assms(4) obtain bp t where
    t: "bread 1 a s = Inr (bp, t)" "holding s {} bp a t" "home t = home s" "lst.more t = lst.more s" by auto
  from release_run [OF t(2)] obtain t' where "brelse bp t = Inr ((), t')" "touches s {} t'" "lst.more t' = lst.more t" by blast
  then show ?thesis using t holding_data [OF t(2)] assms(5) by (simp add: kbind_Inr kret_def)
qed

lemma ind_entry_new:
  assumes tx: "tx s" and g: "fs_geom sb s" and a: "bitmap sb < a" "a < lstart s" "\<not> free_block sb s a" "get32 (home s a) (4 * k) = 0" "k < NINDIRECT"
    and h: "held s = {}" and f: "\<exists>b < lstart s. free_block sb s b" and X: "room s X (Suc n) 2" "{bitmap sb, a} \<subseteq> X"
  shows "\<exists>b s'. ind_entry 1 a k s = Inr (b, s') \<and> alloc_post sb {a} s b s' \<and> home s' a = put32 (4 * k) b (home s a)"
proof -
  have sec: "sectors s = {}" using h by (simp add: sectors_def)
  have "room s X (Suc n) (Suc 1)" using X(1) by (simp add: eval_nat_numeral)
  from hold_run [OF tx a(2) _ this] sec obtain bp t where
    t: "bread 1 a s = Inr (bp, t)" "holding s {} bp a t" "home t = home s" "lst.more t = lst.more s" "room t X (Suc n) 1" by auto
  have tt: "tx t" "lstart t = lstart s" "sectors t = {a}" using t(2) sec holding_sectors [OF t(2)] by (auto simp: holding_def moved_def)
  have gt: "fs_geom sb t" using g t(3) tt(2) by (simp add: fs_geom_def)
  have "\<exists>b s'. balloc 1 t = Inr (b, s') \<and> alloc_post sb {} t b s' \<and> room s' (insert b X) n 1"
    by (rule alloc_run [OF tt(1) gt _ _ _ t(5)]) (use f a X(2) fs_geomD(4) [OF g] in \<open>auto simp: tt t(3)\<close>)
  then obtain b u where u: "balloc 1 t = Inr (b, u)" "alloc_post sb {} t b u" "room u (insert b X) n 1" by blast
  note al = alloc_postD [OF u(2)]
  have nab: "a \<noteq> b" "a \<noteq> bitmap sb" using al(3) a(1,3) t(3) by auto
  have hu: "holding s {bitmap sb, b} bp a u" using holding_touches [OF holding_mono [OF t(2)] al(4)] by simp
  have du: "home u a = home s a" using al(9) [of a] nab t(3) by auto
  from change_run [OF hu u(3), of "put32 (4 * k) b (home s a)"] obtain v where
    v: "kthen (bset_data bp (put32 (4 * k) b (home s a))) (kthen (log_write bp) (brelse bp)) u = Inr ((), v)"
    "touches s {a, bitmap sb, b} v" "home v = (home u)(a := put32 (4 * k) b (home s a))" "lst.more v = lst.more u" by auto
  have "ind_entry 1 a k s = Inr (b, v)"
    using t(1,3) u(1) a(4) holding_data [OF t(2)] holding_data [OF hu] kthen_assoc3 [OF v(1), of "kret b"] du
    by (simp add: kbind_Inr kbind_assoc kret_def)
  moreover have "alloc_post sb {a} s b v"
  proof -
    have T: "touches s ({bitmap sb, b} \<union> {a}) v" using v(2) by (rule touches_mono) auto
    have m: "home v (bitmap sb) = home u (bitmap sb)" using v(3) nab by auto
    have "fs_geom sb v"
      by (rule geom_keep [OF al(6)])
        (use v(3) al(6) fs_geomD [OF al(6)] fs_geomD(7) [OF g a(2)] touchesD(7) [OF T] touchesD(7) [OF al(4)] tt(2) a(1,5) nab m
         in \<open>auto simp: fs_geom_def\<close>)
    then show ?thesis unfolding alloc_post_def
      using T al(1,2,3,7,8) v(3,4) al(5) t(3,4) tt(2) m nab by auto
  qed
  ultimately show ?thesis using v(3) by auto
qed

section \<open>The block map of a file\<close>

text \<open>The address of block \<open>bn\<close> of a file, zero when it has none.\<close>

definition faddr :: "dinode \<Rightarrow> (u32 \<Rightarrow> block) \<Rightarrow> nat \<Rightarrow> u32" where
  "faddr di H bn =
    (if bn < NDIRECT then di_addrs di ! bn
     else if di_addrs di ! NDIRECT = 0 then 0
     else get32 (H (di_addrs di ! NDIRECT)) (4 * (bn - NDIRECT)))"

definition map_ok :: "(nat \<Rightarrow> u32) \<Rightarrow> u32 \<Rightarrow> (u32 \<Rightarrow> bool) \<Rightarrow> bool" where
  "map_ok F a U \<longleftrightarrow> (\<forall>k < MAXFILE. F k \<noteq> 0 \<longrightarrow> U (F k) \<and> F k \<noteq> a) \<and> (a \<noteq> 0 \<longrightarrow> U a) \<and>
    (\<forall>j < MAXFILE. \<forall>k < MAXFILE. F j \<noteq> 0 \<longrightarrow> F j = F k \<longrightarrow> j = k)"

lemma map_ok_cong: "map_ok F a U \<Longrightarrow> (\<And>k. k < MAXFILE \<Longrightarrow> F' k = F k) \<Longrightarrow> (\<And>b. U b \<Longrightarrow> U' b) \<Longrightarrow> map_ok F' a U'"
  by (simp add: map_ok_def)

lemma map_ok_block:
  assumes "map_ok F a U" "\<And>b. U b \<Longrightarrow> U' b" "\<not> U b" "U' b" "b \<noteq> 0" "\<And>k. k < MAXFILE \<Longrightarrow> F' k = (if k = bn then b else F k)"
  shows "map_ok F' a U'"
  using assms unfolding map_ok_def by (smt (verit, best))

lemma map_ok_ind:
  assumes "map_ok F 0 U" "\<And>b. U b \<Longrightarrow> U' b" "\<not> U b" "U' b" "\<And>k. k < MAXFILE \<Longrightarrow> F' k = F k"
  shows "map_ok F' b U'"
  using assms unfolding map_ok_def by (smt (verit, best))

definition used :: "superblock \<Rightarrow> 'a lst_scheme \<Rightarrow> u32 \<Rightarrow> bool" where
  "used sb s b \<longleftrightarrow> bitmap sb < b \<and> b < lstart s \<and> \<not> free_block sb s b"

abbreviation fmap :: "'a fst_scheme \<Rightarrow> nat \<Rightarrow> nat \<Rightarrow> u32" where
  "fmap s ip \<equiv> faddr (idi (inodes s ip)) (home s)"

abbreviation find_ind :: "'a fst_scheme \<Rightarrow> nat \<Rightarrow> u32" where
  "find_ind s ip \<equiv> di_addrs (idi (inodes s ip)) ! NDIRECT"

text \<open>A cached inode whose blocks are data blocks in use, no block used twice.\<close>

definition file_ok :: "superblock \<Rightarrow> 'a fst_scheme \<Rightarrow> nat \<Rightarrow> bool" where
  "file_ok sb s ip \<longleftrightarrow> idev (inodes s ip) = 1 \<and> length (di_addrs (idi (inodes s ip))) = NDIRECT + 1 \<and>
    1 < IBLOCK (inum (inodes s ip)) \<and> IBLOCK (inum (inodes s ip)) < bitmap sb \<and>
    map_ok (fmap s ip) (find_ind s ip) (used sb s)"

lemma alloc_used:
  assumes "alloc_post sb W s b s'"
  shows "\<And>c. used sb s c \<Longrightarrow> used sb s' c" "\<not> used sb s b" "used sb s' b" "b \<noteq> 0"
  using alloc_postD [OF assms] touchesD(7) [OF alloc_postD(4) [OF assms]] by (auto simp: used_def)

text \<open>Giving a file a first indirect block does not change its map.\<close>

abbreviation set_addr :: "nat \<Rightarrow> nat \<Rightarrow> u32 \<Rightarrow> 'a fst_scheme \<Rightarrow> 'a fst_scheme" where
  "set_addr ip j b \<equiv> upd_di ip (\<lambda>di. di \<lparr> di_addrs := (di_addrs di)[j := b] \<rparr>)"

lemma upd_inode_above: "upd_inode ip f s = lst.more_update (\<lambda>_. lst.more (upd_inode ip f s)) s"
  by (cases s) (simp add: upd_inode_def)

lemma upd_inode_touches: "tx s \<Longrightarrow> touches s W (upd_inode ip f s)"
  using above_touches upd_inode_above by metis

lemma upd_inode_same [simp]:
  "home (upd_inode ip f s) = home s" "held (upd_inode ip f s) = held s" "lstart (upd_inode ip f s) = lstart s"
  "inodes (upd_inode ip f s) = (inodes s)(ip := f (inodes s ip))" "fst.more (upd_inode ip f s) = fst.more s"
  "lsize (upd_inode ip f s) = lsize s" "logged (upd_inode ip f s) = logged s" "sectors (upd_inode ip f s) = sectors s"
  "room (upd_inode ip f s) X n k = room s X n k" "fs_geom sb (upd_inode ip f s) = fs_geom sb s"
  "used sb (upd_inode ip f s) = used sb s"
proof -
  note a = above_same [of "\<lambda>_. lst.more (upd_inode ip f s)" s, folded upd_inode_above [of ip f s]]
  show h: "home (upd_inode ip f s) = home s" "held (upd_inode ip f s) = held s" "lstart (upd_inode ip f s) = lstart s"
    "lsize (upd_inode ip f s) = lsize s" "logged (upd_inode ip f s) = logged s" by (rule a)+
  show "inodes (upd_inode ip f s) = (inodes s)(ip := f (inodes s ip))" "fst.more (upd_inode ip f s) = fst.more s"
    by (simp_all add: upd_inode_def)
  show "sectors (upd_inode ip f s) = sectors s" unfolding sectors_def h a(5) ..
  show "room (upd_inode ip f s) X n k = room s X n k" unfolding room_def h ..
  show "fs_geom sb (upd_inode ip f s) = fs_geom sb s" unfolding fs_geom_def h ..
  show "used sb (upd_inode ip f s) = used sb s" unfolding used_def h ..
qed

lemma more_inodes: "lst.more s' = lst.more s \<Longrightarrow> inodes s' = inodes s \<and> fst.more s' = fst.more (s :: 'a fst_scheme)"
  by (cases s; cases s') simp

lemma add_ind:
  assumes "file_ok sb s ip" "find_ind s ip = 0" "alloc_post sb {} s b t" "s' = set_addr ip NDIRECT b t"
  shows "file_ok sb s' ip" "\<And>k. k < MAXFILE \<Longrightarrow> fmap s' ip k = fmap s ip k" "find_ind s' ip = b"
proof -
  note al = alloc_postD [OF assms(3)]
  have i: "inodes t = inodes s" using more_inodes [OF al(5)] by simp
  have len: "length (di_addrs (idi (inodes s ip))) = 13" using assms(1) by (simp add: file_ok_def)
  show ind: "find_ind s' ip = b" using len i by (simp add: assms(4))
  have z: "get32 (replicate BSIZE 0) (4 * j) = 0" if "j < NINDIRECT" for j using that by (simp add: get32_def)
  show F: "fmap s' ip k = fmap s ip k" if "k < MAXFILE" for k
    using that assms(2) len i z [of "k - NDIRECT"] al(7) by (simp add: faddr_def assms(4))
  have "map_ok (fmap s' ip) (find_ind s' ip) (used sb s')" unfolding ind
    by (rule map_ok_ind [where F = "fmap s ip" and U = "used sb s"])
      (use assms(1,2) alloc_used [OF assms(3)] F in \<open>auto simp: file_ok_def assms(4)\<close>)
  then show "file_ok sb s' ip" using assms(1) i len by (simp add: file_ok_def assms(4))
qed

lemma add_direct:
  assumes "file_ok sb s ip" "bn < NDIRECT" "alloc_post sb {} s b t" "s' = set_addr ip bn b t"
  shows "file_ok sb s' ip" "\<And>k. k < MAXFILE \<Longrightarrow> fmap s' ip k = (if k = bn then b else fmap s ip k)" "find_ind s' ip = find_ind s ip"
proof -
  note al = alloc_postD [OF assms(3)]
  have i: "inodes t = inodes s" using more_inodes [OF al(5)] by simp
  have len: "length (di_addrs (idi (inodes s ip))) = 13" using assms(1) by (simp add: file_ok_def)
  show ind: "find_ind s' ip = find_ind s ip" using assms(2) len i by (simp add: assms(4))
  have m: "map_ok (fmap s ip) (find_ind s ip) (used sb s)" using assms(1) by (simp add: file_ok_def)
  have "home t (find_ind s ip) = home s (find_ind s ip)" if "find_ind s ip \<noteq> 0"
  proof (rule al(9))
    have u: "used sb s (find_ind s ip)" using m that by (simp add: map_ok_def)
    then show "find_ind s ip \<noteq> bitmap sb" by (auto simp: used_def)
    show "find_ind s ip \<noteq> b" using u alloc_used(2) [OF assms(3)] by metis
  qed simp
  then show F: "fmap s' ip k = (if k = bn then b else fmap s ip k)" if "k < MAXFILE" for k
    using that assms(2) len i ind by (simp add: faddr_def assms(4))
  have "map_ok (fmap s' ip) (find_ind s' ip) (used sb s')" unfolding ind
    by (rule map_ok_block [OF m _ alloc_used(2) [OF assms(3)] _ alloc_used(4) [OF assms(3)] F])
      (use alloc_used [OF assms(3)] in \<open>simp_all add: assms(4)\<close>)
  then show "file_ok sb s' ip" using assms(1) i len by (simp add: file_ok_def assms(4))
qed

lemma add_indirect:
  assumes "file_ok sb s ip" "j < NINDIRECT" "find_ind s ip = a" "a \<noteq> 0" "alloc_post sb {a} s b s'" "fs_geom sb s"
    "home s' a = put32 (4 * j) b (home s a)"
  shows "file_ok sb s' ip" "\<And>k. k < MAXFILE \<Longrightarrow> fmap s' ip k = (if k = NDIRECT + j then b else fmap s ip k)" "find_ind s' ip = a"
proof -
  note al = alloc_postD [OF assms(5)]
  have i: "inodes s' = inodes s" using more_inodes [OF al(5)] by simp
  show ind: "find_ind s' ip = a" using assms(3) i by simp
  have m: "map_ok (fmap s ip) (find_ind s ip) (used sb s)" using assms(1) by (simp add: file_ok_def)
  have la: "length (home s a) = BSIZE" using m assms(3,4) fs_geomD(7) [OF assms(6)] by (simp add: map_ok_def used_def)
  show F: "fmap s' ip k = (if k = NDIRECT + j then b else fmap s ip k)" if "k < MAXFILE" for k
  proof (cases "k < NDIRECT")
    case True
    then show ?thesis by (simp add: faddr_def i)
  next
    case False
    then have "fmap s' ip k = get32 (put32 (4 * j) b (home s a)) (4 * (k - NDIRECT))"
      using assms(3,4,7) i by (simp add: faddr_def)
    also have "\<dots> = (if k = NDIRECT + j then b else get32 (home s a) (4 * (k - NDIRECT)))"
    proof -
      obtain l where l: "k = NDIRECT + l" using False le_Suc_ex [of NDIRECT k] by auto
      then have "l \<noteq> j \<Longrightarrow> 4 * l + 4 \<le> 4 * j \<or> 4 * j + 4 \<le> 4 * l" by arith
      then show ?thesis
        using assms(2) that l la get32_put32_apart [of "4 * j" "home s a" "4 * l" b] by auto
    qed
    finally show ?thesis using False assms(3,4) by (simp add: faddr_def)
  qed
  have "map_ok (fmap s' ip) (find_ind s' ip) (used sb s')" unfolding ind assms(3) [symmetric]
    by (rule map_ok_block [OF m _ alloc_used(2) [OF assms(5)] _ alloc_used(4) [OF assms(5)] F])
      (use alloc_used [OF assms(5)] in simp_all)
  then show "file_ok sb s' ip" using assms(1) i by (simp add: file_ok_def)
qed

section \<open>Running \<open>bmap\<close>\<close>

definition nfree :: "superblock \<Rightarrow> 'a lst_scheme \<Rightarrow> nat" where
  "nfree sb s = card {b. b < lstart s \<and> free_block sb s b}"

lemma alloc_nfree:
  assumes "alloc_post sb W s b s'"
  shows "nfree sb s = Suc (nfree sb s')"
proof -
  note al = alloc_postD [OF assms]
  have "{c. c < lstart s \<and> free_block sb s c} = insert b {c. c < lstart s' \<and> free_block sb s' c}"
    using al(2,3,8) touchesD(7) [OF al(4)] by auto
  moreover have "\<not> free_block sb s' b" using al(2,8) by blast
  ultimately show ?thesis unfolding nfree_def by simp
qed

lemma nfree_pos: "0 < nfree sb s \<Longrightarrow> \<exists>b < lstart s. free_block sb s b"
  by (auto simp: nfree_def card_gt_0_iff)

lemma alloc_room:
  assumes "alloc_post sb W s b s'" "room s X (Suc n) k" "insert (bitmap sb) W \<subseteq> X"
  shows "room s' (insert b X) n k"
  by (rule room_touches [OF room_insert [OF assms(2)] alloc_postD(4) [OF assms(1)]]) (use assms(3) in auto)

text \<open>Room in the log and free blocks for \<open>m\<close> more blocks of the file, and for its indirect block.\<close>

definition ready :: "superblock \<Rightarrow> 'a fst_scheme \<Rightarrow> nat \<Rightarrow> u32 set \<Rightarrow> nat \<Rightarrow> bool" where
  "ready sb s ip X m \<longleftrightarrow> (let n = m + (if find_ind s ip = 0 then 1 else 0) in
    bitmap sb \<in> X \<and> (find_ind s ip \<noteq> 0 \<longrightarrow> find_ind s ip \<in> X) \<and> room s X n 2 \<and> n \<le> nfree sb s)"

definition fblocks :: "'a fst_scheme \<Rightarrow> nat \<Rightarrow> u32 set" where
  "fblocks s ip = insert (find_ind s ip) (fmap s ip ` {..<MAXFILE}) - {0}"

text \<open>Only the addresses of the inode have changed.\<close>

definition attrs :: "inode \<Rightarrow> u32 \<times> u32 \<times> int \<times> bool \<times> bool \<times> u16 \<times> u16 \<times> u16 \<times> u16 \<times> u32" where
  "attrs x = (idev x, inum x, iref x, ibusy x, ivalid x,
     di_type (idi x), di_major (idi x), di_minor (idi x), di_nlink (idi x), di_size (idi x))"

definition same_inodes :: "nat \<Rightarrow> 'a fst_scheme \<Rightarrow> 'a fst_scheme \<Rightarrow> bool" where
  "same_inodes ip s s' \<longleftrightarrow> (\<forall>j. j \<noteq> ip \<longrightarrow> inodes s' j = inodes s j) \<and> attrs (inodes s' ip) = attrs (inodes s ip)"

definition mapped :: "superblock \<Rightarrow> 'a fst_scheme \<Rightarrow> nat \<Rightarrow> nat \<Rightarrow> u32 \<Rightarrow> 'a fst_scheme \<Rightarrow> bool" where
  "mapped sb s ip bn addr s' \<longleftrightarrow>
    touches s (insert (bitmap sb) ({find_ind s' ip, addr} - {0})) s' \<and> fs_geom sb s' \<and> file_ok sb s' ip \<and> addr \<noteq> 0 \<and>
    {find_ind s' ip, addr} - {0} \<subseteq> fblocks s ip \<union> {b. free_block sb s b \<and> b < lstart s} \<and>
    (\<forall>k < MAXFILE. fmap s' ip k = (if k = bn then addr else fmap s ip k)) \<and>
    same_inodes ip s s' \<and> fst.more s' = fst.more s \<and> (find_ind s ip \<noteq> 0 \<longrightarrow> find_ind s' ip = find_ind s ip) \<and>
    (if fmap s ip bn = 0 then home s' addr = replicate BSIZE 0
     else home s' addr = home s addr \<and> fmap s ip bn = addr \<and> inodes s' = inodes s) \<and>
    (\<forall>b. used sb s b \<longrightarrow> used sb s' b) \<and> (\<forall>b < lstart s. free_block sb s' b \<longrightarrow> free_block sb s b)"

lemma bmap_direct_old:
  assumes "tx s" "fs_geom sb s" "file_ok sb s ip" "bn < NDIRECT" "fmap s ip bn \<noteq> 0"
  shows "bmap ip bn s = Inr (fmap s ip bn, s)" "mapped sb s ip bn (fmap s ip bn) s"
proof -
  show "bmap ip bn s = Inr (fmap s ip bn, s)"
    using assms(4,5) by (simp add: bmap_def kbind_kget faddr_def kret_def)
  show "mapped sb s ip bn (fmap s ip bn) s"
    unfolding mapped_def using assms touches_refl [OF assms(1)] by (auto simp: fblocks_def same_inodes_def)
qed

lemma bmap_direct_new:
  assumes "tx s" "fs_geom sb s" "file_ok sb s ip" "held s = {}" "bn < NDIRECT" "fmap s ip bn = 0" "ready sb s ip X (Suc m)"
  shows "\<exists>addr s'. bmap ip bn s = Inr (addr, s') \<and> mapped sb s ip bn addr s' \<and> ready sb s' ip (insert addr X) m"
proof -
  define n where "n = m + (if find_ind s ip = 0 then 1 else 0)"
  have X: "bitmap sb \<in> X" "find_ind s ip \<noteq> 0 \<longrightarrow> find_ind s ip \<in> X" "room s X (Suc n) 2" "Suc n \<le> nfree sb s"
    using assms(7) by (auto simp: ready_def n_def)
  have sec: "sectors s = {}" using assms(4) by (simp add: sectors_def)
  have dev: "idev (inodes s ip) = 1" using assms(3) by (simp add: file_ok_def)
  from alloc_run [OF assms(1,2) nfree_pos, of X n] X sec room_weaken [OF X(3), of "Suc n" 1] obtain b t where
    t: "balloc 1 s = Inr (b, t)" "alloc_post sb {} s b t" by auto
  note al = alloc_postD [OF t(2)]
  note u = alloc_used [OF t(2)]
  let ?s' = "set_addr ip bn b t"
  note ad = add_direct [OF assms(3,5) t(2) refl]
  have i: "inodes t = inodes s" "fst.more t = fst.more s" using more_inodes [OF al(5)] by simp_all
  have "bmap ip bn s = Inr (b, ?s')"
    using assms(5,6) dev t(1) by (simp add: bmap_def kbind_kget faddr_def kbind_Inr kbind_kmod kret_def)
  moreover have T: "touches s {bitmap sb, b} ?s'"
    using touches_trans [OF _ upd_inode_touches] al(4) touchesD(1) [OF al(4)] by simp
  then have "touches s (insert (bitmap sb) ({find_ind ?s' ip, b} - {0})) ?s'" by (rule touches_mono) (use u(4) in auto)
  then have "mapped sb s ip bn b ?s'"
    unfolding mapped_def using ad al i u assms(6) by (auto simp: fblocks_def same_inodes_def attrs_def)
  moreover have "ready sb ?s' ip (insert b X) m"
    using X alloc_room [OF t(2) X(3)] alloc_nfree [OF t(2)] unfolding ready_def ad(3) n_def by (auto simp: nfree_def)
  ultimately show ?thesis by blast
qed

text \<open>The first half of the indirect case: the file gets an indirect block if it has none.\<close>

definition prepared :: "superblock \<Rightarrow> 'a fst_scheme \<Rightarrow> nat \<Rightarrow> u32 \<Rightarrow> 'a fst_scheme \<Rightarrow> bool" where
  "prepared sb s ip a t \<longleftrightarrow> touches s {bitmap sb, a} t \<and> fs_geom sb t \<and> file_ok sb t ip \<and> find_ind t ip = a \<and> a \<noteq> 0 \<and>
    (if find_ind s ip = 0 then free_block sb s a else a = find_ind s ip \<and> inodes t = inodes s) \<and> (\<forall>k < MAXFILE. fmap t ip k = fmap s ip k) \<and> same_inodes ip s t \<and>
    fst.more t = fst.more s \<and> (\<forall>b. used sb s b \<longrightarrow> used sb t b) \<and> (\<forall>b < lstart s. free_block sb t b \<longrightarrow> free_block sb s b)"

abbreviation (input) get_ind :: "nat \<Rightarrow> u32 \<Rightarrow> u32 \<Rightarrow> ('a fst_scheme, u32) km" where
  "get_ind ip dev addr \<equiv> (if addr = 0 then
     kbind (balloc dev) (\<lambda>addr.
     kthen (kmod (upd_di ip (\<lambda>di. di \<lparr> di_addrs := (di_addrs di)[NDIRECT := addr] \<rparr>))) (kret addr))
   else kret addr)"

lemma get_ind_run:
  assumes "tx s" "fs_geom sb s" "file_ok sb s ip" "held s = {}" "ready sb s ip X (Suc m)"
  shows "\<exists>a t. get_ind ip 1 (find_ind s ip) s = Inr (a, t) \<and> prepared sb s ip a t \<and> ready sb t ip (insert a X) (Suc m)"
proof (cases "find_ind s ip = 0")
  case False
  have "prepared sb s ip (find_ind s ip) s"
    unfolding prepared_def using assms(2,3) False touches_refl [OF assms(1)] by (auto simp: fblocks_def same_inodes_def)
  moreover have "insert (find_ind s ip) X = X" using assms(5) False by (auto simp: ready_def)
  ultimately show ?thesis using False assms(5) by (auto simp: kret_def)
next
  case True
  have X: "bitmap sb \<in> X" "room s X (Suc (Suc m)) 2" "Suc (Suc m) \<le> nfree sb s"
    using assms(5) True by (auto simp: ready_def)
  have sec: "sectors s = {}" using assms(4) by (simp add: sectors_def)
  from alloc_run [OF assms(1,2) nfree_pos, of X "Suc m"] X sec room_weaken [OF X(2), of "Suc (Suc m)" 1] obtain b u where
    u: "balloc 1 s = Inr (b, u)" "alloc_post sb {} s b u" by auto
  note al = alloc_postD [OF u(2)]
  note us = alloc_used [OF u(2)]
  let ?t = "set_addr ip NDIRECT b u"
  note ad = add_ind [OF assms(3) True u(2) refl]
  have i: "inodes u = inodes s" "fst.more u = fst.more s" using more_inodes [OF al(5)] by simp_all
  have "get_ind ip 1 (find_ind s ip) s = Inr (b, ?t)" using True u(1) by (simp add: kbind_Inr kbind_kmod kret_def)
  moreover have "touches s {bitmap sb, b} ?t"
    using touches_trans [OF _ upd_inode_touches] al(4) touchesD(1) [OF al(4)] by simp
  then have "prepared sb s ip b ?t"
    unfolding prepared_def using ad al i us True by (auto simp: same_inodes_def attrs_def)
  moreover have "ready sb ?t ip (insert b X) (Suc m)"
    using X alloc_room [OF u(2) X(2)] alloc_nfree [OF u(2)] us(4) unfolding ready_def ad(3) by (auto simp: nfree_def)
  ultimately show ?thesis by blast
qed

lemma same_inodes_trans: "same_inodes ip s t \<Longrightarrow> same_inodes ip t u \<Longrightarrow> same_inodes ip s u"
  by (simp add: same_inodes_def)

lemma file_ok_transfer:
  assumes "file_ok sb s ip" "inodes s' = inodes s" "home s' = home s" "lstart s' = lstart s"
  shows "file_ok sb s' ip"
proof -
  have "used sb s' = used sb s" using assms(3,4) by (simp add: used_def fun_eq_iff)
  then show ?thesis using assms by (simp add: file_ok_def)
qed

lemma fs_geom_transfer: "fs_geom sb s \<Longrightarrow> home s' = home s \<Longrightarrow> lstart s' = lstart s \<Longrightarrow> fs_geom sb s'"
  by (simp add: fs_geom_def)

lemma bmap_indirect_unfold:
  assumes "\<not> bn < NDIRECT" "bn < MAXFILE" "idev (inodes s ip) = 1" "get_ind ip 1 (find_ind s ip) s = Inr (a, t)"
  shows "bmap ip bn s = ind_entry 1 a (bn - NDIRECT) t"
proof -
  have "bn - NDIRECT < NINDIRECT" using assms(1,2) by simp
  then show ?thesis using assms(1)
    unfolding bmap_def kbind_kget assms(3) Let_def by (simp only: if_False if_True kbind_Inr [of "get_ind ip 1 (find_ind s ip)", OF assms(4)])
qed

lemma ready_ind:
  assumes "ready sb s ip X m" "find_ind s ip \<noteq> 0"
  shows "room s X m 2" "m \<le> nfree sb s" "bitmap sb \<in> X" "find_ind s ip \<in> X"
  using assms by (auto simp: ready_def)

lemma readyI:
  assumes "room s X m 2" "m \<le> nfree sb s" "bitmap sb \<in> X" "find_ind s ip \<in> X" "find_ind s ip \<noteq> 0"
  shows "ready sb s ip X m"
  using assms by (auto simp: ready_def)

lemma preparedD:
  assumes "prepared sb s ip a t"
  shows "touches s {bitmap sb, a} t" "fs_geom sb t" "file_ok sb t ip" "find_ind t ip = a" "a \<noteq> 0"
    "if find_ind s ip = 0 then free_block sb s a else a = find_ind s ip \<and> inodes t = inodes s" "\<And>k. k < MAXFILE \<Longrightarrow> fmap t ip k = fmap s ip k" "same_inodes ip s t"
    "fst.more t = fst.more s" "\<And>b. used sb s b \<Longrightarrow> used sb t b" "\<And>b. b < lstart s \<Longrightarrow> free_block sb t b \<Longrightarrow> free_block sb s b"
    "used sb t a" "map_ok (fmap t ip) a (used sb t)"
  using assms by (auto simp: prepared_def file_ok_def map_ok_def)

lemma bmap_indirect_old:
  assumes p: "prepared sb s ip a t" and r: "ready sb t ip X (Suc m)" and h: "held s = {}"
    and bn: "\<not> bn < NDIRECT" "bn < MAXFILE" "fmap s ip bn \<noteq> 0"
  shows "\<exists>s'. ind_entry 1 a (bn - NDIRECT) t = Inr (fmap s ip bn, s') \<and> mapped sb s ip bn (fmap s ip bn) s' \<and>
    ready sb s' ip (insert (fmap s ip bn) X) m"
proof -
  let ?x = "fmap s ip bn"
  note p = preparedD [OF p]
  note pt = touchesD [OF p(1)]
  note r = ready_ind [OF r, unfolded p(4), OF p(5)]
  have x: "get32 (home t a) (4 * (bn - NDIRECT)) = ?x"
    using p(7) [OF bn(2)] bn p(4,5) by (simp add: faddr_def)
  have xa: "?x \<noteq> a" "used sb t ?x" using p(13) p(7) [OF bn(2)] bn(2,3) by (auto simp: map_ok_def)
  have a: "a < lstart t" "a \<notin> sectors t" using p(12) pt(3) h by (simp_all add: used_def sectors_def)
  have "get32 (home t a) (4 * (bn - NDIRECT)) \<noteq> 0" unfolding x by (rule bn(3))
  from ind_entry_old [OF pt(1) a room_weaken [OF r(1)] this] obtain s' where
    s': "ind_entry 1 a (bn - NDIRECT) t = Inr (?x, s')" "touches t {} s'" "lst.more s' = lst.more t" unfolding x by auto
  have i: "inodes s' = inodes t" "fst.more s' = fst.more t" using more_inodes [OF s'(3)] by simp_all
  have hm: "home s' = home t" "lstart s' = lstart t" using touchesD(6,7) [OF s'(2)] by auto
  have T: "touches s {bitmap sb, a} s'" by (rule touches_trans [OF p(1) touches_mono [OF s'(2)]]) simp
  have "mapped sb s ip bn ?x s'"
    unfolding mapped_def
  proof (intro conjI)
    show "touches s (insert (bitmap sb) ({find_ind s' ip, ?x} - {0})) s'"
      by (rule touches_mono [OF T]) (use i p(4,5) in auto)
    show "fs_geom sb s'" "file_ok sb s' ip"
      by (rule fs_geom_transfer [OF p(2) hm], rule file_ok_transfer [OF p(3) i(1) hm])
    show "same_inodes ip s s'" using p(8) i(1) by (simp add: same_inodes_def)
    show "{find_ind s' ip, ?x} - {0} \<subseteq> fblocks s ip \<union> {b. free_block sb s b \<and> b < lstart s}"
      using i(1) p(4,6,12) bn(2) pt(7) by (auto simp: fblocks_def used_def split: if_splits)
    have "find_ind s ip \<noteq> 0" using bn by (auto simp: faddr_def)
    then show "if ?x = 0 then home s' ?x = replicate BSIZE 0 else home s' ?x = home s ?x \<and> ?x = ?x \<and> inodes s' = inodes s"
      using bn(3) hm(1) pt(6) [of ?x] xa p(6) i(1) by (auto simp: used_def)
  qed (use i hm p(4,6,7,9,10,11) bn in \<open>auto simp: used_def\<close>)
  moreover have "ready sb s' ip (insert ?x X) m"
  proof (rule readyI)
    show "room s' (insert ?x X) m 2" by (rule room_touches [OF room_insert [OF r(1)] s'(2)]) simp
  qed (use r i p(4,5) hm in \<open>auto simp: nfree_def\<close>)
  ultimately show ?thesis using s'(1) by blast
qed

lemma bmap_indirect_new:
  assumes p: "prepared sb s ip a t" and r: "ready sb t ip X (Suc m)" and h: "held s = {}"
    and bn: "\<not> bn < NDIRECT" "bn < MAXFILE" "fmap s ip bn = 0"
  shows "\<exists>b s'. ind_entry 1 a (bn - NDIRECT) t = Inr (b, s') \<and> mapped sb s ip bn b s' \<and> ready sb s' ip (insert b X) m"
proof -
  note p = preparedD [OF p]
  note pt = touchesD [OF p(1)]
  note r = ready_ind [OF r, unfolded p(4), OF p(5)]
  obtain j where j: "bn = NDIRECT + j" "j < NINDIRECT" using bn(1,2) le_Suc_ex [of NDIRECT bn] by auto
  have x: "get32 (home t a) (4 * j) = 0" using p(7) [OF bn(2)] bn(3) j p(4,5) by (simp add: faddr_def)
  have a: "bitmap sb < a" "a < lstart t" "\<not> free_block sb t a" using p(12) by (simp_all add: used_def)
  have "held t = {}" using pt(3) h by simp
  from ind_entry_new [OF pt(1) p(2) a x j(2) this nfree_pos r(1)] r(2-4) obtain b s' where
    s': "ind_entry 1 a j t = Inr (b, s')" "alloc_post sb {a} t b s'" "home s' a = put32 (4 * j) b (home t a)" by auto
  note al = alloc_postD [OF s'(2)]
  note us = alloc_used [OF s'(2)]
  note ad = add_indirect [OF p(3) j(2) p(4,5) s'(2) p(2) s'(3)]
  have i: "inodes s' = inodes t" "fst.more s' = fst.more t" using more_inodes [OF al(5)] by simp_all
  have T: "touches s {bitmap sb, b, a} s'"
    by (rule touches_trans [OF touches_mono [OF p(1)] touches_mono [OF al(4)]]) auto
  have "mapped sb s ip bn b s'"
    unfolding mapped_def
  proof (intro conjI)
    show "touches s (insert (bitmap sb) ({find_ind s' ip, b} - {0})) s'"
      by (rule touches_mono [OF T]) (use ad(3) p(5) us(4) in auto)
    show "same_inodes ip s s'" using p(8) i(1) by (simp add: same_inodes_def)
    show "{find_ind s' ip, b} - {0} \<subseteq> fblocks s ip \<union> {b. free_block sb s b \<and> b < lstart s}"
      using ad(3) p(6,11,12) pt(7) al(2,3) by (auto simp: used_def fblocks_def split: if_splits)
    show "find_ind s ip \<noteq> 0 \<longrightarrow> find_ind s' ip = find_ind s ip" using ad(3) p(6) by auto
    show "if fmap s ip bn = 0 then home s' b = replicate BSIZE 0
      else home s' b = home s b \<and> fmap s ip bn = b \<and> inodes s' = inodes s"
      using bn(3) al(7) by simp
    show "\<forall>k < MAXFILE. fmap s' ip k = (if k = bn then b else fmap s ip k)" using ad(2) p(7) j(1) by simp
    show "\<forall>c. used sb s c \<longrightarrow> used sb s' c" using us(1) p(10) by blast
    show "\<forall>c < lstart s. free_block sb s' c \<longrightarrow> free_block sb s c" using al(8) p(11) pt(7) by simp
  qed (use ad(1) al(6) us(4) i p(9) in auto)
  moreover have "ready sb s' ip (insert b X) m"
  proof (rule readyI)
    show "room s' (insert b X) m 2" by (rule alloc_room [OF s'(2) r(1)]) (use r in auto)
    show "m \<le> nfree sb s'" using alloc_nfree [OF s'(2)] r(2) by simp
  qed (use r p(5) in \<open>auto simp: ad(3)\<close>)
  moreover have "bn - NDIRECT = j" using j(1) by simp
  ultimately show ?thesis using s'(1) by metis
qed

lemma bmap_run:
  assumes "tx s" "fs_geom sb s" "file_ok sb s ip" "held s = {}" "bn < MAXFILE" "ready sb s ip X (Suc m)"
  shows "\<exists>addr s' X'. bmap ip bn s = Inr (addr, s') \<and> mapped sb s ip bn addr s' \<and> ready sb s' ip X' m \<and> addr \<in> X' \<and> X \<subseteq> X'"
proof (cases "bn < NDIRECT")
  case True
  show ?thesis
  proof (cases "fmap s ip bn = 0")
    case z: True
    from bmap_direct_new [OF assms(1-4) True z assms(6)] show ?thesis by blast
  next
    case False
    have "ready sb s ip (insert (fmap s ip bn) X) m"
      using assms(6) room_insert [of s X _ 2 "fmap s ip bn"] by (auto simp: ready_def Let_def split: if_splits)
    then show ?thesis using bmap_direct_old [OF assms(1-3) True False] by blast
  qed
next
  case False
  from get_ind_run [OF assms(1-4,6)] obtain a t where
    t: "get_ind ip 1 (find_ind s ip) s = Inr (a, t)" "prepared sb s ip a t" "ready sb t ip (insert a X) (Suc m)" by blast
  have "idev (inodes s ip) = 1" using assms(3) by (simp add: file_ok_def)
  note b = bmap_indirect_unfold [OF False assms(5) this t(1)]
  show ?thesis
  proof (cases "fmap s ip bn = 0")
    case True
    from bmap_indirect_new [OF t(2,3) assms(4) False assms(5) True] show ?thesis unfolding b by blast
  next
    case nz: False
    from bmap_indirect_old [OF t(2,3) assms(4) False assms(5) nz] show ?thesis unfolding b by blast
  qed
qed

end
