(* ===== verification/Fs_File.thy ===== *)
theory Fs_File
  imports Fs_Map
begin

text \<open>
  Reading and writing the content of a file (\<open>readi\<close>, \<open>writei\<close> of \<open>src/fs.c\<close>). The content is the sequence of
  bytes in the blocks of the file's map. A write stores its bytes and keeps every other byte of the file and every block
  that does not belong to the file; a read returns the stored bytes; and a write of the size that
  \<open>filewrite\<close> uses fits into the log and the buffer cache.
\<close>

section \<open>The bytes of a file\<close>

definition fbyte :: "'a fst_scheme \<Rightarrow> nat \<Rightarrow> nat \<Rightarrow> u8" where
  "fbyte s ip i = (let a = fmap s ip (i div BSIZE) in if a = 0 then 0 else home s a ! (i mod BSIZE))"

definition wrote :: "superblock \<Rightarrow> 'a fst_scheme \<Rightarrow> nat \<Rightarrow> nat \<Rightarrow> u8 list \<Rightarrow> 'a fst_scheme \<Rightarrow> bool" where
  "wrote sb s ip off bs s' \<longleftrightarrow>
    touches s (insert (bitmap sb) (fblocks s' ip)) s' \<and> fs_geom sb s' \<and> file_ok sb s' ip \<and> same_inodes ip s s' \<and>
    fst.more s' = fst.more s \<and> fblocks s ip \<subseteq> fblocks s' ip \<and>
    fblocks s' ip \<subseteq> fblocks s ip \<union> {b. free_block sb s b \<and> b < lstart s} \<and>
    (\<forall>k < MAXFILE. fmap s ip k \<noteq> 0 \<longrightarrow> fmap s' ip k = fmap s ip k) \<and>
    (\<forall>b < lstart s. free_block sb s' b \<longrightarrow> free_block sb s b) \<and>
    (\<forall>i. off \<le> i \<longrightarrow> i < off + length bs \<longrightarrow> fmap s' ip (i div BSIZE) \<noteq> 0) \<and>
    ((\<forall>i. off \<le> i \<longrightarrow> i < off + length bs \<longrightarrow> fmap s ip (i div BSIZE) \<noteq> 0) \<longrightarrow> inodes s' = inodes s) \<and>
    (\<forall>i < MAXFILE * BSIZE. fbyte s' ip i = (if off \<le> i \<and> i < off + length bs then bs ! (i - off) else fbyte s ip i))"

lemma wrote_refl: "tx s \<Longrightarrow> fs_geom sb s \<Longrightarrow> file_ok sb s ip \<Longrightarrow> wrote sb s ip off [] s"
  by (auto simp: wrote_def touches_refl same_inodes_def)

lemma wroteD:
  assumes "wrote sb s ip off bs s'"
  shows "touches s (insert (bitmap sb) (fblocks s' ip)) s'" "fs_geom sb s'" "file_ok sb s' ip" "same_inodes ip s s'"
    "fst.more s' = fst.more s" "fblocks s ip \<subseteq> fblocks s' ip"
    "fblocks s' ip \<subseteq> fblocks s ip \<union> {b. free_block sb s b \<and> b < lstart s}"
    "\<And>k. k < MAXFILE \<Longrightarrow> fmap s ip k \<noteq> 0 \<Longrightarrow> fmap s' ip k = fmap s ip k"
    "\<And>b. b < lstart s \<Longrightarrow> free_block sb s' b \<Longrightarrow> free_block sb s b"
    "\<And>i. off \<le> i \<Longrightarrow> i < off + length bs \<Longrightarrow> fmap s' ip (i div BSIZE) \<noteq> 0"
    "\<And>i. i < MAXFILE * BSIZE \<Longrightarrow> fbyte s' ip i = (if off \<le> i \<and> i < off + length bs then bs ! (i - off) else fbyte s ip i)"
    "(\<And>i. off \<le> i \<Longrightarrow> i < off + length bs \<Longrightarrow> fmap s ip (i div BSIZE) \<noteq> 0) \<Longrightarrow> inodes s' = inodes s"
  using assms unfolding wrote_def by blast+

lemma wroteI:
  assumes "touches s (insert (bitmap sb) (fblocks s' ip)) s'" "fs_geom sb s'" "file_ok sb s' ip" "same_inodes ip s s'"
    "fst.more s' = fst.more s" "fblocks s ip \<subseteq> fblocks s' ip"
    "fblocks s' ip \<subseteq> fblocks s ip \<union> {b. free_block sb s b \<and> b < lstart s}"
    "\<And>k. k < MAXFILE \<Longrightarrow> fmap s ip k \<noteq> 0 \<Longrightarrow> fmap s' ip k = fmap s ip k"
    "\<And>b. b < lstart s \<Longrightarrow> free_block sb s' b \<Longrightarrow> free_block sb s b"
    "\<And>i. off \<le> i \<Longrightarrow> i < off + length bs \<Longrightarrow> fmap s' ip (i div BSIZE) \<noteq> 0"
    "\<And>i. i < MAXFILE * BSIZE \<Longrightarrow> fbyte s' ip i = (if off \<le> i \<and> i < off + length bs then bs ! (i - off) else fbyte s ip i)"
    "(\<And>i. off \<le> i \<Longrightarrow> i < off + length bs \<Longrightarrow> fmap s ip (i div BSIZE) \<noteq> 0) \<Longrightarrow> inodes s' = inodes s"
  shows "wrote sb s ip off bs s'"
  using assms unfolding wrote_def by blast

lemma wrote_trans:
  assumes "wrote sb s ip off bs t" "wrote sb t ip (off + length bs) cs u" "off + length bs + length cs \<le> MAXFILE * BSIZE"
  shows "wrote sb s ip off (bs @ cs) u"
proof (rule wroteI)
  note a = wroteD [OF assms(1)]
  note b = wroteD [OF assms(2)]
  have L: "lstart t = lstart s" using touchesD(7) [OF a(1)] .
  show "touches s (insert (bitmap sb) (fblocks u ip)) u"
    by (rule touches_trans [OF touches_mono [OF a(1)] b(1)]) (use b(6) in blast)
  show "fblocks u ip \<subseteq> fblocks s ip \<union> {b. free_block sb s b \<and> b < lstart s}" using a(7,9) b(7) L by auto
  show "same_inodes ip s u" by (rule same_inodes_trans [OF a(4) b(4)])
  show "fmap u ip (i div BSIZE) \<noteq> 0" if "off \<le> i" "i < off + length (bs @ cs)" for i
  proof (cases "i < off + length bs")
    case True
    then have t: "fmap t ip (i div BSIZE) \<noteq> 0" using a(10) that(1) by blast
    have "i div BSIZE < MAXFILE" using that(2) assms(3) by simp
    then show ?thesis using b(8) t by simp
  next
    case False
    then show ?thesis using b(10) that(2) by simp
  qed
  show "fbyte u ip i = (if off \<le> i \<and> i < off + length (bs @ cs) then (bs @ cs) ! (i - off) else fbyte s ip i)"
    if "i < MAXFILE * BSIZE" for i
    using a(11) [OF that] b(11) [OF that] by (auto simp: nth_append)
  show "fmap u ip k = fmap s ip k" if "k < MAXFILE" "fmap s ip k \<noteq> 0" for k
    using a(8) [OF that] b(8) [OF that(1)] that(2) by simp
  show "free_block sb s b" if "b < lstart s" "free_block sb u b" for b using a(9) b(9) L that by simp
  show "fst.more u = fst.more s" "fblocks s ip \<subseteq> fblocks u ip" using a(5,6) b(5,6) by auto
  show "inodes u = inodes s" if old: "\<And>i. off \<le> i \<Longrightarrow> i < off + length (bs @ cs) \<Longrightarrow> fmap s ip (i div BSIZE) \<noteq> 0"
  proof -
    have "inodes t = inodes s" by (rule a(12)) (use old in auto)
    moreover have "inodes u = inodes t"
    proof (rule b(12))
      fix i
      assume i: "off + length bs \<le> i" "i < off + length bs + length cs"
      then have "i div BSIZE < MAXFILE" using assms(3) by simp
      then show "fmap t ip (i div BSIZE) \<noteq> 0" using a(8) old [of i] i by simp
    qed
    ultimately show ?thesis by simp
  qed
qed (use wroteD [OF assms(2)] in blast)+

section \<open>One block\<close>

lemma mappedD:
  assumes "mapped sb s ip bn addr s'"
  shows "touches s (insert (bitmap sb) ({find_ind s' ip, addr} - {0})) s'" "fs_geom sb s'" "file_ok sb s' ip" "addr \<noteq> 0"
    "{find_ind s' ip, addr} - {0} \<subseteq> fblocks s ip \<union> {b. free_block sb s b \<and> b < lstart s}"
    "\<And>k. k < MAXFILE \<Longrightarrow> fmap s' ip k = (if k = bn then addr else fmap s ip k)"
    "same_inodes ip s s'" "fst.more s' = fst.more s" "find_ind s ip \<noteq> 0 \<Longrightarrow> find_ind s' ip = find_ind s ip"
    "fmap s ip bn = 0 \<Longrightarrow> home s' addr = replicate BSIZE 0" "fmap s ip bn \<noteq> 0 \<Longrightarrow> home s' addr = home s addr \<and> fmap s ip bn = addr \<and> inodes s' = inodes s"
    "\<And>b. b < lstart s \<Longrightarrow> free_block sb s' b \<Longrightarrow> free_block sb s b"
  using assms by (auto simp: mapped_def)

lemma fblocksI: "k < MAXFILE \<Longrightarrow> fmap s ip k \<noteq> 0 \<Longrightarrow> fmap s ip k \<in> fblocks s ip" "find_ind s ip \<noteq> 0 \<Longrightarrow> find_ind s ip \<in> fblocks s ip"
  by (auto simp: fblocks_def)

lemma fblocksE:
  assumes "b \<in> fblocks s ip"
  obtains k where "k < MAXFILE" "b = fmap s ip k" "b \<noteq> 0" | "b = find_ind s ip" "b \<noteq> 0"
  using assms by (auto simp: fblocks_def)

lemma mapped_blocks:
  assumes "mapped sb s ip bn addr s'" "bn < MAXFILE"
  shows "fblocks s ip \<subseteq> fblocks s' ip" "{find_ind s' ip, addr} - {0} \<subseteq> fblocks s' ip"
    "fblocks s' ip \<subseteq> fblocks s ip \<union> {b. free_block sb s b \<and> b < lstart s}"
proof -
  note m = mappedD [OF assms(1)]
  show "fblocks s ip \<subseteq> fblocks s' ip"
  proof
    fix b
    assume "b \<in> fblocks s ip"
    then show "b \<in> fblocks s' ip"
    proof (cases rule: fblocksE)
      case (1 k)
      then have "fmap s' ip k = b" using m(6) [of k] m(11) by (cases "k = bn") auto
      then show ?thesis using fblocksI(1) [of k s' ip] 1(1,3) by simp
    next
      case 2
      then show ?thesis using m(9) fblocksI(2) [of s' ip] by simp
    qed
  qed
  have "fmap s' ip bn = addr" using m(6) [OF assms(2)] by simp
  then show "{find_ind s' ip, addr} - {0} \<subseteq> fblocks s' ip"
    using fblocksI(1) [OF assms(2), of s' ip] fblocksI(2) [of s' ip] by blast
  show "fblocks s' ip \<subseteq> fblocks s ip \<union> {b. free_block sb s b \<and> b < lstart s}"
  proof
    fix b
    assume "b \<in> fblocks s' ip"
    then show "b \<in> fblocks s ip \<union> {b. free_block sb s b \<and> b < lstart s}"
    proof (cases rule: fblocksE)
      case (1 k)
      show ?thesis
      proof (cases "k = bn")
        case True
        then show ?thesis using 1 m(5) m(6) [OF 1(1)] by auto
      next
        case False
        then have "b = fmap s ip k" using 1 m(6) [OF 1(1)] by simp
        then show ?thesis using fblocksI(1) [OF 1(1), of s ip] 1(3) by simp
      qed
    next
      case 2
      then show ?thesis using m(5) by auto
    qed
  qed
qed

lemma mapped_addr:
  assumes "mapped sb s ip bn addr s'" "bn < MAXFILE"
  shows "used sb s' addr" "addr \<noteq> find_ind s' ip" "addr \<noteq> bitmap sb" "fmap s' ip bn = addr" "addr < lstart s'"
    "\<And>k. k < MAXFILE \<Longrightarrow> k \<noteq> bn \<Longrightarrow> fmap s ip k \<noteq> 0 \<Longrightarrow> fmap s ip k \<noteq> addr \<and> home s' (fmap s ip k) = home s (fmap s ip k)"
proof -
  note m = mappedD [OF assms(1)]
  have ok: "map_ok (fmap s' ip) (find_ind s' ip) (used sb s')" using m(3) by (simp add: file_ok_def)
  show a: "fmap s' ip bn = addr" using m(6) [OF assms(2)] by simp
  then show u: "used sb s' addr" and "addr \<noteq> find_ind s' ip" using ok assms(2) m(4) by (auto simp: map_ok_def)
  from u show "addr \<noteq> bitmap sb" "addr < lstart s'" by (auto simp: used_def)
  fix k
  assume k: "k < MAXFILE" "k \<noteq> bn" "fmap s ip k \<noteq> 0"
  have f: "fmap s' ip k = fmap s ip k" using m(6) [OF k(1)] k(2) by simp
  have nz: "fmap s' ip k \<noteq> 0" using k(3) f by simp
  have "used sb s' (fmap s' ip k)" "fmap s' ip k \<noteq> find_ind s' ip" using ok k(1) nz unfolding map_ok_def by blast+
  moreover have ne: "fmap s' ip k \<noteq> addr" using ok k(1,2) nz assms(2) a unfolding map_ok_def by metis
  ultimately have "home s' (fmap s' ip k) = home s (fmap s' ip k)"
    by (intro touchesD(6) [OF m(1)]) (auto simp: used_def)
  then show "fmap s ip k \<noteq> addr \<and> home s' (fmap s ip k) = home s (fmap s ip k)" using f ne by simp
qed

lemma store_wrote:
  assumes m: "mapped sb s ip bn addr t" and bn: "bn < MAXFILE" and T: "touches t {addr} u" "lst.more u = lst.more t"
    and h: "home u = (home t)(addr := bsplice o1 bs (home t addr))" and len: "o1 + length bs \<le> BSIZE"
  and ne: "bs \<noteq> []"
  shows "wrote sb s ip (bn * BSIZE + o1) bs u"
proof (rule wroteI)
  note md = mappedD [OF m]
  note mb = mapped_blocks [OF m bn]
  note ma = mapped_addr [OF m bn]
  have i: "inodes u = inodes t" "fst.more u = fst.more t" using more_inodes [OF T(2)] by simp_all
  have L: "lstart t = lstart s" "lstart u = lstart t" using touchesD(7) [OF md(1)] touchesD(7) [OF T(1)] by simp_all
  have F: "fmap u ip k = fmap t ip k" for k using h ma(2) i by (simp add: faddr_def)
  have fb: "fblocks u ip = fblocks t ip" using F i by (simp add: fblocks_def)
  have bm: "home u (bitmap sb) = home t (bitmap sb)" using h ma(3) by simp
  have us: "used sb u = used sb t" using bm L by (simp add: used_def fun_eq_iff)
  have la: "length (home t addr) = BSIZE" using fs_geomD(7) [OF md(2) ma(5)] .
  show "touches s (insert (bitmap sb) (fblocks u ip)) u"
    by (rule touches_trans [OF touches_mono [OF md(1)] touches_mono [OF T(1)]]) (use mb(2) md(4) fb in auto)
  have n1: "addr \<noteq> 1" using ma(1) fs_geomD(4) [OF md(2)] by (auto simp: used_def)
  show "fs_geom sb u"
  proof (rule geom_keep [OF md(2) L(2)])
    show "length (home u x) = BSIZE" if "x < lstart t" for x using fs_geomD(7) [OF md(2) that] h la len by simp
    show "\<not> free_block sb u b" if "b \<le> bitmap sb" for b unfolding bm using fs_geomD(8) [OF md(2)] that by (meson leD)
  qed (use h n1 in auto)
  show "file_ok sb u ip" using md(3) i(1) F us by (simp add: file_ok_def map_ok_def)
  show "same_inodes ip s u" using md(7) i by (simp add: same_inodes_def)
  show "fst.more u = fst.more s" using md(8) i by simp
  show "fblocks s ip \<subseteq> fblocks u ip" "fblocks u ip \<subseteq> fblocks s ip \<union> {b. free_block sb s b \<and> b < lstart s}" unfolding fb by (rule mb)+
  show "fmap u ip k = fmap s ip k" if "k < MAXFILE" "fmap s ip k \<noteq> 0" for k
    unfolding F using md(6) [OF that(1)] md(11) that(2) by auto
  show "free_block sb s b" if "b < lstart s" "free_block sb u b" for b using md(12) that unfolding bm by blast
  show "fmap u ip (i div BSIZE) \<noteq> 0" if "bn * BSIZE + o1 \<le> i" "i < bn * BSIZE + o1 + length bs" for i
  proof -
    have "i div BSIZE = bn" using that len by (intro div_nat_eqI) simp_all
    then show ?thesis unfolding F using ma(4) md(4) by simp
  qed
  show "inodes u = inodes s" if "\<And>i. bn * BSIZE + o1 \<le> i \<Longrightarrow> i < bn * BSIZE + o1 + length bs \<Longrightarrow> fmap s ip (i div BSIZE) \<noteq> 0"
  proof -
    have "0 < length bs" using ne by simp
    then have "o1 < BSIZE" using len by linarith
    then have "(bn * BSIZE + o1) div BSIZE = bn" by simp
    then have "fmap s ip bn \<noteq> 0" using that [of "bn * BSIZE + o1"] \<open>0 < length bs\<close> by simp
    then show ?thesis using md(11) i by simp
  qed
  show "fbyte u ip i = (if bn * BSIZE + o1 \<le> i \<and> i < bn * BSIZE + o1 + length bs then bs ! (i - (bn * BSIZE + o1)) else fbyte s ip i)"
    if i: "i < MAXFILE * BSIZE" for i
  proof (cases "i div BSIZE = bn")
    case True
    obtain r where r: "i mod BSIZE = r" "i = bn * BSIZE + r" "r < BSIZE"
    proof (rule that [OF refl])
      show "i = bn * BSIZE + i mod BSIZE" unfolding True [symmetric] by simp
    qed simp
    have b: "fbyte u ip i = bsplice o1 bs (home t addr) ! r" using True F ma(4) md(4) h r(1) by (simp add: fbyte_def)
    have "fbyte s ip i = home t addr ! r"
      using True md(4,10,11) r(1,3) by (cases "fmap s ip bn = 0") (auto simp: fbyte_def)
    then show ?thesis unfolding b using r(3) la len by (subst nth_splice) (auto simp: r(2))
  next
    case False
    have k: "i div BSIZE < MAXFILE" using i by simp
    have f: "fmap u ip (i div BSIZE) = fmap s ip (i div BSIZE)" using F md(6) [OF k] False by simp
    have e: "fbyte u ip i = fbyte s ip i"
      using f ma(6) [OF k False] h by (cases "fmap s ip (i div BSIZE) = 0") (auto simp: fbyte_def)
    have "\<not> (bn * BSIZE + o1 \<le> i \<and> i < bn * BSIZE + o1 + length bs)"
    proof
      assume "bn * BSIZE + o1 \<le> i \<and> i < bn * BSIZE + o1 + length bs"
      then have "i div BSIZE = bn" using len by (intro div_nat_eqI) simp_all
      then show False using False by simp
    qed
    then show ?thesis unfolding e by (subst if_not_P) simp_all
  qed
qed

section \<open>The loop of \<open>writei\<close>\<close>

text \<open>The number of blocks that \<open>n\<close> bytes from \<open>off\<close> lie in.\<close>

definition nblk :: "nat \<Rightarrow> nat \<Rightarrow> nat" where
  "nblk off n = (if n = 0 then 0 else (off + n - 1) div BSIZE - off div BSIZE + 1)"

lemma nblk_step:
  assumes "0 < n" "m = min n (BSIZE - off mod BSIZE)"
  shows "nblk off n = Suc (nblk (off + m) (n - m))"
proof -
  define q r where "q = off div BSIZE" and "r = off mod BSIZE"
  have off: "off = q * BSIZE + r" "r < BSIZE" unfolding q_def r_def by simp_all
  show ?thesis
  proof (cases "n \<le> BSIZE - r")
    case True
    then have "(off + n - 1) div BSIZE = q" using off assms(1) by (intro div_nat_eqI) auto
    then show ?thesis using True assms unfolding nblk_def q_def [symmetric] r_def [symmetric] by simp
  next
    case False
    then have m: "m = BSIZE - r" using assms(2) r_def by simp
    have o': "off + m = (q + 1) * BSIZE" using off m by simp
    have n': "0 < n - m" "off + m + (n - m) - 1 = off + n - 1" using False m by auto
    have d: "(off + m) div BSIZE = q + 1" unfolding o' by simp
    have "(off + m) div BSIZE \<le> (off + n - 1) div BSIZE" using False m by (intro div_le_mono) simp
    then show ?thesis using n' assms(1) d unfolding nblk_def n'(2) d q_def [symmetric] by simp
  qed
qed

lemma ready_transfer:
  assumes "ready sb s ip X m" "touches s W s'" "W \<subseteq> X" "home s' (bitmap sb) = home s (bitmap sb)" "inodes s' = inodes s"
  shows "ready sb s' ip X m"
  using assms room_touches [OF _ assms(2,3)] touchesD(7) [OF assms(2)] by (auto simp: ready_def nfree_def Let_def)

lemma ready_room: "ready sb s ip X m \<Longrightarrow> room s X m 2"
  by (auto simp: ready_def Let_def room_weaken split: if_splits)

text \<open>One turn of the loop.\<close>

lemma write_turn:
  assumes "tx s" "fs_geom sb s" "file_ok sb s ip" "held s = {}" "off div BSIZE < MAXFILE" "ready sb s ip X (Suc m)"
    "off mod BSIZE + length bs \<le> BSIZE" "bs \<noteq> []"
  shows "\<exists>addr s1 bp s2 d s3 X'. bmap ip (off div BSIZE) s = Inr (addr, s1) \<and> idev (inodes s1 ip) = 1 \<and> bread 1 addr s1 = Inr (bp, s2) \<and>
    bget_data bp s2 = Inr (d, s2) \<and> kthen (bset_data bp (bsplice (off mod BSIZE) bs d)) (kthen (log_write bp) (brelse bp)) s2 = Inr ((), s3) \<and>
    wrote sb s ip off bs s3 \<and> ready sb s3 ip X' m \<and> X \<subseteq> X'"
proof -
  let ?bn = "off div BSIZE" and ?o = "off mod BSIZE"
  from bmap_run [OF assms(1-6)] obtain addr s1 X' where
    1: "bmap ip ?bn s = Inr (addr, s1)" "mapped sb s ip ?bn addr s1" "ready sb s1 ip X' m" "addr \<in> X'" "X \<subseteq> X'" by blast
  note md = mappedD [OF 1(2)]
  note ma = mapped_addr [OF 1(2) assms(5)]
  have "addr \<notin> sectors s1" using touchesD(3) [OF md(1)] assms(4) by (simp add: sectors_def)
  from touch_modify [OF touchesD(1) [OF md(1)] ma(5) this room_weaken [OF ready_room [OF 1(3)]], of m "bsplice ?o bs (home s1 addr)"]
  obtain bp s2 s3 where 2: "bread 1 addr s1 = Inr (bp, s2)" "bget_data bp s2 = Inr (home s1 addr, s2)"
    "kthen (bset_data bp (bsplice ?o bs (home s1 addr))) (kthen (log_write bp) (brelse bp)) s2 = Inr ((), s3)"
    "touches s1 {addr} s3" "home s3 = (home s1)(addr := bsplice ?o bs (home s1 addr))" "lst.more s3 = lst.more s1" by auto
  have "wrote sb s ip (?bn * BSIZE + ?o) bs s3" by (rule store_wrote [OF 1(2) assms(5) 2(4,6,5) assms(7,8)])
  then have w: "wrote sb s ip off bs s3" by simp
  have "ready sb s3 ip X' m"
    by (rule ready_transfer [OF 1(3) 2(4)]) (use 1(4) 2(5) ma(3) more_inodes [OF 2(6)] in auto)
  moreover have "idev (inodes s1 ip) = 1" using md(3) by (simp add: file_ok_def)
  ultimately show ?thesis using 1 2 w by blast
qed

lemma writei_loop_run:
  "\<lbrakk>tx s; fs_geom sb s; file_ok sb s ip; held s = {}; off + length src \<le> MAXFILE * BSIZE; ready sb s ip X (m + nblk off (length src))\<rbrakk>
   \<Longrightarrow> \<exists>s' X'. writei_loop ip off src s = Inr ((), s') \<and> wrote sb s ip off src s' \<and> ready sb s' ip X' m \<and> X \<subseteq> X'"
proof (induction "length src" arbitrary: s off src X rule: less_induct)
  case less
  show ?case
  proof (cases "src = []")
    case True
    then show ?thesis using less.prems wrote_refl [OF less.prems(1-3)] by (auto simp: writei_loop.simps [of ip off] kret_def nblk_def)
  next
    case False
    define k where "k = min (length src) (BSIZE - off mod BSIZE)"
    have k: "0 < k" "k \<le> length src" "off mod BSIZE + k \<le> BSIZE" using False by (auto simp: k_def)
    have b: "nblk off (length src) = Suc (nblk (off + k) (length (drop k src)))"
      using nblk_step [of "length src" k off] False k_def by simp
    have bn: "off div BSIZE < MAXFILE" using less.prems(5) k by simp
    have tk: "off mod BSIZE + length (take k src) \<le> BSIZE" "take k src \<noteq> []" using k False by simp_all
    from write_turn [OF less.prems(1-4) bn less.prems(6) [unfolded b add_Suc_right] tk] obtain addr s1 bp s2 d s3 X' where
      1: "bmap ip (off div BSIZE) s = Inr (addr, s1)" "idev (inodes s1 ip) = 1" "bread 1 addr s1 = Inr (bp, s2)"
      "bget_data bp s2 = Inr (d, s2)"
      "kthen (bset_data bp (bsplice (off mod BSIZE) (take k src) d)) (kthen (log_write bp) (brelse bp)) s2 = Inr ((), s3)"
      "wrote sb s ip off (take k src) s3" "ready sb s3 ip X' (m + nblk (off + k) (length (drop k src)))" "X \<subseteq> X'" by blast
    note w = wroteD [OF 1(6)]
    note t = touchesD [OF w(1)]
    have "\<exists>s' X''. writei_loop ip (off + k) (drop k src) s3 = Inr ((), s') \<and> wrote sb s3 ip (off + k) (drop k src) s' \<and>
        ready sb s' ip X'' m \<and> X' \<subseteq> X''"
      by (rule less.hyps [OF _ t(1) w(2,3) _ _ 1(7)]) (use k t(3) less.prems(4,5) in auto)
    then obtain s' X'' where 2: "writei_loop ip (off + k) (drop k src) s3 = Inr ((), s')" "wrote sb s3 ip (off + k) (drop k src) s'"
      "ready sb s' ip X'' m" "X' \<subseteq> X''" by blast
    have "writei_loop ip off src s = writei_loop ip (off + k) (drop k src) s3"
      using False 1(1-4) kthen_assoc3 [OF 1(5), of "writei_loop ip (off + k) (drop k src)"]
      by (simp add: writei_loop.simps [of ip off src] kbind_Inr kbind_kget Let_def k_def [symmetric])
    moreover have "wrote sb s ip off (take k src @ drop k src) s'"
      by (rule wrote_trans [OF 1(6)]) (use 2(2) k less.prems(5) in auto)
    ultimately show ?thesis using 2(1,3,4) 1(8) by (metis append_take_drop_id order_trans)
  qed
qed

section \<open>Updating the inode\<close>

abbreviation iblk :: "'a fst_scheme \<Rightarrow> nat \<Rightarrow> u32" where
  "iblk s ip \<equiv> IBLOCK (inum (inodes s ip))"

definition synced :: "'a fst_scheme \<Rightarrow> nat \<Rightarrow> bool" where
  "synced s ip \<longleftrightarrow> get_dinode (home s (iblk s ip)) (ioff (inum (inodes s ip))) = idi (inodes s ip)"

lemma file_okD:
  assumes "file_ok sb s ip"
  shows "idev (inodes s ip) = 1" "length (di_addrs (idi (inodes s ip))) = NDIRECT + 1" "1 < iblk s ip" "iblk s ip < bitmap sb"
    "map_ok (fmap s ip) (find_ind s ip) (used sb s)" "\<And>b. b \<in> fblocks s ip \<Longrightarrow> used sb s b"
  using assms by (auto simp: file_ok_def fblocks_def map_ok_def)

lemma file_home_cong:
  assumes "file_ok sb s ip" "inodes s' = inodes s" "lstart s' = lstart s" "\<And>x. bitmap sb \<le> x \<Longrightarrow> home s' x = home s x"
  shows "\<And>k. fmap s' ip k = fmap s ip k" "fblocks s' ip = fblocks s ip" "file_ok sb s' ip"
    "\<And>i. i < MAXFILE * BSIZE \<Longrightarrow> fbyte s' ip i = fbyte s ip i"
proof -
  note f = file_okD [OF assms(1)]
  have ind: "home s' (find_ind s ip) = home s (find_ind s ip)" if "find_ind s ip \<noteq> 0"
    by (rule assms(4)) (use f(5) that in \<open>auto simp: map_ok_def used_def\<close>)
  show F: "fmap s' ip k = fmap s ip k" for k using ind assms(2) by (auto simp: faddr_def)
  show "fblocks s' ip = fblocks s ip" using F assms(2) by (simp add: fblocks_def)
  have "used sb s' = used sb s" using assms(3,4) by (simp add: used_def fun_eq_iff)
  then show "file_ok sb s' ip" using assms(1,2) F by (simp add: file_ok_def map_ok_def)
  show "fbyte s' ip i = fbyte s ip i" if "i < MAXFILE * BSIZE" for i
  proof -
    have k: "i div BSIZE < MAXFILE" using that by simp
    have "home s' (fmap s ip (i div BSIZE)) = home s (fmap s ip (i div BSIZE))" if "fmap s ip (i div BSIZE) \<noteq> 0"
      by (rule assms(4)) (use f(6) [OF fblocksI(1) [OF k that]] in \<open>simp add: used_def less_imp_le\<close>)
    then show ?thesis using F by (simp add: fbyte_def Let_def)
  qed
qed

lemma iupdate_run:
  assumes "tx s" "fs_geom sb s" "file_ok sb s ip" "held s = {}" "room s X n 1"
  shows "\<exists>s'. iupdate ip s = Inr ((), s') \<and> touches s {iblk s ip} s' \<and> lst.more s' = lst.more s \<and> fs_geom sb s' \<and> synced s' ip \<and>
    (\<forall>o'. o' + 64 \<le> BSIZE \<longrightarrow> o' + 64 \<le> ioff (inum (inodes s ip)) \<or> ioff (inum (inodes s ip)) + 64 \<le> o' \<longrightarrow>
      get_dinode (home s' (iblk s ip)) o' = get_dinode (home s (iblk s ip)) o')"
proof -
  let ?x = "inodes s ip"
  note f = file_okD [OF assms(3)]
  have lt: "iblk s ip < lstart s" using f(4) fs_geomD(5) [OF assms(2)] by (rule order.strict_trans)
  have "iblk s ip \<notin> sectors s" using assms(4) by (simp add: sectors_def)
  from touch_update [OF assms(1) lt this assms(5), of "put_dinode (ioff (inum ?x)) (idi ?x)"] obtain s' where
    s': "kbind (bread 1 (iblk s ip)) (\<lambda>b. kbind (bget_data b) (\<lambda>d. kthen (bset_data b (put_dinode (ioff (inum ?x)) (idi ?x) d))
        (kthen (log_write b) (brelse b)))) s = Inr ((), s')" "touches s {iblk s ip} s'"
      "home s' = (home s)(iblk s ip := put_dinode (ioff (inum ?x)) (idi ?x) (home s (iblk s ip)))" "lst.more s' = lst.more s" by blast
  have r: "iupdate ip s = Inr ((), s')" using s'(1) f(1) by (simp add: iupdate_def kbind_kget)
  have i: "inodes s' = inodes s" using more_inodes [OF s'(4)] by simp
  have len: "length (home s (iblk s ip)) = BSIZE" by (rule fs_geomD(7) [OF assms(2) lt])
  have off: "ioff (inum ?x) + 64 \<le> BSIZE" by simp
  have "synced s' ip" unfolding synced_def i using s'(3) get_put_dinode [of "ioff (inum ?x)" "home s (iblk s ip)" "idi ?x"] len off f(2) by simp
  moreover have "fs_geom sb s'"
  proof (rule touches_geom [OF assms(2) s'(2)])
    show "\<not> free_block sb s' b" if "b \<le> bitmap sb" for b
      using s'(3) f(4) fs_geomD(8) [OF assms(2)] that by (auto simp: not_le [symmetric])
    show "length (home s' x) = BSIZE" if "x \<in> {iblk s ip}" for x
      using that s'(3) len off f(2) by (auto simp: put_dinode_def)
  qed (use f(3) in auto)
  moreover have "get_dinode (home s' (iblk s ip)) o' = get_dinode (home s (iblk s ip)) o'"
    if "o' + 64 \<le> BSIZE" "o' + 64 \<le> ioff (inum ?x) \<or> ioff (inum ?x) + 64 \<le> o'" for o'
    using s'(3) get_put_dinode_apart [of "ioff (inum ?x)" "home s (iblk s ip)" o' "idi ?x"] len off f(2) that by simp
  ultimately show ?thesis using r s'(2,4) by blast
qed

section \<open>\<open>writei\<close>\<close>

definition contents :: "'a fst_scheme \<Rightarrow> nat \<Rightarrow> u8 list" where
  "contents s ip = map (fbyte s ip) [0..<unat (di_size (idi (inodes s ip)))]"

text \<open>A file between two operations: the inode on disk is the cached one and every block below its size exists.\<close>

definition file_inv :: "superblock \<Rightarrow> 'a fst_scheme \<Rightarrow> nat \<Rightarrow> bool" where
  "file_inv sb s ip \<longleftrightarrow> file_ok sb s ip \<and> synced s ip \<and> di_type (idi (inodes s ip)) \<noteq> T_DEV \<and>
    unat (di_size (idi (inodes s ip))) \<le> MAXFILE * BSIZE \<and>
    (\<forall>i < unat (di_size (idi (inodes s ip))). fmap s ip (i div BSIZE) \<noteq> 0)"

text \<open>The loop, seen from the whole file: what changes is the file, the bitmap and free blocks.\<close>

lemma wrote_frame:
  assumes "wrote sb s ip off bs s'" "x \<noteq> bitmap sb" "x \<notin> fblocks s ip" "\<not> free_block sb s x"
  shows "home s' x = home s x"
  by (rule touchesD(6) [OF wroteD(1) [OF assms(1)]]) (use wroteD(7) [OF assms(1)] assms(2-4) in blast)

lemma iblk_frame:
  assumes "file_ok sb s ip" "fs_geom sb s" "wrote sb s ip off bs s'"
  shows "home s' (iblk s ip) = home s (iblk s ip)"
proof (rule wrote_frame [OF assms(3)])
  note f = file_okD [OF assms(1)]
  show "iblk s ip \<noteq> bitmap sb" using f(4) by simp
  show "iblk s ip \<notin> fblocks s ip" using f(4) f(6) [of "iblk s ip"] by (auto simp: used_def)
  show "\<not> free_block sb s (iblk s ip)" using fs_geomD(8) [OF assms(2)] f(4) by (auto simp: less_le_not_le)
qed

text \<open>The effect of \<open>writei\<close>.\<close>

definition updated :: "superblock \<Rightarrow> 'a fst_scheme \<Rightarrow> nat \<Rightarrow> nat \<Rightarrow> u8 list \<Rightarrow> 'a fst_scheme \<Rightarrow> bool" where
  "updated sb s ip off bs s' \<longleftrightarrow> tx s' \<and> moved s s' \<and> held s' = held s \<and> fs_geom sb s' \<and> file_inv sb s' ip \<and>
    contents s' ip = take off (contents s ip) @ bs @ drop (off + length bs) (contents s ip) \<and>
    (\<forall>j. j \<noteq> ip \<longrightarrow> inodes s' j = inodes s j) \<and> fst.more s' = fst.more s \<and> inum (inodes s' ip) = inum (inodes s ip) \<and>
    (\<forall>x. x \<noteq> iblk s ip \<longrightarrow> x \<noteq> bitmap sb \<longrightarrow> x \<notin> fblocks s ip \<longrightarrow> \<not> free_block sb s x \<longrightarrow> home s' x = home s x) \<and>
    (\<forall>o'. o' + 64 \<le> BSIZE \<longrightarrow> o' + 64 \<le> ioff (inum (inodes s ip)) \<or> ioff (inum (inodes s ip)) + 64 \<le> o' \<longrightarrow>
      get_dinode (home s' (iblk s ip)) o' = get_dinode (home s (iblk s ip)) o') \<and>
    (\<forall>b < lstart s. free_block sb s' b \<longrightarrow> free_block sb s b)"

lemma same_attrs:
  assumes "same_inodes ip s s'"
  shows "di_size (idi (inodes s' ip)) = di_size (idi (inodes s ip))" "di_type (idi (inodes s' ip)) = di_type (idi (inodes s ip))"
    "inum (inodes s' ip) = inum (inodes s ip)" "\<And>j. j \<noteq> ip \<Longrightarrow> inodes s' j = inodes s j"
  using assms by (auto simp: same_inodes_def attrs_def)

lemma contents_splice:
  assumes "unat (di_size (idi (inodes s ip))) = n" "unat (di_size (idi (inodes s' ip))) = max n (off + length bs)" "off \<le> n"
    "max n (off + length bs) \<le> MAXFILE * BSIZE"
    "\<And>i. i < MAXFILE * BSIZE \<Longrightarrow> fbyte s' ip i = (if off \<le> i \<and> i < off + length bs then bs ! (i - off) else fbyte s ip i)"
  shows "contents s' ip = take off (contents s ip) @ bs @ drop (off + length bs) (contents s ip)"
proof (rule nth_equalityI)
  show "length (contents s' ip) = length (take off (contents s ip) @ bs @ drop (off + length bs) (contents s ip))"
    using assms(1-3) by (auto simp: contents_def)
  fix i
  assume "i < length (contents s' ip)"
  then have i: "i < max n (off + length bs)" using assms(2) by (simp add: contents_def)
  then have "i < MAXFILE * BSIZE" using assms(4) by (rule order.strict_trans2)
  with i show "contents s' ip ! i = (take off (contents s ip) @ bs @ drop (off + length bs) (contents s ip)) ! i"
    using assms(1-3) assms(5) [of i] by (auto simp: contents_def nth_append)
qed

lemma set_size_file:
  assumes "file_ok sb s ip" "s' = upd_di ip (di_size_update (\<lambda>_. z)) s"
  shows "file_ok sb s' ip" "\<And>k. fmap s' ip k = fmap s ip k" "\<And>i. fbyte s' ip i = fbyte s ip i" "iblk s' ip = iblk s ip"
    "fblocks s' ip = fblocks s ip" "di_size (idi (inodes s' ip)) = z"
proof -
  show F: "fmap s' ip k = fmap s ip k" for k by (simp add: assms(2) faddr_def)
  show "file_ok sb s' ip" using assms(1) F by (simp add: file_ok_def map_ok_def assms(2))
  show "fbyte s' ip i = fbyte s ip i" for i using F by (simp add: fbyte_def assms(2) Let_def)
  show "fblocks s' ip = fblocks s ip" using F by (simp add: fblocks_def assms(2))
qed (simp_all add: assms(2))

lemma writei_grows:
  assumes "fs_geom sb s" "file_inv sb s ip" "held s = {}" "wrote sb s ip off bs s1" "room s1 X (Suc n) 2"
    "off \<le> unat (di_size (idi (inodes s ip)))" "unat z = off + length bs" "di_size (idi (inodes s ip)) < z" "off + length bs \<le> MAXFILE * BSIZE"
  shows "\<exists>s'. kthen (kmod (upd_di ip (di_size_update (\<lambda>_. z)))) (iupdate ip) s1 = Inr ((), s') \<and> updated sb s ip off bs s' \<and>
    room s' (insert (iblk s ip) X) n 2"
proof -
  have ok: "file_ok sb s ip" and ds: "di_type (idi (inodes s ip)) \<noteq> T_DEV"
    and dense: "\<And>i. i < unat (di_size (idi (inodes s ip))) \<Longrightarrow> fmap s ip (i div BSIZE) \<noteq> 0" using assms(2) by (auto simp: file_inv_def)
  note w = wroteD [OF assms(4)]
  note t = touchesD [OF w(1)]
  note at = same_attrs [OF w(4)]
  let ?s2 = "upd_di ip (di_size_update (\<lambda>_. z)) s1"
  note z = set_size_file [OF w(3) refl, of z]
  have T2: "touches s1 {} ?s2" by (rule upd_inode_touches [OF t(1)])
  have r2: "room ?s2 X (Suc n) 1" using room_weaken [OF assms(5)] by simp
  have "fs_geom sb ?s2" "held ?s2 = {}" using w(2) t(3) assms(3) by simp_all
  from iupdate_run [OF touchesD(1) [OF T2] this(1) z(1) this(2) r2] obtain s' where
    s': "iupdate ip ?s2 = Inr ((), s')" "touches ?s2 {iblk s ip} s'" "lst.more s' = lst.more ?s2" "fs_geom sb s'" "synced s' ip"
    "\<forall>o'. o' + 64 \<le> BSIZE \<longrightarrow> o' + 64 \<le> ioff (inum (inodes s ip)) \<or> ioff (inum (inodes s ip)) + 64 \<le> o' \<longrightarrow>
      get_dinode (home s' (iblk s ip)) o' = get_dinode (home s1 (iblk s ip)) o'"
    using at(3) by auto
  have i: "inodes s' = inodes ?s2" "fst.more s' = fst.more ?s2" using more_inodes [OF s'(3)] by simp_all
  have hs: "home s' x = home s1 x" if "x \<noteq> iblk s ip" for x using touchesD(6) [OF s'(2), of x] that by simp
  have bm: "bitmap sb \<noteq> iblk s ip" using file_okD(4) [OF ok] by simp
  have L: "lstart s' = lstart ?s2" using touchesD(7) [OF s'(2)] .
  have hc: "home s' x = home ?s2 x" if "bitmap sb \<le> x" for x using hs [of x] that file_okD(4) [OF ok] by (auto simp: not_le [symmetric])
  have c: "\<And>k. fmap s' ip k = fmap ?s2 ip k" "file_ok sb s' ip" "\<And>k. k < MAXFILE * BSIZE \<Longrightarrow> fbyte s' ip k = fbyte ?s2 ip k"
    by (rule file_home_cong [OF z(1) i(1) L]; use hc in blast)+
  have fb: "fbyte s' ip k = fbyte s1 ip k" if "k < MAXFILE * BSIZE" for k using c(3) [OF that] z(3) by simp
  have F: "fmap s' ip k = fmap s1 ip k" for k using c(1) z(2) by simp
  have size: "di_size (idi (inodes s' ip)) = z" using i(1) by simp
  have big: "unat (di_size (idi (inodes s ip))) < off + length bs" using assms(7,8) by (simp add: word_less_nat_alt)
  have "updated sb s ip off bs s'"
    unfolding updated_def
  proof (intro conjI allI impI)
    show "tx s'" by (rule touchesD(1) [OF s'(2)])
    show "moved s s'" using t(2) touchesD(2) [OF T2] touchesD(2) [OF s'(2)] moved_trans by blast
    show "held s' = held s" using t(3) touchesD(3) [OF s'(2)] by simp
    show "file_inv sb s' ip"
      unfolding file_inv_def size
    proof (intro conjI allI impI)
      show "di_type (idi (inodes s' ip)) \<noteq> T_DEV" using i(1) at(2) ds by simp
      fix k
      assume "k < unat z"
      then show "fmap s' ip (k div BSIZE) \<noteq> 0"
        unfolding F using w(8) [of "k div BSIZE"] w(10) [of k] dense [of k] assms(6,7,9) by (cases "off \<le> k") auto
    qed (use c(2) s'(5) assms(7,9) in auto)
    show "contents s' ip = take off (contents s ip) @ bs @ drop (off + length bs) (contents s ip)"
      by (rule contents_splice [OF refl]) (use size assms(6,7,9) big fb w(11) in auto)
    show "inodes s' j = inodes s j" if "j \<noteq> ip" for j using i(1) at(4) [OF that] that by simp
    show "home s' x = home s x" if "x \<noteq> iblk s ip" "x \<noteq> bitmap sb" "x \<notin> fblocks s ip" "\<not> free_block sb s x" for x
      using hs [OF that(1)] wrote_frame [OF assms(4) that(2-4)] by simp
    show "get_dinode (home s' (iblk s ip)) o' = get_dinode (home s (iblk s ip)) o'"
      if "o' + 64 \<le> BSIZE" "o' + 64 \<le> ioff (inum (inodes s ip)) \<or> ioff (inum (inodes s ip)) + 64 \<le> o'" for o'
      using s'(6) that iblk_frame [OF ok assms(1,4)] by metis
    show "free_block sb s b" if "b < lstart s" "free_block sb s' b" for b using w(9) that hs [OF bm] by simp
  qed (use s'(4) i at(3) w(5) in auto)
  moreover have "room s' (insert (iblk s ip) X) n 2"
    by (rule room_touches [OF room_insert s'(2)]) (use assms(5) in simp_all)
  ultimately show ?thesis using s'(1) by (auto simp: kbind_kmod)
qed

lemma writei_keeps:
  assumes "fs_geom sb s" "file_inv sb s ip" "wrote sb s ip off bs s1" "off + length bs \<le> unat (di_size (idi (inodes s ip)))"
  shows "updated sb s ip off bs s1"
proof -
  have ok: "file_ok sb s ip" and sy: "synced s ip" and sz: "unat (di_size (idi (inodes s ip))) \<le> MAXFILE * BSIZE"
    and dense: "\<And>i. i < unat (di_size (idi (inodes s ip))) \<Longrightarrow> fmap s ip (i div BSIZE) \<noteq> 0" using assms(2) by (auto simp: file_inv_def)
  note w = wroteD [OF assms(3)]
  note t = touchesD [OF w(1)]
  have i: "inodes s1 = inodes s" by (rule w(12)) (use dense assms(4) in auto)
  show ?thesis
    unfolding updated_def
  proof (intro conjI allI impI)
    have "synced s1 ip" using sy iblk_frame [OF ok assms(1,3)] i by (simp add: synced_def)
    moreover have "fmap s1 ip (k div BSIZE) \<noteq> 0" if "k < unat (di_size (idi (inodes s1 ip)))" for k
      using dense [of k] w(8) [of "k div BSIZE"] that i sz by simp
    ultimately show "file_inv sb s1 ip" using w(3) i assms(2) by (auto simp: file_inv_def)
    show "contents s1 ip = take off (contents s ip) @ bs @ drop (off + length bs) (contents s ip)"
      by (rule contents_splice [OF refl]) (use i assms(4) sz w(11) in auto)
    show "home s1 x = home s x" if "x \<noteq> bitmap sb" "x \<notin> fblocks s ip" "\<not> free_block sb s x" for x
      by (rule wrote_frame [OF assms(3) that])
  qed (use t w i iblk_frame [OF ok assms(1,3)] in auto)
qed

lemma writei_run:
  assumes "tx s" "fs_geom sb s" "file_inv sb s ip" "held s = {}" "off \<le> di_size (idi (inodes s ip))"
    "length src = unat n" "unat off + unat n \<le> MAXFILE * BSIZE" "ready sb s ip X (Suc m + nblk (unat off) (unat n))"
  shows "\<exists>s' X'. writei devsw ip src off n s = Inr (sint n, s') \<and> updated sb s ip (unat off) src s' \<and> room s' X' m 2"
proof -
  have ok: "file_ok sb s ip" and ds: "di_type (idi (inodes s ip)) \<noteq> T_DEV" using assms(3) by (auto simp: file_inv_def)
  have sum: "unat (off + n) = unat off + unat n" using assms(7) by (simp add: unat_word_ariths)
  then have no: "\<not> off + n < off" "\<not> MAXFILE * BSIZE < unat (off + n)" using assms(7) by (simp_all add: word_less_nat_alt)
  have "unat off + length src \<le> MAXFILE * BSIZE" using assms(6,7) by simp
  from writei_loop_run [OF assms(1,2) ok assms(4) this, of X "Suc m"] assms(6,8) obtain s1 X' where
    1: "writei_loop ip (unat off) src s = Inr ((), s1)" "wrote sb s ip (unat off) src s1" "ready sb s1 ip X' (Suc m)" by auto
  have sz: "di_size (idi (inodes s1 ip)) = di_size (idi (inodes s ip))" by (rule same_attrs(1) [OF wroteD(4) [OF 1(2)]])
  have run: "writei devsw ip src off n s = kthen (kwhen (n > 0 \<and> off + n > di_size (idi (inodes s ip)))
      (kthen (kmod (upd_di ip (di_size_update (\<lambda>_. off + n)))) (iupdate ip))) (kret (sint n)) s1"
    using ds assms(5,6) no 1(1) sz by (auto simp: writei_def kbind_kget kbind_Inr)
  have le: "unat off \<le> unat (di_size (idi (inodes s ip)))" using assms(5) by (simp add: word_le_nat_alt)
  show ?thesis
  proof (cases "n > 0 \<and> off + n > di_size (idi (inodes s ip))")
    case True
    have "unat (off + n) = unat off + length src" using sum assms(6) by simp
    from writei_grows [OF assms(2,3,4) 1(2) ready_room [OF 1(3)] le this] True assms(6,7) obtain s' where
      "kthen (kmod (upd_di ip (di_size_update (\<lambda>_. off + n)))) (iupdate ip) s1 = Inr ((), s')" "updated sb s ip (unat off) src s'"
      "room s' (insert (iblk s ip) X') m 2" by auto
    then show ?thesis unfolding run using True by (auto simp: kbind_Inr kret_def)
  next
    case False
    then have "unat off + length src \<le> unat (di_size (idi (inodes s ip)))"
      using sum le assms(6) by (auto simp: word_less_nat_alt not_less unat_eq_zero)
    moreover have "room s1 X' m 2" using room_weaken [OF ready_room [OF 1(3)]] by simp
    ultimately show ?thesis unfolding run using False writei_keeps [OF assms(2,3) 1(2)] by (auto simp: kret_def)
  qed
qed

section \<open>\<open>readi\<close>\<close>

lemma bmap_old_run:
  assumes "tx s" "fs_geom sb s" "file_ok sb s ip" "held s = {}" "bn < MAXFILE" "fmap s ip bn \<noteq> 0" "room s X n 1"
  shows "\<exists>s'. bmap ip bn s = Inr (fmap s ip bn, s') \<and> touches s {} s' \<and> lst.more s' = lst.more s"
proof (cases "bn < NDIRECT")
  case True
  then show ?thesis using bmap_direct_old(1) [OF assms(1-3) True assms(6)] touches_refl [OF assms(1)] by blast
next
  case False
  note f = file_okD [OF assms(3)]
  have a: "find_ind s ip \<noteq> 0" "fmap s ip bn = get32 (home s (find_ind s ip)) (4 * (bn - NDIRECT))"
    using False assms(6) by (auto simp: faddr_def split: if_splits)
  then have u: "find_ind s ip < lstart s" using f(5) by (simp add: map_ok_def used_def)
  have "get_ind ip 1 (find_ind s ip) s = Inr (find_ind s ip, s)" using a(1) by (simp add: kret_def)
  note b = bmap_indirect_unfold [OF False assms(5) f(1) this]
  have "find_ind s ip \<notin> sectors s" using assms(4) by (simp add: sectors_def)
  from ind_entry_old [OF assms(1) u this assms(7)] assms(6) show ?thesis unfolding b a(2) by auto
qed

lemma slice_bytes:
  assumes "fmap s ip (off div BSIZE) \<noteq> 0" "off mod BSIZE + k \<le> BSIZE" "length (home s (fmap s ip (off div BSIZE))) = BSIZE"
  shows "bslice (off mod BSIZE) k (home s (fmap s ip (off div BSIZE))) = map (fbyte s ip) [off..<off + k]"
proof (rule nth_equalityI)
  fix i
  assume "i < length (bslice (off mod BSIZE) k (home s (fmap s ip (off div BSIZE))))"
  then have i: "i < k" using assms(2,3) by simp
  define q r where "q = off div BSIZE" and "r = off mod BSIZE"
  have off: "off = q * BSIZE + r" "r + i < BSIZE" using i assms(2) unfolding q_def r_def by simp_all
  then have e: "off + i = (r + i) + q * BSIZE" by simp
  have "(off + i) div BSIZE = q" "(off + i) mod BSIZE = r + i"
    unfolding e using off(2) by (simp_all add: mod_mult_self1 del: add.assoc)
  then have "(off + i) div BSIZE = off div BSIZE" "(off + i) mod BSIZE = off mod BSIZE + i" by (simp_all add: q_def r_def)
  then show "bslice (off mod BSIZE) k (home s (fmap s ip (off div BSIZE))) ! i = map (fbyte s ip) [off..<off + k] ! i"
    using i assms by (simp add: bslice_def fbyte_def)
qed (use assms in simp)

lemma readi_loop_run:
  "\<lbrakk>tx s; fs_geom sb s; file_ok sb s ip; held s = {}; off + r \<le> MAXFILE * BSIZE; room s X n 1;
     \<And>i. off \<le> i \<Longrightarrow> i < off + r \<Longrightarrow> fmap s ip (i div BSIZE) \<noteq> 0\<rbrakk>
   \<Longrightarrow> \<exists>s'. readi_loop ip off r s = Inr (map (fbyte s ip) [off..<off + r], s') \<and> touches s {} s' \<and> lst.more s' = lst.more s"
proof (induction r arbitrary: s off rule: less_induct)
  case (less r)
  show ?case
  proof (cases "r = 0")
    case True
    then show ?thesis using touches_refl [OF less.prems(1)] by (auto simp: readi_loop.simps [of ip off] kret_def)
  next
    case False
    define k where "k = min r (BSIZE - off mod BSIZE)"
    have k: "0 < k" "k \<le> r" "off mod BSIZE + k \<le> BSIZE" using False by (auto simp: k_def)
    have bn: "off div BSIZE < MAXFILE" using less.prems(5) k by simp
    have nz: "fmap s ip (off div BSIZE) \<noteq> 0" using less.prems(7) [of off] False by simp
    from bmap_old_run [OF less.prems(1-4) bn nz less.prems(6)] obtain s1 where
      1: "bmap ip (off div BSIZE) s = Inr (fmap s ip (off div BSIZE), s1)" "touches s {} s1" "lst.more s1 = lst.more s" by blast
    let ?a = "fmap s ip (off div BSIZE)"
    have u: "?a < lstart s1" using file_okD(6) [OF less.prems(3) fblocksI(1) [OF bn nz]] touchesD(7) [OF 1(2)] by (simp add: used_def)
    have "?a \<notin> sectors s1" using touchesD(3) [OF 1(2)] less.prems(4) by (simp add: sectors_def)
    from hold_run [OF touchesD(1) [OF 1(2)] u this, of X n 0] room_touches [OF less.prems(6) 1(2)] obtain bp s2 where
      2: "bread 1 ?a s1 = Inr (bp, s2)" "holding s1 {} bp ?a s2" "home s2 = home s1" "lst.more s2 = lst.more s1" by auto
    from release_run [OF 2(2)] obtain s3 where
      3: "brelse bp s2 = Inr ((), s3)" "touches s1 {} s3" "home s3 = home s2" "lst.more s3 = lst.more s2" by blast
    have T: "touches s {} s3" by (rule touches_trans [OF 1(2) 3(2)])
    have h: "home s3 = home s" "lstart s3 = lstart s" "inodes s3 = inodes s" "lst.more s3 = lst.more s"
      using touchesD(6,7) [OF T] more_inodes [of s3 s] 1(3) 2(4) 3(4) by auto
    have fb: "fbyte s3 ip = fbyte s ip" by (rule ext) (simp add: fbyte_def h(1,3) Let_def)
    have "\<exists>s'. readi_loop ip (off + k) (r - k) s3 = Inr (map (fbyte s3 ip) [off + k..<off + k + (r - k)], s') \<and> touches s3 {} s' \<and> lst.more s' = lst.more s3"
    proof (rule less.IH)
      show "file_ok sb s3 ip" "fs_geom sb s3"
        by (rule file_ok_transfer [OF less.prems(3) h(3,1,2)], rule fs_geom_transfer [OF less.prems(2) h(1,2)])
      show "room s3 X n 1" by (rule room_touches [OF less.prems(6) T]) simp
      show "tx s3" "held s3 = {}" using touchesD(1,3) [OF T] less.prems(4) by simp_all
      show "fmap s3 ip (i div BSIZE) \<noteq> 0" if "off + k \<le> i" "i < off + k + (r - k)" for i
        using less.prems(7) [of i] that k(2) h by simp
    qed (use k less.prems(5) in simp_all)
    then obtain s' where 4: "readi_loop ip (off + k) (r - k) s3 = Inr (map (fbyte s ip) [off + k..<off + r], s')"
      "touches s3 {} s'" "lst.more s' = lst.more s3" unfolding fb using k(2) by auto
    have "bslice (off mod BSIZE) k (home s ?a) = map (fbyte s ip) [off..<off + k]"
      by (rule slice_bytes [OF nz]) (use k fs_geomD(7) [OF less.prems(2)] u touchesD(7) [OF 1(2)] in simp_all)
    moreover have "[off..<off + r] = [off..<off + k] @ [off + k..<off + r]" using k(2) upt_add_eq_append [of off "off + k" "r - k"] by simp
    moreover have "readi_loop ip off r s = Inr (bslice (off mod BSIZE) k (home s ?a) @ map (fbyte s ip) [off + k..<off + r], s')"
      using False 1(1) 2(1) 3(1) 4(1) file_okD(1) [OF less.prems(3)] more_inodes [OF 1(3)] holding_data [OF 2(2)] 2(3) touchesD(6) [OF 1(2)]
      by (simp add: readi_loop.simps [of ip off r] kbind_Inr kbind_kget Let_def k_def [symmetric] kret_def)
    ultimately show ?thesis using touches_trans [OF T 4(2)] 4(3) h(4) by auto
  qed
qed

lemma readi_run:
  assumes "tx s" "fs_geom sb s" "file_inv sb s ip" "held s = {}" "off \<le> di_size (idi (inodes s ip))" "\<not> off + n < off" "room s X m 1"
  shows "\<exists>(k :: u32) s'. readi devsw ip off n s = Inr ((sint k, bslice (unat off) (unat n) (contents s ip)), s') \<and>
    unat k = length (bslice (unat off) (unat n) (contents s ip)) \<and> touches s {} s' \<and> lst.more s' = lst.more s"
proof -
  let ?z = "di_size (idi (inodes s ip))"
  have ok: "file_ok sb s ip" and ds: "di_type (idi (inodes s ip)) \<noteq> T_DEV" and sz: "unat ?z \<le> MAXFILE * BSIZE"
    and dense: "\<And>i. i < unat ?z \<Longrightarrow> fmap s ip (i div BSIZE) \<noteq> 0" using assms(3) by (auto simp: file_inv_def)
  have le: "unat off \<le> unat ?z" using assms(5) by (simp add: word_le_nat_alt)
  have sum: "unat (off + n) = unat off + unat n"
    using assms(6) by (metis no_olen_add_nat not_less word_le_nat_alt unat_plus_simple)
  define k where "k = (if off + n > ?z then ?z - off else n)"
  have k: "unat k = min (unat n) (unat ?z - unat off)"
    using le sum unat_minus_one by (auto simp: k_def word_less_nat_alt unat_sub_if_size min_def word_size)
  have "\<exists>s'. readi_loop ip (unat off) (unat k) s = Inr (map (fbyte s ip) [unat off..<unat off + unat k], s') \<and> touches s {} s' \<and> lst.more s' = lst.more s"
    by (rule readi_loop_run [OF assms(1,2) ok assms(4) _ assms(7)]) (use k le sz dense in auto)
  then obtain s' where s': "readi_loop ip (unat off) (unat k) s = Inr (map (fbyte s ip) [unat off..<unat off + unat k], s')"
    "touches s {} s'" "lst.more s' = lst.more s" by blast
  have c: "bslice (unat off) (unat n) (contents s ip) = map (fbyte s ip) [unat off..<unat off + unat k]"
    by (rule nth_equalityI) (use k le in \<open>auto simp: bslice_def contents_def\<close>)
  have "readi devsw ip off n s = Inr ((sint k, map (fbyte s ip) [unat off..<unat off + unat k]), s')"
    using ds assms(5,6) s'(1) by (auto simp: readi_def kbind_kget kbind_Inr kret_def k_def [symmetric] Let_def)
  moreover have "unat k = length (map (fbyte s ip) [unat off..<unat off + unat k])" by simp
  ultimately show ?thesis using s'(2,3) unfolding c by blast
qed

end
