(* ===== verification/Log_Crash.thy ===== *)
theory Log_Crash
  imports Tx
begin

text \<open>
  Begin, commit, crash and recovery of the log: the block writes of a commit, what recovery makes of any
  prefix of them, and the atomicity of transactions.
\<close>

section \<open>Begin and commit\<close>

text \<open>Between transactions: nothing is locked or dirty and the header on disk says that the log is empty.\<close>

definition log_idle :: "'a lst_scheme \<Rightarrow> bool" where
  "log_idle s \<longleftrightarrow> quiet s \<and> log_geom s \<and> \<not> lbusy s \<and> lhn s = 0 \<and> (\<forall>i < NBUF. \<not> dirty (bufs s i)) \<and>
    get32 (disk s (lstart s)) 0 = 0 \<and> length (disk s (lstart s)) = BSIZE"

lemma begin_trans_run:
  assumes "log_idle s"
  shows "begin_trans s = Inr ((), s \<lparr> lbusy := True \<rparr>)" "trans_inv (disk s) (dtrace s) (s \<lparr> lbusy := True \<rparr>)"
proof -
  have i: "quiet s" "log_geom s" "\<not> lbusy s" "lhn s = 0" "\<forall>i < NBUF. \<not> dirty (bufs s i)"
    using assms by (auto simp: log_idle_def)
  show "begin_trans s = Inr ((), s \<lparr> lbusy := True \<rparr>)"
    using i(3) by (simp add: begin_trans_def kbind_kget kmod_def)
  have ok: "bcache_ok s" "\<forall>i < NBUF. \<not> busy (bufs s i)" using i(1) by (auto simp: quiet_def)
  have lg: "logged s = []" using i(4) by (simp add: logged_def)
  let ?s = "s \<lparr> lbusy := True \<rparr>"
  have "bcache_ok ?s" "log_geom ?s" "logged ?s = []"
    using ok(1) i(2) lg by (simp_all add: bcache_ok_def log_geom_def logged_def)
  then show "trans_inv (disk s) (dtrace s) ?s"
    using i(2,4,5) bcache_okD(5) [OF ok(1)] ok(2)
    by (intro trans_invI) (auto simp: log_geom_def intro: exI [of _ "[]"])
qed

text \<open>The writes that a commit makes.\<close>

definition commit_writes :: "'a lst_scheme \<Rightarrow> (u32 \<times> block) list" where
  "commit_writes s =
    (let h = head_block (lhn s) (logged s) (disk s (lstart s)) in
     if lhn s = 0 then []
     else (lstart s, h) # map (\<lambda>k. (logged s ! k, disk s (lsec (lstart s) k))) [0..<length (logged s)] @
          [(lstart s, head_block 0 [] h)])"

lemma quiet_lhn: "quiet (lhn_update f s) = quiet s"
  by (simp add: quiet_def bcache_ok_def)

lemma dirty_sectors_lhn: "dirty_sectors (lhn_update f s) = dirty_sectors s"
  by (simp add: dirty_sectors_def)

text \<open>The four steps of a commit with something to write.\<close>

lemma commit_body_run:
  assumes "trans_inv d0 t0 s" "\<forall>i < NBUF. \<not> busy (bufs s i)" "0 < lhn s"
  shows "\<exists>s'. kthen write_head (kthen install_trans (kthen (kmod (lhn_update (\<lambda>_. 0))) write_head)) s = Inr ((), s') \<and>
    quiet s' \<and> dtrace s' = dtrace s @ commit_writes s \<and> disk s' = apply_writes (commit_writes s) (disk s) \<and>
    log_geom s' \<and> lhn s' = 0 \<and> lstart s' = lstart s \<and> (\<forall>i < NBUF. \<not> dirty (bufs s' i))"
proof -
  note inv = trans_invD [OF assms(1)] and dirt = trans_inv_dirty [OF assms(1)] and len = logged_length [OF assms(1)]
  have q: "quiet s" using inv(1) assms(2) by (simp add: quiet_def)
  have vh: "view s (lstart s) = disk s (lstart s)" by (rule trans_inv_view_log [OF assms(1)]) simp
  let ?h = "head_block (lhn s) (logged s) (disk s (lstart s))" and ?ks = "[0..<nat (lhn s)]"
  from write_head_run [OF q inv(2) dirt(2)] vh obtain s1 where
    r1: "write_head s = Inr ((), s1)" and w1: "wrote s (lstart s) ?h s1" by auto
  have rest1: "same_rest s s1" and d1: "dirty_sectors s1 = set (logged s) - {lstart s}" "disk s1 = (disk s)(lstart s := ?h)"
    "dtrace s1 = dtrace s @ [(lstart s, ?h)]" "quiet s1" "\<exists>i < NBUF. \<not> dirty (bufs s1 i)"
    "\<forall>i < NBUF. dirty (bufs s1 i) \<longrightarrow> bufs s1 i = bufs s i"
    using w1 dirt(1) by (auto simp: wrote_def)
  note f1 = same_rest_lst [OF rest1] and g1 = same_rest_geom [OF rest1]
  have nth: "lhsector s ! k = logged s ! k" "logged s ! k \<in> set (logged s)" if "k < nat (lhn s)" for k
  proof -
    show "lhsector s ! k = logged s ! k" using that by (simp add: logged_def)
    show "logged s ! k \<in> set (logged s)" using that len(1) by (metis nth_mem)
  qed
  have nst: "logged s ! k \<noteq> lstart s" if "k < nat (lhn s)" for k using inv(7) [OF nth(2) [OF that]] by auto
  have mapn: "map (\<lambda>k. lhsector s ! k) ?ks = logged s"
    by (rule nth_equalityI) (use len(1) nth in auto)
  have "installable s1 [0..<nat (lhn s1)]"
    unfolding installable_def f1 g1 d1(1)
    using d1(4,5) inv(2,5,6,7) nth nst mapn by auto
  from install_trans_run [OF this] obtain s2 where
    r2: "install_trans s1 = Inr ((), s2)" and q2: "quiet s2" and rest2: "same_rest s1 s2"
    and t2: "dtrace s2 = dtrace s1 @ map (\<lambda>k. (lhsector s ! k, disk s1 (lsec (lstart s) k))) ?ks"
    and k2: "disk s2 = apply_writes (map (\<lambda>k. (lhsector s ! k, disk s1 (lsec (lstart s) k))) ?ks) (disk s1)"
    and d2: "dirty_sectors s2 = dirty_sectors s1 - (\<lambda>k. lhsector s ! k) ` set ?ks"
    and c2: "\<exists>i < NBUF. \<not> dirty (bufs s2 i)" and fr2: "\<forall>i < NBUF. dirty (bufs s2 i) \<longrightarrow> bufs s2 i = bufs s1 i"
    unfolding f1 by blast
  have m: "map (\<lambda>k. (lhsector s ! k, disk s1 (lsec (lstart s) k))) ?ks =
      map (\<lambda>k. (logged s ! k, disk s (lsec (lstart s) k))) [0..<length (logged s)]"
  proof -
    have "disk s1 (lsec (lstart s) k) = disk s (lsec (lstart s) k)" if "k < nat (lhn s)" for k
    proof -
      have "k + 1 < unat (lsize s)" using that inv(5) by simp
      from lsec_geom(3) [OF inv(2) this] have "lsec (lstart s) k \<noteq> lstart s" by (rule less_imp_neq [symmetric])
      then show ?thesis unfolding d1(2) by (rule fun_upd_other)
    qed
    then show ?thesis unfolding len(1) using nth(1) by (intro map_cong [OF refl]) simp
  qed
  have "set (logged s) = (\<lambda>k. lhsector s ! k) ` set ?ks" using arg_cong [OF mapn, of set] by simp
  then have d2': "dirty_sectors s2 = {}" using d2 d1(1) by auto
  let ?s3 = "lhn_update (\<lambda>_. 0) s2"
  note f2 = same_rest_lst [OF same_rest_trans [OF rest1 rest2]] and g2 = same_rest_geom [OF same_rest_trans [OF rest1 rest2]]
  have q3: "quiet ?s3" and g3: "log_geom ?s3" and c3: "\<exists>i < NBUF. \<not> dirty (bufs ?s3 i)"
    using q2 g2(1) inv(2) c2 by (simp_all add: quiet_lhn log_geom_def)
  have ls3: "lstart ?s3 = lstart s" "lhn ?s3 = 0" "logged ?s3 = []" using f2 by (simp_all add: logged_def)
  have "view ?s3 (lstart s) = disk ?s3 (lstart s)"
    by (rule quiet_view [OF q3]) (simp add: dirty_sectors_lhn d2')
  moreover have "disk s2 (lstart s) = ?h"
    unfolding k2 m using inv(7) by (subst apply_writes_outside) (unfold fst_index, auto simp: d1(2))
  ultimately have v3: "view ?s3 (lstart ?s3) = ?h" using ls3 by simp
  from write_head_run [OF q3 g3 c3] obtain s4 where
    r4: "write_head ?s3 = Inr ((), s4)" and w4: "wrote ?s3 (lstart s) (head_block 0 [] ?h) s4"
    unfolding v3 unfolding ls3 by auto
  have rest4: "same_rest ?s3 s4" using w4 by (simp add: wrote_def)
  note f4 = same_rest_lst [OF rest4] and g4 = same_rest_geom [OF rest4]
  have nodirty: "\<not> dirty (bufs s4 i)" if "i < NBUF" for i
  proof
    assume di: "dirty (bufs s4 i)"
    have "bufs s4 i = bufs s2 i" using w4 di that by (simp add: wrote_def)
    moreover from this di that fr2 d1(6) have "bufs s2 i = bufs s i" by metis
    ultimately show False using di that inv(9) d2' by (metis dirty_sectors_iff empty_iff)
  qed
  have run: "kthen write_head (kthen install_trans (kthen (kmod (lhn_update (\<lambda>_. 0))) write_head)) s = Inr ((), s4)"
    by (simp add: kbind_def r1 r2 kmod_def r4)
  have cw: "commit_writes s = (lstart s, ?h) # map (\<lambda>k. (logged s ! k, disk s (lsec (lstart s) k))) [0..<length (logged s)] @
      [(lstart s, head_block 0 [] ?h)]" using assms(3) by (simp add: commit_writes_def Let_def)
  have "dtrace s4 = dtrace s @ commit_writes s" "disk s4 = apply_writes (commit_writes s) (disk s)"
    using w4 t2 k2 d1(2,3) unfolding cw m by (simp_all add: wrote_def)
  then show ?thesis using run w4 g4 g3 f4 ls3 nodirty by (auto simp: wrote_def)
qed

lemma commit_trans_run:
  assumes "trans_inv d0 t0 s" "\<forall>i < NBUF. \<not> busy (bufs s i)"
    "get32 (disk s (lstart s)) 0 = 0" "length (disk s (lstart s)) = BSIZE"
  shows "\<exists>s'. commit_trans s = Inr ((), s') \<and> dtrace s' = dtrace s @ commit_writes s \<and>
    disk s' = apply_writes (commit_writes s) (disk s) \<and> log_idle s' \<and> lstart s' = lstart s"
proof (cases "0 < lhn s")
  case True
  from commit_body_run [OF assms(1,2) True] obtain t where t:
    "kthen write_head (kthen install_trans (kthen (kmod (lhn_update (\<lambda>_. 0))) write_head)) s = Inr ((), t)"
    "quiet t" "dtrace t = dtrace s @ commit_writes s" "disk t = apply_writes (commit_writes s) (disk s)"
    "log_geom t" "lhn t = 0" "lstart t = lstart s" "\<forall>i < NBUF. \<not> dirty (bufs t i)" by blast
  let ?h = "head_block (lhn s) (logged s) (disk s (lstart s))"
  let ?s = "t \<lparr> lbusy := False, woken := woken t @ [Chan_log] \<rparr>"
  have "commit_trans s = Inr ((), ?s)"
    unfolding commit_trans_def kbind_kget if_P [OF True]
      kbind_Inr [of "kthen write_head (kthen install_trans (kthen (kmod (lhn_update (\<lambda>_. 0))) write_head))", OF t(1)]
    by (simp add: wakeup_def kmod_def kbind_kmod)
  moreover have dl: "disk t (lstart s) = head_block 0 [] ?h"
    unfolding t(4) commit_writes_def using True by (simp add: Let_def)
  have len: "length (logged s) \<le> LOGSIZE" "lhn s \<le> int LOGSIZE" using logged_length [OF assms(1)] by auto
  have h: "length ?h = BSIZE" by (rule head_block_get(3)) (use assms(4) len True in auto)
  have "get32 (head_block 0 [] ?h) 0 = 0" "length (head_block 0 [] ?h) = BSIZE"
    using head_block_get(3,4) [OF h, of "[]" 0] by simp_all
  then have "log_idle ?s" using t dl
    by (simp add: log_idle_def quiet_def bcache_ok_def log_geom_def)
  ultimately show ?thesis using t by auto
next
  case False
  then have n: "lhn s = 0" using trans_invD(4) [OF assms(1)] by simp
  let ?s = "s \<lparr> lbusy := False, woken := woken s @ [Chan_log] \<rparr>"
  have "commit_trans s = Inr ((), ?s)"
    unfolding commit_trans_def kbind_kget using n by (simp add: wakeup_def kmod_def kbind_kmod)
  moreover have "logged s = []" using n by (simp add: logged_def)
  then have "\<not> dirty (bufs s i)" if "i < NBUF" for i using trans_invD(9) [OF assms(1) that] by auto
  then have "log_idle ?s" using trans_invD(1,2) [OF assms(1)] n assms(2-4)
    by (simp add: log_idle_def quiet_def bcache_ok_def log_geom_def)
  ultimately show ?thesis using n by (simp add: commit_writes_def)
qed

section \<open>Crashes\<close>

text \<open>The disk after the first \<open>k\<close> of the given writes.\<close>

definition crash_disk :: "nat \<Rightarrow> (u32 \<times> block) list \<Rightarrow> (u32 \<Rightarrow> block) \<Rightarrow> u32 \<Rightarrow> block" where
  "crash_disk k ws d = apply_writes (take k ws) d"

lemma recover_empty:
  assumes "get32 (d start) 0 = 0" "x < start"
  shows "recover_disk start d x = d x"
proof -
  have "x \<noteq> start" using assms(2) by auto
  then show ?thesis using assms(1) by (simp add: recover_disk_def Let_def)
qed

lemma recover_header:
  assumes "length h = BSIZE" "length secs \<le> LOGSIZE" "d start = head_block (int (length secs)) secs h" "distinct secs" "x < start"
  shows "recover_disk start d x = overlay start secs d x"
proof -
  note g = head_block_get [OF assms(1,2), of "int (length secs)"]
  have "nat (sint (get32 (d start) 0)) = length secs" using g(1) assms(2,3) by simp
  moreover have "map (\<lambda>k. (get32 (d start) (4 + 4 * k), d (lsec start k))) [0..<length secs] =
      map (\<lambda>k. (secs ! k, d (lsec start k))) [0..<length secs]"
    using g(2) assms(2,3) by auto
  ultimately have "recover_disk start d x = apply_writes (map (\<lambda>k. (secs ! k, d (lsec start k))) [0..<length secs]) d x"
    using less_imp_neq [OF assms(5)] unfolding recover_disk_def Let_def by (simp only: fun_upd_apply if_False)
  also have "\<dots> = overlay start secs d x"
    unfolding install_overlay [OF assms(4)] by (simp add: overlay_def Let_def)
  finally show ?thesis .
qed

lemma quiet_view_stored:
  assumes "trans_inv d0 t0 s" "\<forall>i < NBUF. \<not> busy (bufs s i)"
  shows "view s x = stored s x"
proof (cases "x \<in> set (logged s)")
  case True
  note inv = trans_invD [OF assms(1)]
  from inv(10) [OF True] assms(2) obtain i where i: "i < NBUF" "bdev (bufs s i) = 1" "bsector (bufs s i) = x" "dirty (bufs s i)"
    "bdata (bufs s i) = stored s x" by blast
  have "valid (bufs s i)" by (rule bcache_okD(4) [OF inv(1) i(1,4)])
  from view_cached [OF inv(1) i(1,2) this i(3)] i(5) show ?thesis by simp
next
  case False
  have "quiet s" using trans_invD(1) [OF assms(1)] assms(2) by (simp add: quiet_def)
  from quiet_view [OF this] False trans_inv_dirty(1) [OF assms(1)] show ?thesis by (simp add: stored_not_logged)
qed

text \<open>A crash in the middle of the installation: the header on disk is the committed one, and the blocks
  already copied have the contents of their log blocks.\<close>

lemma recover_committed:
  assumes "trans_inv d0 t0 s" "length (disk s (lstart s)) = BSIZE" "x < lstart s"
    "e = apply_writes (take j (map (\<lambda>k. (logged s ! k, disk s (lsec (lstart s) k))) [0..<length (logged s)]))
        ((disk s)(lstart s := head_block (lhn s) (logged s) (disk s (lstart s))))"
  shows "recover_disk (lstart s) e x = stored s x"
proof -
  note inv = trans_invD [OF assms(1)] and len = logged_length [OF assms(1)]
  let ?M = "map (\<lambda>k. (logged s ! k, disk s (lsec (lstart s) k))) [0..<length (logged s)]"
  let ?h = "head_block (lhn s) (logged s) (disk s (lstart s))"
  have sub: "fst ` set (take j ?M) \<subseteq> set (logged s)"
    using image_mono [OF set_take_subset, of fst j ?M] unfolding fst_index .
  have out: "e y = ((disk s)(lstart s := ?h)) y" if "y \<notin> set (logged s)" for y
    unfolding assms(4) by (rule apply_writes_outside) (use sub that in blast)
  have "lstart s \<notin> set (logged s)" using inv(7) by blast
  from out [OF this] have "e (lstart s) = ?h" unfolding fun_upd_same .
  moreover have "lhn s = int (length (logged s))" using len(1) inv(4) by simp
  ultimately have "e (lstart s) = head_block (int (length (logged s))) (logged s) (disk s (lstart s))" by (simp only:)
  moreover have "length (logged s) \<le> LOGSIZE" using len by linarith
  ultimately
  have "recover_disk (lstart s) e x = overlay (lstart s) (logged s) e x"
    using recover_header [OF assms(2) _ _ inv(6) assms(3)] by blast
  also have "\<dots> = overlay (lstart s) (logged s) (disk s) x"
  proof (cases "x \<in> set (logged s)")
    case True
    let ?k = "log_index x (logged s)"
    have "?k + 1 < unat (lsize s)" using True log_index_less_iff [of x "logged s"] len(1) inv(5) by simp
    from lsec_geom(3) [OF inv(2) this] have lt: "lstart s < lsec (lstart s) ?k" .
    then have "lsec (lstart s) ?k \<notin> set (logged s)" "lsec (lstart s) ?k \<noteq> lstart s"
      using inv(7) order.asym [OF lt] less_imp_neq [OF lt] by (blast, metis)
    then have "e (lsec (lstart s) ?k) = disk s (lsec (lstart s) ?k)"
      using out [of "lsec (lstart s) ?k"] by (simp only: fun_upd_other not_False_eq_True)
    then show ?thesis using True by (simp add: overlay_def Let_def log_index_less_iff)
  next
    case False
    have "e x = disk s x" using trans [OF out [OF False] fun_upd_other [OF less_imp_neq [OF assms(3)]]] .
    then show ?thesis using False by (simp add: overlay_def Let_def log_index_less_iff)
  qed
  finally show ?thesis by (simp add: stored_def)
qed

lemma recover_finished:
  assumes "trans_inv d0 t0 s" "length (disk s (lstart s)) = BSIZE" "x < lstart s" "0 < lhn s"
  shows "apply_writes (commit_writes s) (disk s) x = stored s x"
    "recover_disk (lstart s) (apply_writes (commit_writes s) (disk s)) x = stored s x"
proof -
  note inv = trans_invD [OF assms(1)] and len = logged_length [OF assms(1)]
  let ?M = "map (\<lambda>k. (logged s ! k, disk s (lsec (lstart s) k))) [0..<length (logged s)]"
  let ?h = "head_block (lhn s) (logged s) (disk s (lstart s))"
  let ?e = "apply_writes (commit_writes s) (disk s)"
  have e: "?e = (apply_writes ?M ((disk s)(lstart s := ?h)))(lstart s := head_block 0 [] ?h)"
    using assms(4) by (simp add: commit_writes_def Let_def)
  have ne: "x \<noteq> lstart s" using assms(3) by blast
  have "?e x = apply_writes ?M ((disk s)(lstart s := ?h)) x" unfolding e using ne by (rule fun_upd_other)
  also have "\<dots> = stored s x"
    unfolding install_overlay [OF inv(6)] using ne by (simp add: stored_def overlay_def Let_def)
  finally show 1: "?e x = stored s x" .
  have "length ?h = BSIZE" by (rule head_block_get(3)) (use assms(2,4) len in auto)
  from head_block_get(4) [OF this, of "[]" 0] have "get32 (?e (lstart s)) 0 = 0" unfolding e by simp
  from recover_empty [where d = ?e and start = "lstart s", OF this assms(3)] 1
  show "recover_disk (lstart s) ?e x = stored s x" by simp
qed

lemma recover_commit_prefix:
  assumes "trans_inv d0 t0 s" "length (disk s (lstart s)) = BSIZE" "x < lstart s" "0 < j" "0 < lhn s"
  shows "recover_disk (lstart s) (crash_disk j (commit_writes s) (disk s)) x = stored s x"
proof -
  let ?M = "map (\<lambda>k. (logged s ! k, disk s (lsec (lstart s) k))) [0..<length (logged s)]"
  let ?h = "head_block (lhn s) (logged s) (disk s (lstart s))"
  have cw: "commit_writes s = (lstart s, ?h) # ?M @ [(lstart s, head_block 0 [] ?h)]"
    using assms(5) by (simp add: commit_writes_def Let_def)
  obtain i where j: "j = Suc i" using assms(4) by (cases j) auto
  show ?thesis
  proof (cases "i \<le> length ?M")
    case True
    then have "take j (commit_writes s) = (lstart s, ?h) # take i ?M" unfolding cw j by simp
    then have "crash_disk j (commit_writes s) (disk s) = apply_writes (take i ?M) ((disk s)(lstart s := ?h))"
      unfolding crash_disk_def by (simp only: apply_writes_simps)
    from recover_committed [OF assms(1-3) this] show ?thesis .
  next
    case False
    then have "crash_disk j (commit_writes s) (disk s) = apply_writes (commit_writes s) (disk s)"
      unfolding crash_disk_def cw j by (simp del: apply_writes_simps)
    then show ?thesis using recover_finished(2) [OF assms(1-3,5)] by (simp only:)
  qed
qed

section \<open>Recovery\<close>

text \<open>After a boot the cache is clean. The log can be replayed when its header fits the log and lists home blocks.\<close>

definition fresh :: "'a lst_scheme \<Rightarrow> bool" where
  "fresh s \<longleftrightarrow> quiet s \<and> (\<forall>i < NBUF. \<not> dirty (bufs s i)) \<and> log_geom s \<and> \<not> lbusy s"

definition head_ok :: "u32 \<Rightarrow> u32 \<Rightarrow> (u32 \<Rightarrow> block) \<Rightarrow> bool" where
  "head_ok start sz d \<longleftrightarrow> length (d start) = BSIZE \<and> nat (sint (get32 (d start) 0)) < unat sz \<and>
    (\<forall>k < nat (sint (get32 (d start) 0)). get32 (d start) (4 + 4 * k) < start)"

lemma fresh_clean: "fresh s \<Longrightarrow> dirty_sectors s = {}" "fresh s \<Longrightarrow> view s x = disk s x"
  using quiet_view [of s x] by (auto simp: fresh_def dirty_sectors_def)

lemma all_clean: "\<forall>i < NBUF. \<not> dirty (bufs s i) \<Longrightarrow> \<exists>i < NBUF. \<not> dirty (bufs s i)"
  by (intro exI [of _ 0]) simp

lemma read_head_run:
  assumes "fresh s" "head_ok (lstart s) (lsize s) (disk s)"
  defines "n \<equiv> sint (get32 (disk s (lstart s)) 0)"
  defines "hs \<equiv> map (\<lambda>k. get32 (disk s (lstart s)) (4 + 4 * k)) [0..<nat n]"
  shows "\<exists>t. read_head s = Inr ((), t \<lparr> lhn := n, lhsector := hs @ drop (nat n) (lhsector s) \<rparr>) \<and> peeked s t"
proof -
  have f: "quiet s" "\<exists>i < NBUF. \<not> dirty (bufs s i)" "log_geom s" using assms(1) all_clean [of s] by (auto simp: fresh_def)
  from peek_run [OF f(1) lstart_geom [OF f(3)] f(2)] obtain b s1 t where r: "bread 1 (lstart s) s = Inr (b, s1)"
    "bread_post s (lstart s) b s1" "holds s1 b (lstart s)" "bdata (bufs s1 b) = view s (lstart s)" "brelse b s1 = Inr ((), t)" "peeked s t" by blast
  have le: "\<not> n > int LOGSIZE" using assms(2) f(3) by (auto simp: head_ok_def n_def log_geom_def)
  have busy: "busy (bufs s1 b)" using r(3) by (simp add: holds_def)
  have "same_rest s s1" using r(2) by (auto simp: bread_post_def same_rest_def)
  note s1 = same_rest_lst [OF this]
  have "brelse b (s1 \<lparr> lhn := n, lhsector := hs @ drop (nat n) (lhsector s1) \<rparr>) =
      Inr ((), t \<lparr> lhn := n, lhsector := hs @ drop (nat n) (lhsector s) \<rparr>)"
    using r(5) brelse_run [OF busy] brelse_run [of "s1 \<lparr> lhn := n, lhsector := hs @ drop (nat n) (lhsector s1) \<rparr>" b] busy s1(6)
    by (auto simp: upd_buf_def)
  then have "read_head s = Inr ((), t \<lparr> lhn := n, lhsector := hs @ drop (nat n) (lhsector s) \<rparr>)"
    using r(1,4) le f(3) fresh_clean(2) [OF assms(1)]
    by (simp add: read_head_def kbind_def kget_def bget_data_def kmod_def Let_def n_def hs_def log_geom_def)
  then show ?thesis using r(6) by blast
qed

text \<open>The state that \<open>read_head\<close> leaves can be installed.\<close>

lemma read_head_installable:
  assumes "fresh s" "head_ok (lstart s) (lsize s) (disk s)" "peeked s t"
  defines "n \<equiv> sint (get32 (disk s (lstart s)) 0)"
  defines "hs \<equiv> map (\<lambda>k. get32 (disk s (lstart s)) (4 + 4 * k)) [0..<nat n]"
  defines "t' \<equiv> t \<lparr> lhn := n, lhsector := hs @ drop (nat n) (lhsector s) \<rparr>"
  shows "installable t' [0..<nat n]" "\<forall>i < NBUF. \<not> dirty (bufs t' i)"
proof -
  have pk: "quiet t" "same_rest s t" "dirty_sectors t = dirty_sectors s" "\<exists>i < NBUF. \<not> dirty (bufs t i)"
    "\<forall>i < NBUF. dirty (bufs t i) \<longrightarrow> bufs t i = bufs s i" using assms(3) by (auto simp: peeked_def)
  note e = same_rest_lst [OF pk(2)]
  have c: "\<forall>i < NBUF. \<not> dirty (bufs s i)" using assms(1) by (simp add: fresh_def)
  then have ct: "\<forall>i < NBUF. \<not> dirty (bufs t i)" using pk(5) by metis
  then show "\<forall>i < NBUF. \<not> dirty (bufs t' i)" by (simp add: t'_def)
  have g: "log_geom s" using assms(1) by (simp add: fresh_def)
  have n: "nat n < unat (lsize s)" "nat n \<le> LOGSIZE" using assms(2) g by (auto simp: head_ok_def n_def log_geom_def)
  have "quiet t'" using pk(1) by (simp add: t'_def quiet_def bcache_ok_def)
  moreover have "log_geom t'" using g n(2) by (simp add: t'_def log_geom_def e hs_def)
  moreover have "dirty_sectors t' = {}" using ct by (auto simp: t'_def dirty_sectors_def)
  moreover have "k + 1 < unat (lsize t') \<and> lhsector t' ! k < lstart t'" if "k < nat n" for k
    using that n assms(2) by (simp add: t'_def e hs_def nth_append head_ok_def n_def)
  ultimately show "installable t' [0..<nat n]" unfolding installable_def using ct all_clean [OF ct] by (simp add: t'_def)
qed

definition recover_writes :: "u32 \<Rightarrow> (u32 \<Rightarrow> block) \<Rightarrow> (u32 \<times> block) list" where
  "recover_writes start d =
    map (\<lambda>k. (get32 (d start) (4 + 4 * k), d (lsec start k))) [0..<nat (sint (get32 (d start) 0))] @
    [(start, head_block 0 [] (d start))]"

lemma recover_disk_writes: "recover_disk start d = apply_writes (recover_writes start d) d"
  by (simp add: recover_disk_def recover_writes_def Let_def)

lemma recover_from_log_run:
  assumes "fresh s" "head_ok (lstart s) (lsize s) (disk s)"
  shows "\<exists>s'. recover_from_log s = Inr ((), s') \<and> disk s' = recover_disk (lstart s) (disk s) \<and> log_idle s' \<and>
    dtrace s' = dtrace s @ recover_writes (lstart s) (disk s)"
proof -
  let ?h = "disk s (lstart s)" and ?n = "sint (get32 (disk s (lstart s)) 0)"
  let ?hs = "map (\<lambda>k. get32 ?h (4 + 4 * k)) [0..<nat ?n]"
  let ?M = "map (\<lambda>k. (get32 ?h (4 + 4 * k), disk s (lsec (lstart s) k))) [0..<nat ?n]"
  from read_head_run [OF assms] obtain t where
    r1: "read_head s = Inr ((), t \<lparr> lhn := ?n, lhsector := ?hs @ drop (nat ?n) (lhsector s) \<rparr>)" and pk: "peeked s t" by blast
  define t' where "t' = t \<lparr> lhn := ?n, lhsector := ?hs @ drop (nat ?n) (lhsector s) \<rparr>"
  have "same_rest s t" using pk by (simp add: peeked_def)
  note e = same_rest_lst [OF this]
  note ins = read_head_installable [OF assms pk, folded t'_def]
  have t'n: "lhn t' = ?n" "lstart t' = lstart s" "disk t' = disk s" "lbusy t' = lbusy s"
    using pk e by (simp_all add: t'_def peeked_def)
  have m: "map (\<lambda>k. (lhsector t' ! k, disk t' (lsec (lstart t') k))) [0..<nat ?n] = ?M"
    unfolding t'n by (rule map_cong) (simp_all add: t'_def nth_append)
  have "installable t' [0..<nat (lhn t')]" using ins(1) t'n(1) by simp
  from install_trans_run [OF this, unfolded t'n(1) m] obtain u where u: "install_trans t' = Inr ((), u)" "quiet u" "same_rest t' u"
    "disk u = apply_writes ?M (disk s)" "\<forall>i < NBUF. dirty (bufs u i) \<longrightarrow> bufs u i = bufs t' i"
    "dtrace u = dtrace t' @ ?M" unfolding t'n by blast
  note eu = same_rest_lst [OF u(3)]
  define v where "v = u \<lparr> lhn := 0 \<rparr>"
  have cv: "\<forall>i < NBUF. \<not> dirty (bufs v i)" using u(5) ins(2) unfolding v_def by (simp add: ) metis
  have qv: "quiet v" using u(2) by (simp add: v_def quiet_def bcache_ok_def)
  have gv: "log_geom v" "lstart v = lstart s" "\<not> lbusy v"
    using ins(1) assms(1) e eu t'n(2,4) by (simp_all add: v_def installable_def log_geom_def fresh_def)
  have "lstart s \<notin> fst ` set ?M" using assms(2) by (auto simp: head_ok_def)
  then have "disk v (lstart s) = ?h" using u(4) apply_writes_outside by (simp add: v_def)
  moreover have "dirty_sectors v = {}" using cv by (auto simp: dirty_sectors_def)
  ultimately have vh: "view v (lstart v) = ?h" using quiet_view [OF qv] gv(2) by simp
  from write_head_run [OF qv gv(1) all_clean [OF cv]] obtain w where w: "write_head v = Inr ((), w)"
    "wrote v (lstart s) (head_block 0 [] ?h) w" using vh gv(2) by (auto simp: logged_def v_def)
  have "recover_from_log s = Inr ((), w)"
    using r1 u(1) w(1) by (simp add: recover_from_log_def kbind_def kmod_def t'_def [symmetric] v_def [symmetric])
  moreover have "disk w = recover_disk (lstart s) (disk s)"
    using w(2) u(4) by (simp add: wrote_def v_def recover_disk_def Let_def)
  moreover have "dtrace w = dtrace s @ recover_writes (lstart s) (disk s)"
    using w(2) u(6) pk by (simp add: wrote_def v_def t'_def peeked_def recover_writes_def)
  moreover have "log_idle w"
  proof -
    have rw: "same_rest v w" "disk w = (disk v)(lstart s := head_block 0 [] ?h)" "\<forall>i < NBUF. dirty (bufs w i) \<longrightarrow> bufs w i = bufs v i" "quiet w"
      using w(2) by (auto simp: wrote_def)
    have "\<forall>i < NBUF. \<not> dirty (bufs w i)" using rw(3) cv by metis
    moreover have "length ?h = BSIZE" using assms(2) by (simp add: head_ok_def)
    note hb = head_block_get(3,4) [OF this, of "[]" 0]
    ultimately show ?thesis using rw hb gv unfolding log_idle_def same_rest_lst [OF rw(1)] same_rest_geom [OF rw(1)]
      by (simp add: v_def)
  qed
  ultimately show ?thesis by blast
qed

lemma head_ok_empty: "length (d start) = BSIZE \<Longrightarrow> get32 (d start) 0 = 0 \<Longrightarrow> 0 < unat sz \<Longrightarrow> head_ok start sz d"
  by (simp add: head_ok_def)

lemma apply_writes_base: "x \<in> fst ` set ws \<or> d x = e x \<Longrightarrow> apply_writes ws d x = apply_writes ws e x"
proof (induction ws arbitrary: d e)
  case (Cons w ws)
  obtain y v where w: "w = (y, v)" by fastforce
  have "x \<in> fst ` set ws \<or> (d(y := v)) x = (e(y := v)) x" using Cons.prems w by auto
  from Cons.IH [of "d(y := v)" "e(y := v)", OF this] show ?case unfolding w apply_writes_simps .
qed simp

text \<open>A crash during recovery leaves a disk on which recovery does the same again.\<close>

lemma recover_prefix:
  assumes "log_geom s" "start = lstart s" "head_ok start (lsize s) d" "e = crash_disk k (recover_writes start d) d"
  shows "head_ok start (lsize s) e" "x < start \<Longrightarrow> recover_disk start e x = recover_disk start d x"
proof -
  let ?n = "nat (sint (get32 (d start) 0))"
  let ?M = "map (\<lambda>k. (get32 (d start) (4 + 4 * k), d (lsec start k))) [0..<?n]"
  have low: "y < start" if "y \<in> fst ` set ?M" for y using assms(3) that by (auto simp: head_ok_def)
  have above: "apply_writes (take j ?M) d y = d y" if "start \<le> y" for j y
  proof (rule apply_writes_outside)
    show "y \<notin> fst ` set (take j ?M)" using image_mono [OF set_take_subset, of fst j ?M] low [of y] that by force
  qed
  have "head_ok start (lsize s) e \<and> (x < start \<longrightarrow> recover_disk start e x = recover_disk start d x)"
  proof (cases "k \<le> length ?M")
    case True
    then have e: "e = apply_writes (take k ?M) d" by (simp add: assms(4) crash_disk_def recover_writes_def)
    have h: "e start = d start" unfolding e by (rule above) simp
    have "e (lsec start j) = d (lsec start j)" if "j < ?n" for j
    proof -
      have "j + 1 < unat (lsize s)" using assms(3) that by (simp add: head_ok_def)
      from lsec_geom(3) [OF assms(1) this] show ?thesis unfolding e assms(2) [symmetric] by (intro above) (rule less_imp_le)
    qed
    then have "recover_writes start e = recover_writes start d" by (simp add: recover_writes_def h)
    moreover have "apply_writes (recover_writes start d) e x = apply_writes (recover_writes start d) d x"
    proof (rule apply_writes_base)
      have "e x = d x" if "x \<notin> fst ` set ?M" unfolding e
        by (rule apply_writes_outside) (use that image_mono [OF set_take_subset, of fst k ?M] in blast)
      then show "x \<in> fst ` set (recover_writes start d) \<or> e x = d x" by (auto simp: recover_writes_def)
    qed
    ultimately show ?thesis using assms(3) h by (simp add: recover_disk_writes head_ok_def)
  next
    case False
    then have e: "e = recover_disk start d" by (simp add: assms(4) crash_disk_def recover_disk_writes recover_writes_def)
    have len: "length (d start) = BSIZE" using assms(3) by (simp add: head_ok_def)
    have h: "e start = head_block 0 [] (d start)" unfolding e recover_disk_def Let_def by (rule fun_upd_same)
    note hb = head_block_get(3,4) [OF len, of "[]" 0]
    have "head_ok start (lsize s) e" by (rule head_ok_empty) (use h hb assms(1) in \<open>auto simp: log_geom_def\<close>)
    moreover have "recover_disk start e x = e x" if "x < start" by (rule recover_empty) (use that h hb in auto)
    ultimately show ?thesis using e by auto
  qed
  then show "head_ok start (lsize s) e" "x < start \<Longrightarrow> recover_disk start e x = recover_disk start d x" by blast+
qed

text \<open>The header on disk stays well formed through the transaction and its commit.\<close>

lemma head_ok_commit:
  assumes "trans_inv d0 t0 s" "length (disk s (lstart s)) = BSIZE" "0 < j" "0 < lhn s"
  shows "head_ok (lstart s) (lsize s) (crash_disk j (commit_writes s) (disk s))" (is "head_ok _ _ ?d")
proof -
  note inv = trans_invD [OF assms(1)] and len = logged_length [OF assms(1)]
  let ?M = "map (\<lambda>k. (logged s ! k, disk s (lsec (lstart s) k))) [0..<length (logged s)]"
  let ?h = "head_block (lhn s) (logged s) (disk s (lstart s))"
  have cw: "commit_writes s = (lstart s, ?h) # ?M @ [(lstart s, head_block 0 [] ?h)]"
    using assms(4) by (simp add: commit_writes_def Let_def)
  obtain i where j: "j = Suc i" using assms(3) by (cases j) auto
  have h: "lhn s = int (length (logged s))" "length (logged s) \<le> LOGSIZE" using len inv(4) by auto
  have "lhn s \<le> int LOGSIZE" using h by simp
  note hg = head_block_get [OF assms(2) h(2) inv(4) this]
  have out: "apply_writes (take k ?M) e (lstart s) = e (lstart s)" for k e
  proof (rule apply_writes_outside)
    have "fst ` set (take k ?M) \<subseteq> set (logged s)" using image_mono [OF set_take_subset, of fst k ?M] unfolding fst_index .
    then show "lstart s \<notin> fst ` set (take k ?M)" using inv(7) by blast
  qed
  show ?thesis
  proof (cases "i \<le> length ?M")
    case True
    then have "take j (commit_writes s) = (lstart s, ?h) # take i ?M" unfolding cw j by simp
    then have "?d (lstart s) = ?h" unfolding crash_disk_def by (simp only: apply_writes_simps out fun_upd_same)
    then show ?thesis unfolding head_ok_def using hg h inv(5,7) by simp
  next
    case False
    then have "take j (commit_writes s) = ((lstart s, ?h) # ?M) @ [(lstart s, head_block 0 [] ?h)]" unfolding cw j by simp
    then have "?d (lstart s) = head_block 0 [] ?h" unfolding crash_disk_def by (simp only: apply_writes_simps fun_upd_same)
    then show ?thesis using head_block_get(3,4) [OF hg(3), of "[]" 0] inv(5) by (intro head_ok_empty) auto
  qed
qed

lemma commit_nothing:
  assumes "trans_inv d0 t0 s" "\<not> 0 < lhn s"
  shows "commit_writes s = []" "stored s = disk s"
  using assms(2) trans_invD(4) [OF assms(1)]
  by (auto simp: commit_writes_def stored_def overlay_def logged_def fun_eq_iff Let_def)

text \<open>A write history that is cut anywhere in a transaction or its commit.\<close>

lemma crash_cases:
  assumes "trans_inv (disk s0) t0 s" "get32 (disk s0 (lstart s)) 0 = 0" "length (disk s0 (lstart s)) = BSIZE"
    "disk s = apply_writes ws (disk s0)" "\<forall>x \<in> fst ` set ws. lstart s < x"
  defines "d k \<equiv> crash_disk k (ws @ commit_writes s) (disk s0)"
  shows "head_ok (lstart s) (lsize s) (d k)"
    "(\<forall>x < lstart s. recover_disk (lstart s) (d k) x = disk s0 x) \<or> (\<forall>x < lstart s. recover_disk (lstart s) (d k) x = stored s x)"
proof -
  have early: "apply_writes (take k ws) (disk s0) x = disk s0 x" if "x \<le> lstart s" for k x
    by (rule apply_writes_outside) (use assms(5) that set_take_subset [of k ws] in \<open>auto dest: less_le_not_le [THEN iffD1]\<close>)
  have h: "disk s (lstart s) = disk s0 (lstart s)" using early [of "lstart s" "length ws"] assms(4) by simp
  have len: "length (disk s (lstart s)) = BSIZE" using assms(3) h by simp
  have "head_ok (lstart s) (lsize s) (d k) \<and>
    ((\<forall>x < lstart s. recover_disk (lstart s) (d k) x = disk s0 x) \<or> (\<forall>x < lstart s. recover_disk (lstart s) (d k) x = stored s x))"
  proof (cases "k \<le> length ws \<or> \<not> 0 < lhn s")
    case True
    then have c: "d k = apply_writes (take k ws) (disk s0)" by (auto simp: d_def crash_disk_def commit_nothing [OF assms(1)])
    have "head_ok (lstart s) (lsize s) (d k)" unfolding c using assms(2,3) early trans_invD(5) [OF assms(1)] by (intro head_ok_empty) auto
    then show ?thesis unfolding c using assms(2) early by (auto simp: recover_empty less_imp_le)
  next
    case False
    then have c: "d k = crash_disk (k - length ws) (commit_writes s) (disk s)" by (simp add: d_def crash_disk_def assms(4))
    show ?thesis unfolding c using recover_commit_prefix [OF assms(1) len] head_ok_commit [OF assms(1) len] False by auto
  qed
  then show "head_ok (lstart s) (lsize s) (d k)"
    "(\<forall>x < lstart s. recover_disk (lstart s) (d k) x = disk s0 x) \<or> (\<forall>x < lstart s. recover_disk (lstart s) (d k) x = stored s x)"
    by blast+
qed

section \<open>Properties\<close>

lemma transaction_atomic:
  assumes "log_idle s0" "begin_trans s0 = Inr ((), s1)" "tstep\<^sup>*\<^sup>* s1 s2" "\<forall>i < NBUF. \<not> busy (bufs s2 i)"
  shows "\<exists>s3 ws. commit_trans s2 = Inr ((), s3) \<and> log_idle s3 \<and> dtrace s3 = dtrace s0 @ ws \<and>
    (\<forall>x < lstart s0. disk s3 x = view s2 x) \<and>
    (\<forall>k (t :: 'a lst_scheme). fresh t \<longrightarrow> lstart t = lstart s0 \<longrightarrow> lsize t = lsize s2 \<longrightarrow> disk t = crash_disk k ws (disk s0) \<longrightarrow>
      (\<exists>t'. recover_from_log t = Inr ((), t') \<and> log_idle t' \<and>
        ((\<forall>x < lstart s0. disk t' x = disk s0 x) \<or> (\<forall>x < lstart s0. disk t' x = view s2 x))))"
proof -
  let ?L = "lstart s0"
  have hdr: "get32 (disk s0 ?L) 0 = 0" "length (disk s0 ?L) = BSIZE" using assms(1) by (auto simp: log_idle_def)
  have s1: "s1 = s0 \<lparr> lbusy := True \<rparr>" using begin_trans_run(1) [OF assms(1)] assms(2) by simp
  have i1: "trans_inv (disk s0) (dtrace s0) s1" using begin_trans_run(2) [OF assms(1)] s1 by simp
  note i2 = trans_inv_steps [OF assms(3) i1]
  have L: "lstart s2 = ?L" using tsteps_lstart [OF assms(3) i1] s1 by simp
  from trans_invD(8) [OF i2] obtain ws where ws: "dtrace s2 = dtrace s0 @ ws" "disk s2 = apply_writes ws (disk s0)"
    "\<forall>x \<in> fst ` set ws. lstart s2 < x" by blast
  have h2: "disk s2 (lstart s2) = disk s0 ?L" unfolding ws(2) L using ws(3) L by (intro apply_writes_outside) auto
  from commit_trans_run [OF i2 assms(4)] hdr h2 obtain s3 where
    s3: "commit_trans s2 = Inr ((), s3)" "dtrace s3 = dtrace s2 @ commit_writes s2"
      "disk s3 = apply_writes (commit_writes s2) (disk s2)" "log_idle s3" by auto
  have vs: "view s2 x = stored s2 x" for x by (rule quiet_view_stored [OF i2 assms(4)])
  have final: "disk s3 x = view s2 x" if "x < ?L" for x
    using recover_finished(1) [OF i2] h2 hdr commit_nothing [OF i2] that s3(3) vs L by (cases "0 < lhn s2") auto
  have rec: "\<exists>t'. recover_from_log t = Inr ((), t') \<and> log_idle t' \<and>
      ((\<forall>x < ?L. disk t' x = disk s0 x) \<or> (\<forall>x < ?L. disk t' x = view s2 x))"
    if t: "fresh t" "lstart t = ?L" "lsize t = lsize s2" "disk t = crash_disk k (ws @ commit_writes s2) (disk s0)"
    for k and t :: "'a lst_scheme"
    using recover_from_log_run [OF t(1)] crash_cases [OF i2 _ _ ws(2,3), of k] hdr unfolding t(2-4) L vs by metis
  show ?thesis using s3 ws(1) final rec by (intro exI [of _ s3] exI [of _ "ws @ commit_writes s2"]) auto
qed

text \<open>
  C2. Transactions are atomic across crashes. Start with an idle log, begin a transaction, let the system do
  anything with the buffers that file system code may do (any blocks read, changed, logged and
  released, by any process) and commit when no buffer is held. Then the commit completes, the home blocks
  on disk are the ones last seen through the cache, and the log is idle again. If the machine stops
  after any number \<open>k\<close> of the block writes that all this made and boots again with an empty cache on the disk
  it left, \<open>recover_from_log\<close> completes with an idle log, and the home blocks are either all as before the
  transaction or all as after it.
\<close>

theorem log_crash_atomic:
  assumes "log_idle s0" "begin_trans s0 = Inr ((), s1)" "tstep\<^sup>*\<^sup>* s1 s2" "\<forall>i < NBUF. \<not> busy (bufs s2 i)"
  shows "\<exists>s3 ws. commit_trans s2 = Inr ((), s3) \<and> log_idle s3 \<and> dtrace s3 = dtrace s0 @ ws \<and>
    (\<forall>x < lstart s0. disk s3 x = view s2 x) \<and>
    (\<forall>k (t :: 'a lst_scheme). fresh t \<longrightarrow> lstart t = lstart s0 \<longrightarrow> lsize t = lsize s2 \<longrightarrow> disk t = crash_disk k ws (disk s0) \<longrightarrow>
      (\<exists>t'. recover_from_log t = Inr ((), t') \<and> log_idle t' \<and>
        ((\<forall>x < lstart s0. disk t' x = disk s0 x) \<or> (\<forall>x < lstart s0. disk t' x = view s2 x))))"
  by (rule transaction_atomic [OF assms])

text \<open>A disk whose home blocks are all ones, with an empty log in the last blocks.\<close>

definition lst0 :: lst where
  "lst0 = \<lparr> disk = (\<lambda>x. if x < 90 then replicate BSIZE 1 else replicate BSIZE 0), disksize = 100, dtrace = [],
    bufs = bufs bst0, lru = rev [0..<NBUF], woken = [],
    lstart = 90, lsize = 10, lbusy = False, ldev = 1, lhn = 0, lhsector = replicate LOGSIZE 0 \<rparr>"

lemma lst0_idle: "log_idle lst0"
  by (auto simp: log_idle_def lst0_def quiet_def bcache_ok_def bst0_def log_geom_def get32_def)

theorem log_crash_atomic_witness:
  "\<exists>s1 s2 s3. log_idle lst0 \<and> begin_trans lst0 = Inr ((), s1) \<and> tstep\<^sup>*\<^sup>* s1 s2 \<and> view s2 5 = replicate BSIZE 2 \<and>
    commit_trans s2 = Inr ((), s3) \<and> disk s3 5 = replicate BSIZE 2"
proof -
  let ?s1 = "lst0 \<lparr> lbusy := True \<rparr>"
  note b = begin_trans_run [OF lst0_idle]
  have h: "held ?s1 = {}" by (simp add: held_def lst0_def bst0_def)
  have t: "tx ?s1" using b(2) h by (auto simp: tx_def)
  have n: "nlog ?s1 = 0" by (simp add: nlog_def logged_def lst0_def)
  have "\<exists>s'. kbind (bread 1 5) (\<lambda>b. kbind (bget_data b) (\<lambda>d. kthen (bset_data b (map (\<lambda>x. x + 1) d)) (kthen (log_write b) (brelse b)))) ?s1 =
      Inr ((), s') \<and> tx s' \<and> evolves ?s1 s' \<and> home s' = (home ?s1)(5 := map (\<lambda>x. x + 1) (home ?s1 5)) \<and>
    set (logged s') = insert 5 (set (logged ?s1)) \<and> held s' = held ?s1 \<and> (\<forall>i \<in> held ?s1. bsector (bufs s' i) = bsector (bufs ?s1 i))"
    by (rule tx_update [OF t]) (simp_all add: h n, simp_all add: lst0_def)
  then obtain s2 where 2: "tx s2" "evolves ?s1 s2" "home s2 = (home ?s1)(5 := map (\<lambda>x. x + 1) (home ?s1 5))" "held s2 = {}"
    using h by auto
  have ok: "bcache_ok ?s1" using trans_invD(1) [OF b(2)] .
  have "view ?s1 5 = replicate BSIZE 1" by (subst view_uncached [OF ok]) (simp_all add: lst0_def bst0_def)
  then have "home s2 5 = replicate BSIZE 2" using 2(3) by (simp add: home_def lst0_def)
  moreover have "lstart s2 = 90" using 2(2) by (simp add: evolves_def lst0_def)
  ultimately have v: "view s2 5 = replicate BSIZE 2" by (simp add: home_def)
  have "\<forall>i < NBUF. \<not> busy (bufs s2 i)" using 2(4) by (auto simp: held_def)
  moreover have "tstep\<^sup>*\<^sup>* ?s1 s2" using 2(2) by (simp add: evolves_def)
  ultimately show ?thesis using log_crash_atomic [OF lst0_idle b(1), of s2] lst0_idle b(1) v by (auto simp: lst0_def)
qed

text \<open>
  C14. Recovery can itself be interrupted. From a fresh cache and a log whose header fits the log and lists home
  blocks, \<open>recover_from_log\<close> completes with an idle log. If the machine stops after any number \<open>k\<close> of
  its block writes and boots again, a second recovery completes, and every home block is the
  one that the undisturbed recovery would have left.
\<close>

theorem recovery_restartable:
  assumes "fresh s" "head_ok (lstart s) (lsize s) (disk s)"
  shows "\<exists>s' ws. recover_from_log s = Inr ((), s') \<and> log_idle s' \<and> dtrace s' = dtrace s @ ws \<and>
    (\<forall>k (t :: 'a lst_scheme). fresh t \<longrightarrow> lstart t = lstart s \<longrightarrow> lsize t = lsize s \<longrightarrow> disk t = crash_disk k ws (disk s) \<longrightarrow>
      (\<exists>t'. recover_from_log t = Inr ((), t') \<and> log_idle t' \<and> (\<forall>x < lstart s. disk t' x = disk s' x)))"
proof -
  from recover_from_log_run [OF assms] obtain s' where r: "recover_from_log s = Inr ((), s')"
    "disk s' = recover_disk (lstart s) (disk s)" "log_idle s'" "dtrace s' = dtrace s @ recover_writes (lstart s) (disk s)" by blast
  have g: "log_geom s" using assms(1) by (simp add: fresh_def)
  have "\<exists>t'. recover_from_log t = Inr ((), t') \<and> log_idle t' \<and> (\<forall>x < lstart s. disk t' x = disk s' x)"
    if t: "fresh t" "lstart t = lstart s" "lsize t = lsize s" "disk t = crash_disk k (recover_writes (lstart s) (disk s)) (disk s)"
    for k and t :: "'a lst_scheme"
    using recover_from_log_run [OF t(1), unfolded t(2-4)] recover_prefix [OF g refl assms(2) refl, where k = k] r(2) by metis
  then show ?thesis using r by blast
qed

text \<open>A committed transaction of one block, found at boot.\<close>

definition lst1 :: lst where
  "lst1 = lst0 \<lparr> disk := (disk lst0)(90 := head_block 1 [5] (replicate BSIZE 0), 91 := replicate BSIZE 7) \<rparr>"

theorem recovery_restartable_witness:
  "\<exists>s'. recover_from_log lst1 = Inr ((), s') \<and> log_idle s' \<and> disk s' 5 = replicate BSIZE 7"
proof -
  note hb = head_block_get [of "replicate BSIZE 0" "[5]" 1, simplified]
  have f: "fresh lst1" using lst0_idle by (simp add: fresh_def lst1_def log_idle_def quiet_def bcache_ok_def lst0_def bst0_def log_geom_def)
  have d: "disk lst1 90 = head_block 1 [5] (replicate BSIZE 0)" "lstart lst1 = 90" "lsize lst1 = 10" by (simp_all add: lst1_def lst0_def)
  have h: "head_ok (lstart lst1) (lsize lst1) (disk lst1)" unfolding head_ok_def d using hb by simp
  have "recover_disk 90 (disk lst1) 5 = replicate BSIZE 7"
    unfolding recover_disk_def Let_def d using hb by (simp add: lst1_def)
  then show ?thesis using recovery_restartable [OF f h] recover_from_log_run [OF f h] d(2) by auto
qed

end
