(* ===== verification/Fs_Write.thy ===== *)
theory Fs_Write
  imports Fs_File Log_Crash
begin

text \<open>
  What a write to a file guarantees to the rest of the system: other files keep their content, the bytes can be
  read back, and a write that is bracketed by \<open>begin_trans\<close> and \<open>commit_trans\<close> is atomic across crashes.
\<close>

section \<open>Other files\<close>

lemma inode_apart:
  assumes "IBLOCK i = IBLOCK j" "i \<noteq> (j :: u32)"
  shows "ioff j + 64 \<le> ioff i \<or> ioff i + 64 \<le> ioff j"
proof -
  have "i div 8 = j div 8" using assms(1) by (simp add: IBLOCK_def)
  then have "unat (i div 8) = unat (j div 8)" by simp
  then have "unat i div 8 = unat j div 8" by (simp add: unat_div_distrib)
  moreover have "unat i \<noteq> unat j" using assms(2) by (simp add: word_unat_eq_iff)
  ultimately have "unat i mod 8 \<noteq> unat j mod 8" by (metis div_mult_mod_eq)
  then show ?thesis by arith
qed

lemma updated_other:
  assumes "fs_geom sb s" "updated sb s ip off bs s'" "file_inv sb s jp" "jp \<noteq> ip" "inum (inodes s jp) \<noteq> inum (inodes s ip)"
    "file_ok sb s ip" "fblocks s jp \<inter> fblocks s ip = {}"
  shows "file_inv sb s' jp \<and> contents s' jp = contents s jp"
proof -
  note u = assms(2) [unfolded updated_def]
  have frame: "\<And>x. x \<noteq> iblk s ip \<Longrightarrow> x \<noteq> bitmap sb \<Longrightarrow> x \<notin> fblocks s ip \<Longrightarrow> \<not> free_block sb s x \<Longrightarrow> home s' x = home s x"
    and i: "inodes s' jp = inodes s jp" and free: "\<And>b. b < lstart s \<Longrightarrow> free_block sb s' b \<Longrightarrow> free_block sb s b"
    and L: "lstart s' = lstart s"
    using u assms(4) by (blast, blast, blast, auto simp: moved_def)
  have ok: "file_ok sb s jp" "synced s jp" using assms(3) by (auto simp: file_inv_def)
  note f = file_okD [OF assms(6)]
  note g = file_okD [OF ok(1)]
  have blk: "home s' b = home s b" if "b \<in> fblocks s jp" for b
  proof (rule frame)
    have "used sb s b" by (rule g(6) [OF that])
    then show "b \<noteq> iblk s ip" "b \<noteq> bitmap sb" "\<not> free_block sb s b" using f(4) by (auto simp: used_def)
    show "b \<notin> fblocks s ip" using that assms(7) by blast
  qed
  have F: "fmap s' jp k = fmap s jp k" for k using blk fblocksI(2) [of s jp] i by (auto simp: faddr_def)
  have us: "used sb s b \<Longrightarrow> used sb s' b" for b using free L by (auto simp: used_def)
  have "map_ok (fmap s' jp) (find_ind s' jp) (used sb s')"
    using map_ok_cong [OF g(5), of "fmap s' jp" "used sb s'"] F us i by simp
  then have "file_ok sb s' jp" using ok(1) i by (simp add: file_ok_def)
  moreover have "get_dinode (home s' (iblk s jp)) (ioff (inum (inodes s jp))) = get_dinode (home s (iblk s jp)) (ioff (inum (inodes s jp)))"
  proof (cases "iblk s jp = iblk s ip")
    case True
    have "ioff (inum (inodes s jp)) + 64 \<le> BSIZE" by simp
    then show ?thesis using u inode_apart [OF True assms(5)] unfolding True by blast
  next
    case False
    have "iblk s jp \<notin> fblocks s ip" using g(4) f(6) [of "iblk s jp"] by (auto simp: used_def)
    moreover have "\<not> free_block sb s (iblk s jp)" using fs_geomD(8) [OF assms(1)] g(4) by (auto simp: less_le_not_le)
    ultimately have "home s' (iblk s jp) = home s (iblk s jp)" using frame [OF False] g(4) by simp
    then show ?thesis by simp
  qed
  then have "synced s' jp" using ok(2) i by (simp add: synced_def)
  moreover have "fbyte s' jp k = fbyte s jp k" if "k < MAXFILE * BSIZE" for k
    using F blk fblocksI(1) [of "k div BSIZE" s jp] that by (auto simp: fbyte_def Let_def)
  then have "contents s' jp = contents s jp"
    using i assms(3) by (auto simp: contents_def file_inv_def)
  ultimately show ?thesis using assms(3) i F by (auto simp: file_inv_def)
qed

section \<open>Reading back\<close>

lemma nblk_chunk:
  assumes "n \<le> 3 * BSIZE"
  shows "nblk off n \<le> 4"
proof -
  have "(off + n - 1) div BSIZE \<le> (off + 3 * BSIZE) div BSIZE" using assms by (intro div_le_mono) simp
  also have "\<dots> = off div BSIZE + 3" by simp
  finally show ?thesis by (simp add: nblk_def le_diff_conv add.commute)
qed

lemma chunk_ready:
  assumes "tx s" "logged s = []" "LOGSIZE \<le> unat (lsize s)" "held s = {}" "6 \<le> nfree sb s" "m \<le> 5"
  shows "\<exists>X. ready sb s ip X m"
proof (cases "find_ind s ip = 0")
  case True
  then have "ready sb s ip {bitmap sb} m" using assms by (simp add: ready_def room_def)
  then show ?thesis by blast
next
  case False
  have "card {bitmap sb, find_ind s ip} \<le> 2" by (rule card_insert_le_m1) simp_all
  then have "ready sb s ip {bitmap sb, find_ind s ip} m" using assms False by (simp add: ready_def room_def)
  then show ?thesis by blast
qed

lemma updatedD:
  assumes "updated sb s ip off bs s'"
  shows "tx s'" "moved s s'" "held s' = held s" "fs_geom sb s'" "file_inv sb s' ip"
    "contents s' ip = take off (contents s ip) @ bs @ drop (off + length bs) (contents s ip)"
    "inum (inodes s' ip) = inum (inodes s ip)"
  using assms by (auto simp: updated_def)

lemma write_chunk:
  assumes "tx s" "fs_geom sb s" "file_inv sb s ip" "held s = {}" "logged s = []" "LOGSIZE \<le> unat (lsize s)" "6 \<le> nfree sb s"
    "off \<le> di_size (idi (inodes s ip))" "length src = unat n" "unat n \<le> 3 * BSIZE" "unat off + unat n \<le> MAXFILE * BSIZE"
  shows "\<exists>s'. writei devsw ip src off n s = Inr (sint n, s') \<and> updated sb s ip (unat off) src s' \<and> (\<exists>X. room s' X 0 2)"
proof -
  obtain X where "ready sb s ip X (Suc 0 + nblk (unat off) (unat n))"
    using chunk_ready [OF assms(1,5,6,4,7)] nblk_chunk [OF assms(10)] by fastforce
  from writei_run [OF assms(1-4,8,9,11) this] show ?thesis by blast
qed

section \<open>A write as a transaction\<close>

text \<open>The content of a file, read from the disk blocks alone.\<close>

definition disk_contents :: "(u32 \<Rightarrow> block) \<Rightarrow> u32 \<Rightarrow> u8 list" where
  "disk_contents d i = (let di = get_dinode (d (IBLOCK i)) (ioff i) in
    map (\<lambda>k. let a = faddr di d (k div BSIZE) in if a = 0 then 0 else d a ! (k mod BSIZE)) [0..<unat (di_size di)])"

lemma disk_contents_file:
  assumes "fs_geom sb s" "file_inv sb s ip" "\<And>x. x < lstart s \<Longrightarrow> d x = home s x"
  shows "disk_contents d (inum (inodes s ip)) = contents s ip"
proof -
  have ok: "file_ok sb s ip" and sy: "synced s ip" and sz: "unat (di_size (idi (inodes s ip))) \<le> MAXFILE * BSIZE"
    using assms(2) by (auto simp: file_inv_def)
  note f = file_okD [OF ok]
  have "d (iblk s ip) = home s (iblk s ip)" using f(4) fs_geomD(5) [OF assms(1)] by (intro assms(3)) (rule order.strict_trans)
  then have di: "get_dinode (d (iblk s ip)) (ioff (inum (inodes s ip))) = idi (inodes s ip)" using sy by (simp add: synced_def)
  have blk: "d b = home s b" if "b \<in> fblocks s ip" for b by (rule assms(3)) (use f(6) [OF that] in \<open>simp add: used_def\<close>)
  have F: "faddr (idi (inodes s ip)) d k = fmap s ip k" for k using blk [OF fblocksI(2)] by (auto simp: faddr_def)
  have "d (fmap s ip (k div BSIZE)) = home s (fmap s ip (k div BSIZE))"
    if "k < unat (di_size (idi (inodes s ip)))" "fmap s ip (k div BSIZE) \<noteq> 0" for k
    by (rule blk [OF fblocksI(1)]) (use that sz in simp_all)
  then show ?thesis unfolding disk_contents_def Let_def di F contents_def fbyte_def by simp
qed

section \<open>A small file system\<close>

text \<open>One hundred blocks with the log in the last ten, eight inodes, and an empty file with inode number one.\<close>

definition sb0 :: superblock where
  "sb0 = \<lparr> sb_size = 100, sb_nblocks = 85, sb_ninodes = 8, sb_nlog = 10 \<rparr>"

definition di0 :: dinode where
  "di0 = \<lparr> di_type = T_FILE, di_major = 0, di_minor = 0, di_nlink = 1, di_size = 0, di_addrs = replicate (NDIRECT + 1) 0 \<rparr>"

definition disk0 :: "u32 \<Rightarrow> block" where
  "disk0 = (\<lambda>_. replicate BSIZE 0)
    (1 := bsplice 0 (be32 100 @ be32 85 @ be32 8 @ be32 10) (replicate BSIZE 0), 2 := put_dinode 64 di0 (replicate BSIZE 0),
     4 := 31 # replicate (BSIZE - 1) 0)"

definition fs0 :: fst where
  "fs0 = \<lparr> disk = disk0, disksize = 100, dtrace = [], bufs = bufs bst0, lru = rev [0..<NBUF], woken = [],
    lstart = 90, lsize = 10, lbusy = False, ldev = 1, lhn = 0, lhsector = replicate LOGSIZE 0,
    inodes = (\<lambda>_. \<lparr> idev = 1, inum = 1, iref = 1, ibusy = True, ivalid = True, idi = di0 \<rparr>) \<rparr>"

definition devsw0 :: "fst devsw" where
  "devsw0 = \<lparr> dev_read = (\<lambda>_. None), dev_write = (\<lambda>_. None) \<rparr>"

lemma fs0_idle: "log_idle fs0"
  by (auto simp: log_idle_def fs0_def quiet_def bcache_ok_def bst0_def log_geom_def get32_def disk0_def)

lemma fs0_home: "x < 90 \<Longrightarrow> home fs0 x = disk0 x"
  using view_uncached [of fs0 x] fs0_idle by (auto simp: home_def fs0_def log_idle_def quiet_def bst0_def)

lemma bitmap0: "bitmap sb0 = 4"
  by (simp add: bitmap_def BBLOCK_def sb0_def)

lemma superblock_at:
  assumes "16 \<le> length d"
  shows "get_superblock (bsplice 0 (be32 a @ be32 b @ be32 c @ be32 e) d) = \<lparr> sb_size = a, sb_nblocks = b, sb_ninodes = c, sb_nlog = e \<rparr>"
  using assms get32_be32 [of a] get32_be32 [of b] get32_be32 [of c] get32_be32 [of e]
  by (simp add: get_superblock_def bsplice_def get32_def be32_def)

lemma fs0_bit:
  assumes "b < 8 * BSIZE"
  shows "bit_free (disk0 4) b \<longleftrightarrow> 5 \<le> b"
proof -
  have d: "disk0 4 = 31 # replicate (BSIZE - 1) 0" unfolding disk0_def by (rule fun_upd_same)
  show ?thesis
  proof (cases "b < 8")
    case True
    have m: "(31 :: u8) = mask 5" by (simp add: mask_eq_exp_minus_1)
    have "bit (31 :: u8) b \<longleftrightarrow> b < 5" unfolding m bit_mask_iff by auto
    then show ?thesis using True unfolding bit_free_iff d by (simp add: not_less)
  next
    case False
    then obtain k where k: "b div 8 = Suc k" "k < BSIZE - 1" using assms by (cases "b div 8") auto
    then show ?thesis using False unfolding bit_free_iff d k(1) nth_Cons_Suc by simp
  qed
qed

lemma fs0_geom: "fs_geom sb0 fs0"
proof -
  have "get_superblock (home fs0 1) = sb0" using fs0_home [of 1] superblock_at [of "replicate BSIZE 0" 100 85 8 10]
    by (simp add: disk0_def sb0_def)
  moreover have "length (home fs0 x) = BSIZE" if "x < 90" for x
    using fs0_home [OF that] by (simp add: disk0_def put_dinode_def di0_def)
  moreover have "\<not> bit_free (home fs0 4) (unat b)" if "b \<le> 4" for b :: u32
  proof -
    have "unat b \<le> 4" using that by (simp add: word_le_nat_alt)
    then show ?thesis using fs0_home [of 4] fs0_bit [of "unat b"] by simp
  qed
  ultimately show ?thesis unfolding fs_geom_def bitmap0 by (simp add: sb0_def fs0_def)
qed

lemma fs0_file: "file_inv sb0 fs0 0"
proof -
  have i: "inodes fs0 0 = \<lparr> idev = 1, inum = 1, iref = 1, ibusy = True, ivalid = True, idi = di0 \<rparr>" by (simp add: fs0_def)
  have F: "faddr di0 H k = 0" if "k < MAXFILE" for H k using that by (auto simp: faddr_def di0_def)
  have "get_dinode (put_dinode 64 di0 (replicate BSIZE 0)) 64 = di0" by (rule get_put_dinode) (simp_all add: di0_def)
  then have "synced fs0 0" unfolding synced_def i using fs0_home [of 2] by (simp add: IBLOCK_def disk0_def)
  moreover have "file_ok sb0 fs0 0" unfolding file_ok_def i bitmap0 using F by (simp add: map_ok_def IBLOCK_def di0_def)
  ultimately show ?thesis unfolding file_inv_def i by (simp add: di0_def)
qed

lemma fs0_free: "6 \<le> nfree sb0 fs0"
proof -
  have "word_of_nat ` {5..<11} \<subseteq> {b. b < lstart fs0 \<and> free_block sb0 fs0 b}"
  proof
    fix b :: u32
    assume "b \<in> word_of_nat ` {5..<11}"
    then have "unat b \<in> {5..<11}" by (auto simp: unat_of_nat)
    then show "b \<in> {b. b < lstart fs0 \<and> free_block sb0 fs0 b}"
      using fs0_home [of 4] fs0_bit [of "unat b"] by (simp add: bitmap0 fs0_def word_less_nat_alt)
  qed
  then have "card (word_of_nat ` {5..<11} :: u32 set) \<le> nfree sb0 fs0" unfolding nfree_def by (rule card_mono [rotated]) simp
  moreover have "inj_on (word_of_nat :: nat \<Rightarrow> u32) {5..<11}"
    by (rule inj_on_inverseI [where g = unat]) (simp add: unat_of_nat)
  ultimately show ?thesis by (simp add: card_image)
qed

lemma begin_file:
  assumes "log_idle s" "fs_geom sb s" "file_inv sb s ip"
  defines "s1 \<equiv> s \<lparr> lbusy := True \<rparr>"
  shows "begin_trans s = Inr ((), s1)" "tx s1" "held s1 = {}" "logged s1 = []" "fs_geom sb s1" "file_inv sb s1 ip"
    "contents s1 ip = contents s ip" "nfree sb s1 = nfree sb s" "inodes s1 = inodes s" "lsize s1 = lsize s"
    "\<And>x. x < lstart s \<Longrightarrow> home s x = disk s x"
proof -
  have q: "quiet s" "\<forall>i < NBUF. \<not> dirty (bufs s i)" "lhn s = 0" using assms(1) by (auto simp: log_idle_def)
  have h: "home s1 = home s" "lstart s1 = lstart s" "inodes s1 = inodes s"
    by (simp_all add: s1_def home_def fun_eq_iff view_def split: option.split)
  show "begin_trans s = Inr ((), s1)" using begin_trans_run(1) [OF assms(1)] by (simp add: s1_def)
  show held: "held s1 = {}" using q(1) by (auto simp: held_def quiet_def s1_def)
  show "tx s1" using begin_trans_run(2) [OF assms(1)] held by (auto simp: tx_def s1_def)
  show "logged s1 = []" using q(3) by (simp add: logged_def s1_def)
  show "fs_geom sb s1" by (rule fs_geom_transfer [OF assms(2) h(1,2)])
  have "file_ok sb s1 ip" by (rule file_ok_transfer [OF _ h(3,1,2)]) (use assms(3) in \<open>simp add: file_inv_def\<close>)
  then show "file_inv sb s1 ip" using assms(3) h by (simp add: file_inv_def synced_def)
  have "fbyte s1 ip = fbyte s ip" by (rule ext) (simp add: fbyte_def h(1,3) Let_def)
  then show "contents s1 ip = contents s ip" using h(3) by (simp add: contents_def)
  show "nfree sb s1 = nfree sb s" using h by (simp add: nfree_def)
  show "home s x = disk s x" if "x < lstart s" for x
    using quiet_view [OF q(1), of x] q(2) that by (auto simp: home_def dirty_sectors_iff)
qed (simp_all add: s1_def)

section \<open>The properties\<close>

text \<open>
  C3. Reading back a write. In a transaction that has logged nothing yet, on a file system with a free block for each
  block the write may need, \<open>writei\<close> stores up to three blocks of data (the size of the pieces into which
  \<open>filewrite\<close> cuts a write) at any offset up to the end of a file without running out of log or buffers. Its effect
  on the file is exactly to replace these bytes, \<open>readi\<close> returns them, and any other cached file with its
  own inode and blocks keeps its content.
\<close>

theorem writei_readi:
  assumes "tx s" "fs_geom sb s" "file_inv sb s ip" "held s = {}" "logged s = []" "LOGSIZE \<le> unat (lsize s)" "6 \<le> nfree sb s"
    "off \<le> di_size (idi (inodes s ip))" "length src = unat n" "unat n \<le> 3 * BSIZE" "unat off + unat n \<le> MAXFILE * BSIZE"
  shows "\<exists>s'. writei devsw ip src off n s = Inr (sint n, s') \<and> file_inv sb s' ip \<and>
    contents s' ip = take (unat off) (contents s ip) @ src @ drop (unat off + unat n) (contents s ip) \<and>
    (\<exists>s''. readi devsw ip off n s' = Inr ((sint n, src), s'')) \<and>
    (\<forall>jp. jp \<noteq> ip \<longrightarrow> file_inv sb s jp \<longrightarrow> inum (inodes s jp) \<noteq> inum (inodes s ip) \<longrightarrow> fblocks s jp \<inter> fblocks s ip = {} \<longrightarrow>
      file_inv sb s' jp \<and> contents s' jp = contents s jp)"
proof -
  from write_chunk [OF assms] obtain s' X where
    w: "writei devsw ip src off n s = Inr (sint n, s')" "updated sb s ip (unat off) src s'" "room s' X 0 2" by blast
  note u = updatedD [OF w(2)]
  have ok: "file_ok sb s ip" using assms(3) by (simp add: file_inv_def)
  have le: "unat off \<le> length (contents s ip)" using assms(8) by (simp add: contents_def word_le_nat_alt)
  then have sl: "bslice (unat off) (unat n) (contents s' ip) = src" using u(6) assms(9) by (simp add: bslice_def)
  have sum: "unat (off + n) = unat off + unat n" using assms(11) by (simp add: unat_word_ariths)
  have "unat off \<le> length (contents s' ip)" unfolding u(6) using le by simp
  then have off': "off \<le> di_size (idi (inodes s' ip))" by (simp add: contents_def word_le_nat_alt)
  have h: "held s' = {}" using u(3) assms(4) by simp
  have no: "\<not> off + n < off" using sum by (simp add: word_less_nat_alt)
  obtain k :: u32 and s'' where r: "readi devsw ip off n s' = Inr ((sint k, src), s'')" "unat k = length src"
    using readi_run [OF u(1,4,5) h off' no room_weaken [OF w(3)]] unfolding sl by fastforce
  have "k = n" using r(2) assms(9) by (simp add: word_unat_eq_iff)
  then show ?thesis using w(1) u(5,6) r(1) assms(9) updated_other [OF assms(2) w(2) _ _ _ ok] by auto
qed

theorem writei_readi_witness:
  "\<exists>s'. writei devsw0 0 [1, 2, 3] 0 3 (fs0 \<lparr> lbusy := True \<rparr>) = Inr (3, s') \<and> contents s' 0 = [1, 2, 3] \<and>
    (\<exists>s''. readi devsw0 0 0 3 s' = Inr ((3, [1, 2, 3]), s''))"
proof -
  let ?s = "fs0 \<lparr> lbusy := True \<rparr>"
  note b = begin_file [OF fs0_idle fs0_geom fs0_file]
  have c: "contents ?s 0 = []" unfolding b(7) by (simp add: contents_def fs0_def di0_def)
  have h: "LOGSIZE \<le> unat (lsize ?s)" "6 \<le> nfree sb0 ?s" "0 \<le> di_size (idi (inodes ?s 0))" "length [1, 2, 3 :: u8] = unat (3 :: u32)"
    "unat (3 :: u32) \<le> 3 * BSIZE" "unat (0 :: u32) + unat (3 :: u32) \<le> MAXFILE * BSIZE"
    unfolding b(8) using fs0_free by (simp_all add: fs0_def)
  from writei_readi [OF b(2,5,6,3,4) h, of devsw0] show ?thesis unfolding c by auto
qed

text \<open>
  C1. A write is atomic across crashes. From an idle log, \<open>begin_trans\<close>, \<open>writei\<close> of up to three blocks and \<open>commit_trans\<close>
  complete, and the blocks on the disk then hold the file with the new bytes. If the machine stops after
  any number \<open>k\<close> of the disk writes that this makes and boots again, recovery completes and the file on the
  disk is either the old one or the new one.
\<close>

theorem write_transaction_atomic:
  assumes "log_idle s" "fs_geom sb s" "file_inv sb s ip" "LOGSIZE \<le> unat (lsize s)" "6 \<le> nfree sb s"
    "off \<le> di_size (idi (inodes s ip))" "length src = unat n" "unat n \<le> 3 * BSIZE" "unat off + unat n \<le> MAXFILE * BSIZE"
    "new = take (unat off) (contents s ip) @ src @ drop (unat off + unat n) (contents s ip)" "i = inum (inodes s ip)"
  shows "\<exists>s' ws. kthen begin_trans (kbind (writei devsw ip src off n) (\<lambda>r. kthen commit_trans (kret r))) s = Inr (sint n, s') \<and>
    log_idle s' \<and> disk_contents (disk s') i = new \<and> dtrace s' = dtrace s @ ws \<and>
    (\<forall>k t. fresh t \<longrightarrow> lstart t = lstart s \<longrightarrow> lsize t = lsize s \<longrightarrow> disk t = crash_disk k ws (disk s) \<longrightarrow>
      (\<exists>t'. recover_from_log t = Inr ((), t') \<and> log_idle (t' :: 'a fst_scheme) \<and> disk_contents (disk t') i \<in> {contents s ip, new}))"
proof -
  let ?s1 = "s \<lparr> lbusy := True \<rparr>"
  note b = begin_file [OF assms(1-3)]
  have "\<exists>s2. writei devsw ip src off n ?s1 = Inr (sint n, s2) \<and> updated sb ?s1 ip (unat off) src s2 \<and> (\<exists>X. room s2 X 0 2)"
    by (rule write_chunk [OF b(2,5,6,3,4)]) (use b(8,9,10) assms in simp_all)
  then obtain s2 where w: "writei devsw ip src off n ?s1 = Inr (sint n, s2)" "updated sb ?s1 ip (unat off) src s2" by blast
  note u = updatedD [OF w(2)]
  have st: "tstep\<^sup>*\<^sup>* ?s1 s2" "lstart s2 = lstart s" "lsize s2 = lsize s" using u(2) by (auto simp: moved_def)
  have nb: "\<forall>i < NBUF. \<not> busy (bufs s2 i)" using u(3) b(3) by (auto simp: held_def)
  from transaction_atomic [OF assms(1) b(1) st(1) nb] obtain s3 ws where
    c: "commit_trans s2 = Inr ((), s3)" "log_idle s3" "dtrace s3 = dtrace s @ ws" "\<forall>x < lstart s. disk s3 x = view s2 x"
    "\<And>k t. fresh t \<Longrightarrow> lstart t = lstart s \<Longrightarrow> lsize t = lsize s2 \<Longrightarrow> disk t = crash_disk k ws (disk s) \<Longrightarrow>
      \<exists>t'. recover_from_log t = Inr ((), t') \<and> log_idle (t' :: 'a fst_scheme) \<and>
        ((\<forall>x < lstart s. disk t' x = disk s x) \<or> (\<forall>x < lstart s. disk t' x = view s2 x))" by blast
  have new: "disk_contents d i = new" if "\<forall>x < lstart s. d x = view s2 x" for d
    using disk_contents_file [OF u(4,5), of d] that u(6,7) b(7,9) assms(7,10,11) st(2) by (simp add: home_def)
  have old: "disk_contents d i = contents s ip" if "\<forall>x < lstart s. d x = disk s x" for d
    using disk_contents_file [OF assms(2,3), of d] that b(11) assms(11) by simp
  have "kthen begin_trans (kbind (writei devsw ip src off n) (\<lambda>r. kthen commit_trans (kret r))) s = Inr (sint n, s3)"
    using b(1) w(1) c(1) by (simp add: kbind_Inr kret_def)
  moreover have "\<exists>t'. recover_from_log t = Inr ((), t') \<and> log_idle (t' :: 'a fst_scheme) \<and> disk_contents (disk t') i \<in> {contents s ip, new}"
    if "fresh t" "lstart t = lstart s" "lsize t = lsize s" "disk t = crash_disk k ws (disk s)" for k and t :: "'a fst_scheme"
    using c(5) [OF that(1,2) _ that(4)] that(3) st(3) new old by (metis insertCI)
  ultimately show ?thesis using c(2,3) new [OF c(4)] by blast
qed

theorem write_transaction_atomic_witness:
  "\<exists>s'. kthen begin_trans (kbind (writei devsw0 0 [1, 2, 3] 0 3) (\<lambda>r. kthen commit_trans (kret r))) fs0 = Inr (3, s') \<and>
    log_idle s' \<and> disk_contents (disk s') 1 = [1, 2, 3]"
proof -
  have c: "contents fs0 0 = []" "inum (inodes fs0 0) = 1" by (simp_all add: contents_def fs0_def di0_def)
  have h: "LOGSIZE \<le> unat (lsize fs0)" "6 \<le> nfree sb0 fs0" "0 \<le> di_size (idi (inodes fs0 0))" "length [1, 2, 3 :: u8] = unat (3 :: u32)"
    "unat (3 :: u32) \<le> 3 * BSIZE" "unat (0 :: u32) + unat (3 :: u32) \<le> MAXFILE * BSIZE"
    using fs0_free by (simp_all add: fs0_def)
  from write_transaction_atomic [OF fs0_idle fs0_geom fs0_file h refl refl, of devsw0] show ?thesis unfolding c by auto
qed

end
