(* ===== verification/Fs_Path.thy ===== *)
theory Fs_Path
  imports Fs
begin

text \<open>
  Path names and the inode cache (\<open>src/fs.c\<close>). A calculus of frames (what an operation leaves alone) gives
  the effect of path lookup on the reference counts of the cache: \<open>namex\<close> returns with exactly one new
  reference, or with none when it finds nothing, on every way through its loop. The cache keeps one entry
  for an inode. \<open>skipelem\<close> is proved to cut a path into its elements.
\<close>

section \<open>Frames\<close>

definition keeps :: "('s \<Rightarrow> 'b) \<Rightarrow> ('s, 'a) km \<Rightarrow> bool" where
  "keeps f m \<longleftrightarrow> (\<forall>s. wlp m (\<lambda>_ s'. f s' = f s) s)"

named_theorems frames \<open>what operations leave alone\<close>

lemma keepsD: "keeps f m \<Longrightarrow> m s = Inr (x, s') \<Longrightarrow> f s' = f s"
  by (auto simp: keeps_def wlp_iff)

lemma keeps_kret [frames]: "keeps f (kret x)"
  by (simp add: keeps_def wp_rules)

lemma keeps_kget [frames]: "keeps f (kget g)"
  by (simp add: keeps_def wp_rules)

lemma keeps_kstop [frames]: "keeps f (kstop e)"
  by (simp add: keeps_def wp_rules)

lemma keeps_kmod: "(\<And>s. f (g s) = f s) \<Longrightarrow> keeps f (kmod g)"
  by (simp add: keeps_def wp_rules)

lemma keeps_kbind [frames]: "keeps f m \<Longrightarrow> (\<And>x. keeps f (g x)) \<Longrightarrow> keeps f (kbind m g)"
  by (auto simp: keeps_def wlp_iff kbind_eq_Inr)

lemma keeps_if [frames]: "(b \<Longrightarrow> keeps f m) \<Longrightarrow> (\<not> b \<Longrightarrow> keeps f n) \<Longrightarrow> keeps f (if b then m else n)"
  by simp

lemma keeps_option [frames]: "keeps f m \<Longrightarrow> (\<And>y. keeps f (n y)) \<Longrightarrow> keeps f (case x of None \<Rightarrow> m | Some y \<Rightarrow> n y)"
  by (cases x) simp_all

lemma keeps_prod [frames]: "(\<And>y z. keeps f (n y z)) \<Longrightarrow> keeps f (case x of (y, z) \<Rightarrow> n y z)"
  by (cases x) simp

lemma keeps_kfor [frames]: "(\<And>i. keeps f (g i)) \<Longrightarrow> keeps f (kfor is g)"
  by (induction "is") (auto intro: frames)

lemma keeps_comp: "keeps f m \<Longrightarrow> keeps (\<lambda>s. h (f s)) m"
  by (auto simp: keeps_def wlp_iff)

section \<open>The buffer cache and the log leave the inodes alone\<close>

lemma keeps_bst [frames]:
  "keeps inodes (kmod (upd_buf b g))"
  "keeps inodes (wakeup c)"
  "keeps inodes (bget_data b)"
  "keeps inodes (bset_data b d)"
  by (auto simp: upd_buf_def wakeup_def bget_data_def bset_data_def intro!: keeps_kmod frames)

lemma keeps_bio [frames]:
  "keeps inodes (iderw b)" "keeps inodes (bread dev sec)" "keeps inodes (bwrite b)" "keeps inodes (brelse b)" "keeps inodes (readsb dev)"
proof -
  show i: "keeps inodes (iderw b)" for b
    unfolding iderw_def by (intro frames keeps_kmod) (simp_all add: upd_buf_def)
  have "keeps inodes (bget dev sec)" unfolding bget_def by (intro frames)
  then show r: "keeps inodes (bread dev sec)" for dev sec unfolding bread_def bget_def by (intro frames i)
  show "keeps inodes (bwrite b)" unfolding bwrite_def by (intro frames i)
  show l: "keeps inodes (brelse b)" for b unfolding brelse_def by (intro frames keeps_kmod) (simp add: upd_buf_def)
  show "keeps inodes (readsb dev)" unfolding readsb_def by (intro frames r l)
qed

lemma keeps_log_write [frames]: "keeps inodes (log_write b)"
  unfolding log_write_def by (intro frames keeps_kmod) (simp_all add: upd_buf_def)

lemma keeps_blocks [frames]: "keeps inodes (bzero dev bno)" "keeps inodes (balloc dev)" "keeps inodes (bfree dev bno)"
proof -
  show z: "keeps inodes (bzero dev bno)" for dev bno unfolding bzero_def by (intro frames)
  have "keeps inodes (balloc_loop dev sb bs)" for sb bs
    by (induction bs) (simp_all, (intro frames z; assumption)+)
  then show "keeps inodes (balloc dev)" unfolding balloc_def by (intro frames)
  show "keeps inodes (bfree dev bno)" unfolding bfree_def Let_def by (intro frames)
qed

lemma keeps_iupdate [frames]: "keeps inodes (iupdate ip)"
  unfolding iupdate_def by (intro frames)

section \<open>Reference counts\<close>

text \<open>Who the entries of the cache are for, and how often they are referred to.\<close>

definition refs :: "'a fst_scheme \<Rightarrow> nat \<Rightarrow> u32 \<times> u32 \<times> int" where
  "refs s ip = (idev (inodes s ip), inum (inodes s ip), iref (inodes s ip))"

abbreviation count :: "'a fst_scheme \<Rightarrow> nat \<Rightarrow> int" where "count s ip \<equiv> iref (inodes s ip)"

lemma refs_inodes: "keeps inodes m \<Longrightarrow> keeps refs m"
  using keeps_comp [of inodes m "\<lambda>f ip. (idev (f ip), inum (f ip), iref (f ip))"] by (simp add: refs_def [abs_def])

lemmas refs_frames [frames] = keeps_bst [THEN refs_inodes] keeps_bio [THEN refs_inodes] keeps_log_write [THEN refs_inodes]
  keeps_blocks [THEN refs_inodes] keeps_iupdate [THEN refs_inodes]

lemma refs_upd [frames]:
  "keeps refs (kmod (upd_di ip g))"
  "keeps refs (kmod (upd_inode ip (ibusy_update g')))"
  "keeps refs (kmod (upd_inode ip (ivalid_update g')))"
  "keeps refs (kmod (upd_inode ip (\<lambda>x. x \<lparr> ibusy := b, ivalid := v \<rparr>)))"
  by (auto intro!: keeps_kmod simp: upd_inode_def refs_def)

lemma refs_bmap [frames]: "keeps refs (bmap ip bn)"
  unfolding bmap_def Let_def by (intro frames)

lemma refs_itrunc [frames]: "keeps refs (itrunc ip)"
  unfolding itrunc_def Let_def by (intro frames)

lemma refs_ilock [frames]: "keeps refs (ilock ip)"
  unfolding ilock_def Let_def by (intro frames)

lemma refs_iunlock [frames]: "keeps refs (iunlock ip)"
  unfolding iunlock_def by (intro frames)

lemma refs_readi_loop [frames]: "keeps refs (readi_loop ip off r)"
proof (induction ip off r rule: readi_loop.induct)
  case (1 ip off r)
  then show ?case by (subst readi_loop.simps) (auto simp: Let_def intro!: frames)
qed

text \<open>What is asked of the devices: a read leaves the counts alone.\<close>

definition quiet_devices :: "'a fst_scheme devsw \<Rightarrow> bool" where
  "quiet_devices devsw \<longleftrightarrow> (\<forall>major f ip n. dev_read devsw major = Some f \<longrightarrow> keeps refs (f ip n))"

lemma refs_readi [frames]: "quiet_devices devsw \<Longrightarrow> keeps refs (readi devsw ip off n)"
proof -
  assume "quiet_devices devsw"
  then have dev: "keeps refs (case dev_read devsw major of None \<Rightarrow> kret (- 1, []) | Some f \<Rightarrow> f ip n)" for major
    by (cases "dev_read devsw major") (auto simp: quiet_devices_def intro: frames)
  show ?thesis unfolding readi_def Let_def
    by (intro keeps_kbind keeps_kget keeps_if keeps_kret dev refs_readi_loop)
qed

lemma refs_read_dirent [frames]: "quiet_devices devsw \<Longrightarrow> keeps refs (read_dirent devsw dp off)"
  unfolding read_dirent_def by (intro frames)

section \<open>The cache\<close>

text \<open>Counts are not negative, and an inode has one entry in use.\<close>

definition icache_ok :: "'a fst_scheme \<Rightarrow> bool" where
  "icache_ok s \<longleftrightarrow> (\<forall>ip. 0 \<le> count s ip) \<and>
    (\<forall>i < NINODE. \<forall>j < NINODE. 0 < count s i \<longrightarrow> 0 < count s j \<longrightarrow>
      idev (inodes s i) = idev (inodes s j) \<longrightarrow> inum (inodes s i) = inum (inodes s j) \<longrightarrow> i = j)"

lemma refs_eqD:
  assumes "refs s' = refs s"
  shows "icache_ok s' = icache_ok s" "count s' = count s"
proof -
  have "idev (inodes s' ip) = idev (inodes s ip)" "inum (inodes s' ip) = inum (inodes s ip)" "count s' ip = count s ip" for ip
    using fun_cong [OF assms, of ip] by (simp_all add: refs_def)
  then show "icache_ok s' = icache_ok s" "count s' = count s" by (auto simp: icache_ok_def)
qed

text \<open>The counts are \<open>c\<close>, but for one more reference to \<open>ip\<close>.\<close>

definition one_more :: "(nat \<Rightarrow> int) \<Rightarrow> nat \<Rightarrow> 'a fst_scheme \<Rightarrow> bool" where
  "one_more c ip s \<longleftrightarrow> icache_ok s \<and> ip < NINODE \<and> count s = c(ip := c ip + 1)"

lemma one_more_refs: "one_more c ip s \<Longrightarrow> refs s' = refs s \<Longrightarrow> one_more c ip s'"
  using refs_eqD [of s' s] by (simp add: one_more_def)

lemma iget_one_more:
  assumes "icache_ok s"
  shows "wlp (iget dev i) (one_more (count s)) s"
proof (cases "find (\<lambda>ip. count s ip > 0 \<and> idev (inodes s ip) = dev \<and> inum (inodes s ip) = i) [0..<NINODE]")
  case (Some ip)
  then have "ip < NINODE" "0 < count s ip" by (auto simp: find_Some_iff)
  then have "one_more (count s) ip (upd_inode ip (iref_update (\<lambda>r. r + 1)) s)"
    using assms by (auto simp: one_more_def icache_ok_def upd_inode_def)
  then show ?thesis using Some by (simp add: iget_def wp_rules)
next
  case none: None
  then have new: "\<not> (0 < count s ip \<and> idev (inodes s ip) = dev \<and> inum (inodes s ip) = i)" if "ip < NINODE" for ip
    using that by (auto simp: find_None_iff)
  show ?thesis
  proof (cases "find (\<lambda>ip. count s ip = 0) [0..<NINODE]")
    case (Some ip)
    then have "ip < NINODE" "count s ip = 0" by (auto simp: find_Some_iff)
    then have "one_more (count s) ip (upd_inode ip (\<lambda>x. x \<lparr> idev := dev, inum := i, iref := 1, ibusy := False, ivalid := False \<rparr>) s)"
      using assms new by (auto simp: one_more_def icache_ok_def upd_inode_def)
    then show ?thesis using none Some by (simp add: iget_def wp_rules)
  qed (use none in \<open>simp add: iget_def wp_rules\<close>)
qed

lemma wpe_kret_abs: "wpe (kret x) Q E = Q x"
  by (rule ext) (simp add: wp_rules)

lemma wlp_keeps: "keeps refs m \<Longrightarrow> (\<And>x s'. refs s' = refs s \<Longrightarrow> Q x s') \<Longrightarrow> wlp m Q s"
  by (auto simp: keeps_def wlp_iff)

lemma drop_reference:
  assumes "one_more c ip s" "\<And>j. 0 \<le> c j"
  defines "s' \<equiv> upd_inode ip (iref_update (\<lambda>r. r - 1)) s"
  shows "icache_ok s'" "count s' = c"
proof -
  have o: "count s = c(ip := c ip + 1)" "icache_ok s" using assms(1) by (simp_all add: one_more_def)
  have n: "count s j = (if j = ip then c ip + 1 else c j)" for j using fun_cong [OF o(1), of j] by simp
  have id: "idev (inodes s' j) = idev (inodes s j)" "inum (inodes s' j) = inum (inodes s j)" for j
    by (simp_all add: s'_def upd_inode_def)
  have c: "count s' j = c j" for j using n [of j] by (cases "j = ip") (simp_all add: s'_def upd_inode_def)
  then show "count s' = c" by auto
  have "0 < count s j" if "0 < c j" for j using n [of j] that by (cases "j = ip") simp_all
  then show "icache_ok s'" using o(2) assms(2) unfolding icache_ok_def c id by blast
qed

lemma iput_one_less:
  assumes "one_more c ip s" "\<And>j. 0 \<le> c j"
  shows "wlp (iput ip) (\<lambda>_ s'. icache_ok s' \<and> count s' = c) s"
proof -
  have d: "icache_ok (upd_inode ip (iref_update (\<lambda>r. r - 1)) s') \<and> count (upd_inode ip (iref_update (\<lambda>r. r - 1)) s') = c"
    if "refs s' = refs s" for s'
    using drop_reference [OF one_more_refs [OF assms(1) that] assms(2)] by simp
  show ?thesis unfolding iput_def wpe_kbind wpe_kget
    by (rule wlp_keeps, (intro frames)[1]) (simp add: wp_rules d)
qed

lemma iunlockput_one_less:
  assumes "one_more c ip s" "\<And>j. 0 \<le> c j"
  shows "wlp (iunlockput ip) (\<lambda>_ s'. icache_ok s' \<and> count s' = c) s"
  unfolding iunlockput_def wpe_kbind
  by (rule wlp_keeps [OF refs_iunlock]) (rule iput_one_less [OF one_more_refs [OF assms(1)] assms(2)])

lemma dirlookup_one_more:
  assumes "quiet_devices devsw" "icache_ok s"
  shows "wlp (dirlookup devsw dp name) (\<lambda>r s'. case r of None \<Rightarrow> icache_ok s' \<and> count s' = count s
    | Some (ip, _) \<Rightarrow> one_more (count s) ip s') s"
proof -
  let ?Q = "\<lambda>c r s'. case r of None \<Rightarrow> icache_ok s' \<and> count s' = c | Some (ip, _) \<Rightarrow> one_more c ip s'"
  have loop: "wlp (dirlookup_loop devsw dp name offs) (?Q (count s)) s'" if "refs s' = refs s" for offs s'
    using that
  proof (induction offs arbitrary: s')
    case Nil
    then show ?case using refs_eqD [OF Nil] assms(2) by (simp add: wp_rules)
  next
    case (Cons off offs)
    show ?case unfolding dirlookup_loop.simps wpe_kbind
    proof (rule wlp_keeps [OF refs_read_dirent [OF assms(1)]])
      fix de and s1 :: "'a fst_scheme"
      assume "refs s1 = refs s'"
      then have r: "refs s1 = refs s" using Cons.prems by simp
      then have "icache_ok s1" "count s1 = count s" using refs_eqD [OF r] assms(2) by auto
      from iget_one_more [OF this(1)] this(2) Cons.IH [OF r]
      show "wlp (if de_inum de = 0 then dirlookup_loop devsw dp name offs
        else if namecmp name (de_name de) = 0 then
          kbind (kget (\<lambda>s. idev (inodes s dp))) (\<lambda>dev. kbind (iget dev (ucast (de_inum de))) (\<lambda>ip. kret (Some (ip, off))))
        else dirlookup_loop devsw dp name offs) (?Q (count s)) s1"
        by (simp add: wp_rules wpe_kret_abs)
    qed
  qed
  then show ?thesis by (simp add: dirlookup_def wp_rules)
qed

text \<open>Going from a directory to an entry of it: the reference to the directory is dropped, whether or not
  the entry is the directory itself.\<close>

lemma step_counts:
  fixes c :: "nat \<Rightarrow> int"
  assumes "one_more (c(ip := c ip + 1)) next s" "ip < NINODE"
  shows "one_more (c(next := c next + 1)) ip s"
  using assms by (auto simp: one_more_def fun_eq_iff)

lemma namex_loop_refs:
  fixes devsw :: "'a fst_scheme devsw"
  assumes "quiet_devices devsw" "\<And>j. 0 \<le> c j" "one_more c ip s"
  shows "wlp (namex_loop devsw np ip path name)
    (\<lambda>r s'. case r of None \<Rightarrow> icache_ok s' \<and> count s' = c | Some (ip', _) \<Rightarrow> one_more c ip' s') s"
  using assms(1,3)
proof (induction devsw np ip path name arbitrary: s rule: namex_loop.induct)
  case (1 devsw np ip path name)
  let ?Q = "\<lambda>r s'. case r of None \<Rightarrow> icache_ok s' \<and> count s' = c | Some (ip', _) \<Rightarrow> one_more c ip' s'"
  note q = \<open>quiet_devices devsw\<close>
  have end1: "wlp (kthen (iunlockput ip) (kret None)) (?Q :: (nat \<times> u8 list) option \<Rightarrow> _) s'" if "one_more c ip s'" for s' :: "'a fst_scheme"
    using iunlockput_one_less [OF that assms(2)] by (simp add: wp_rules wpe_kret_abs)
  show ?case
  proof (cases "skipelem path name")
    case None
    then show ?thesis using iput_one_less [OF 1(3) assms(2)] 1(3)
      by (subst namex_loop.simps) (simp add: wp_rules wpe_kret_abs)
  next
    case (Some z)
    then obtain path' name' where z: "skipelem path name = Some (path', name')" by (cases z) auto
    have IH: "wlp (namex_loop devsw np n path' name') ?Q s3" if "one_more c n s3" "\<not> (np \<and> path' = [])" for n s3
      using 1(1) [OF z refl, of T_DIR] that q by simp
    have found: "wlp (kthen (iunlock ip) (kret (Some (ip, name')))) ?Q s'" if "one_more c ip s'" for s' :: "'a fst_scheme"
      unfolding wpe_kbind wpe_kret_abs by (rule wlp_keeps [OF refs_iunlock]) (simp add: one_more_refs [OF that])
    have down: "wlp (kbind (dirlookup devsw ip name') (\<lambda>r. case r of None \<Rightarrow> kthen (iunlockput ip) (kret None)
        | Some (next, _) \<Rightarrow> kthen (iunlockput ip) (namex_loop devsw np next path' name'))) ?Q s'" if o: "one_more c ip s'" "\<not> (np \<and> path' = [])" for s' :: "'a fst_scheme"
    proof -
      have ok: "icache_ok s'" "ip < NINODE" "count s' = c(ip := c ip + 1)" using o(1) by (simp_all add: one_more_def)
      show ?thesis unfolding wpe_kbind
      proof (rule wpe_mono [OF dirlookup_one_more [OF q ok(1)]])
        fix r and s2 :: "'a fst_scheme"
        assume r: "case r of None \<Rightarrow> icache_ok s2 \<and> count s2 = count s' | Some (ip, _) \<Rightarrow> one_more (count s') ip s2"
        show "wlp (case r of None \<Rightarrow> kthen (iunlockput ip) (kret None)
          | Some (next, _) \<Rightarrow> kthen (iunlockput ip) (namex_loop devsw np next path' name')) ?Q s2"
        proof (cases r)
          case None
          then show ?thesis using r ok end1 by (simp add: one_more_def)
        next
          case (Some nx)
          obtain n off where nx: "nx = (n, off)" by (cases nx)
          have n: "one_more (c(ip := c ip + 1)) n s2" using r unfolding Some nx ok(3) by simp
          have "wlp (iunlockput ip) (\<lambda>_ s'. icache_ok s' \<and> count s' = c(n := c n + 1)) s2"
            by (rule iunlockput_one_less [OF step_counts [OF n ok(2)]]) (use assms(2) in \<open>simp add: add_nonneg_nonneg\<close>)
          then have "wlp (iunlockput ip) (\<lambda>_. wlp (namex_loop devsw np n path' name') ?Q) s2"
            by (rule wpe_mono) (use n IH o(2) in \<open>simp_all add: one_more_def\<close>)
          then show ?thesis using Some nx by (simp add: wp_rules)
        qed
      qed simp
    qed
    show ?thesis unfolding namex_loop.simps [of devsw np ip path name] z option.case prod.case wpe_kbind [of "ilock ip"]
    proof (rule wlp_keeps [OF refs_ilock])
      fix s' :: "'a fst_scheme"
      assume "refs s' = refs s"
      then have o: "one_more c ip s'" by (rule one_more_refs [OF 1(3)])
      show "wlp (kbind (kget (\<lambda>s. di_type (idi (inodes s ip)))) (\<lambda>type.
        if type \<noteq> T_DIR then kthen (iunlockput ip) (kret None)
        else if np \<and> path' = [] then kthen (iunlock ip) (kret (Some (ip, name')))
        else kbind (dirlookup devsw ip name') (\<lambda>r. case r of None \<Rightarrow> kthen (iunlockput ip) (kret None)
          | Some (next, _) \<Rightarrow> kthen (iunlockput ip) (namex_loop devsw np next path' name')))) ?Q s'"
        unfolding wpe_kbind [of "kget _"] wpe_kget using end1 [OF o] found [OF o] down [OF o] by (simp only: split: if_split) blast
    qed
  qed
qed

section \<open>Properties\<close>

text \<open>
  C4. Path lookup keeps the inode cache well formed and its reference counts in balance. From a cache with one
  entry for an inode in use and no negative count, whenever \<open>namex\<close> returns, for any path, existing or not, through
  directories, files and devices: the cache is well formed again, and either nothing was found and no
  count has changed, or exactly one new reference exists, to the inode that is returned.
\<close>

theorem namex_references:
  assumes "quiet_devices devsw" "icache_ok s" "cwd < NINODE" "0 < count s cwd"
    and "namex devsw cwd path np name s = Inr (r, s')"
  shows "icache_ok s' \<and> (case r of None \<Rightarrow> count s' = count s
    | Some (ip, _) \<Rightarrow> ip < NINODE \<and> count s' = (count s)(ip := count s ip + 1))"
proof -
  have "wlp (idup cwd) (one_more (count s)) s"
    using assms(2-4) by (auto simp: idup_def wp_rules one_more_def icache_ok_def upd_inode_def)
  then have "wlp (if path \<noteq> [] \<and> hd path = asc CHR ''/'' then iget ROOTDEV ROOTINO else idup cwd) (one_more (count s)) s"
    using iget_one_more [OF assms(2)] by simp
  then have "wlp (namex devsw cwd path np name)
      (\<lambda>r s'. case r of None \<Rightarrow> icache_ok s' \<and> count s' = count s | Some (ip', _) \<Rightarrow> one_more (count s) ip' s') s"
    unfolding namex_def wpe_kbind
    by (rule wpe_mono) (rule namex_loop_refs [OF assms(1)], use assms(2) in \<open>simp_all add: icache_ok_def\<close>)
  then show ?thesis using assms(5) by (auto simp: wlp_iff one_more_def split: option.splits)
qed

text \<open>An example: a root directory, inode 1, with one entry \<open>a\<close> for the inode 2; the cache holds the root.\<close>

definition root_dinode :: dinode where
  "root_dinode = \<lparr> di_type = T_DIR, di_major = 0, di_minor = 0, di_nlink = 1, di_size = 16,
    di_addrs = 5 # replicate NDIRECT 0 \<rparr>"

definition root_disk :: "u32 \<Rightarrow> block" where
  "root_disk = (\<lambda>_. replicate BSIZE 0)
    (2 := put_dinode 64 root_dinode (replicate BSIZE 0),
     5 := bsplice 0 (dirent_bytes \<lparr> de_inum = 2, de_name = padded (bytes ''a'') DIRSIZ \<rparr>) (replicate BSIZE 0))"

definition root_fs :: fst where
  "root_fs = \<lparr> disk = root_disk, disksize = 100, dtrace = [], bufs = bufs bst0, lru = rev [0..<NBUF], woken = [],
    lstart = 90, lsize = 10, lbusy = False, ldev = 1, lhn = 0, lhsector = replicate LOGSIZE 0,
    inodes = (\<lambda>ip. \<lparr> idev = 1, inum = 1, iref = (if ip = 0 then 1 else 0), ibusy = False, ivalid = False, idi = root_dinode \<rparr>) \<rparr>"

definition no_devices :: "fst devsw" where
  "no_devices = \<lparr> dev_read = (\<lambda>_. None), dev_write = (\<lambda>_. None) \<rparr>"

lemma root_lookup:
  "map_sum id (\<lambda>(r, s). (map_option fst r, inum (inodes s 1))) (namex no_devices 0 (bytes ''/a'') False (replicate DIRSIZ 0) root_fs) = Inr (Some 1, 2)"
  by code_simp

lemma root_fs_ok: "icache_ok root_fs" "0 < count root_fs 0" "quiet_devices no_devices"
  by (auto simp: icache_ok_def root_fs_def quiet_devices_def no_devices_def)

theorem namex_references_witness:
  "\<exists>name s'. namex no_devices 0 (bytes ''/a'') False (replicate DIRSIZ 0) root_fs = Inr (Some (1, name), s') \<and>
    inum (inodes s' 1) = 2 \<and> count s' = (count root_fs)(1 := 1)"
proof -
  obtain name s' where r: "namex no_devices 0 (bytes ''/a'') False (replicate DIRSIZ 0) root_fs = Inr (Some (1, name), s')" "inum (inodes s' 1) = 2"
    using root_lookup by (cases "namex no_devices 0 (bytes ''/a'') False (replicate DIRSIZ 0) root_fs") auto
  from namex_references [OF root_fs_ok(3,1) _ root_fs_ok(2) r(1)] have "count s' = (count root_fs)(1 := count root_fs 1 + 1)" by simp
  then show ?thesis using r by (simp add: root_fs_def)
qed

section \<open>The elements of a path\<close>

text \<open>The names that successive calls of \<open>skipelem\<close> deliver, as C strings of at most \<open>DIRSIZ\<close> characters.\<close>

function elements :: "u8 list \<Rightarrow> u8 list \<Rightarrow> u8 list list" where
  "elements path name =
    (case skipelem path name of None \<Rightarrow> [] | Some (path', name') \<Rightarrow> cstrn (chars name') DIRSIZ # elements path' name')"
  by pat_completeness auto
termination
  by (relation "measure (\<lambda>(path, name). length path)") (auto dest: skipelem_shorter)

declare elements.simps [simp del]

text \<open>The reference: cut at every slash and drop the empty parts.\<close>

fun cut :: "u8 list \<Rightarrow> u8 list \<Rightarrow> u8 list list" where
  "cut l [] = [l]"
| "cut l (c # s) = (if c = asc CHR ''/'' then l # cut [] s else cut (l @ [c]) s)"

definition components :: "u8 list \<Rightarrow> u8 list list" where
  "components path = filter (\<lambda>l. l \<noteq> []) (cut [] path)"

lemma cut_element: "asc CHR ''/'' \<notin> set l \<Longrightarrow> cut k (l @ s) = (case s of [] \<Rightarrow> [k @ l] | c # s' \<Rightarrow> cut (k @ l) s)"
proof (induction l arbitrary: k)
  case (Cons c l)
  then show ?case by (auto split: list.splits)
qed (simp split: list.splits)

lemma components_slashes: "components (dropWhile (\<lambda>c. c = asc CHR ''/'') path) = components path"
  by (induction path) (auto simp: components_def)

lemma cstrn_chars: "cstrn (chars xs) n = takeWhile (\<lambda>b. b \<noteq> 0) (take n xs)"
proof (induction xs arbitrary: n)
  case Nil
  then show ?case by (cases n) (simp_all add: cstrn_Suc chars_def)
next
  case (Cons x xs)
  have "(\<lambda>i. chars (x # xs) (Suc i)) = chars xs" by (simp add: chars_def fun_eq_iff)
  then show ?case using Cons by (cases n) (simp_all add: cstrn_Suc, simp add: chars_def)
qed

definition name_of :: "u8 list \<Rightarrow> u8 list \<Rightarrow> u8 list" where
  "name_of l name = (if length l \<ge> DIRSIZ then take DIRSIZ l else l @ [0] @ drop (length l + 1) name)"

lemma cstrn_name: "0 \<notin> set l \<Longrightarrow> cstrn (chars (name_of l name)) DIRSIZ = take DIRSIZ l"
proof -
  assume z: "0 \<notin> set l"
  show ?thesis
  proof (cases "length l \<ge> DIRSIZ")
    case True
    have "\<forall>b \<in> set (take DIRSIZ l). b \<noteq> 0" using z by (metis in_set_takeD)
    then show ?thesis using True unfolding cstrn_chars name_of_def by (simp add: takeWhile_eq_all_conv)
  next
    case False
    then obtain k where "DIRSIZ - length l = Suc k" by (metis Suc_diff_Suc not_le)
    moreover have "\<forall>b \<in> set l. b \<noteq> 0" using z by metis
    ultimately show ?thesis using False unfolding cstrn_chars name_of_def by simp
  qed
qed

lemma skipelem_parts:
  fixes path :: "u8 list"
  defines "p \<equiv> dropWhile (\<lambda>c. c = asc CHR ''/'') path"
  defines "l \<equiv> takeWhile (\<lambda>c. c \<noteq> asc CHR ''/'') p"
  defines "r \<equiv> dropWhile (\<lambda>c. c \<noteq> asc CHR ''/'') p"
  shows "skipelem path name = (if p = [] then None else Some (dropWhile (\<lambda>c. c = asc CHR ''/'') r, name_of l name))"
    "p = l @ r" "asc CHR ''/'' \<notin> set l" "p \<noteq> [] \<longrightarrow> l \<noteq> []" "r = [] \<or> hd r = asc CHR ''/''"
proof -
  show "skipelem path name = (if p = [] then None else Some (dropWhile (\<lambda>c. c = asc CHR ''/'') r, name_of l name))"
    unfolding skipelem_def Let_def p_def l_def r_def name_of_def ..
  show "p = l @ r" by (simp only: l_def r_def takeWhile_dropWhile_id)
  show "asc CHR ''/'' \<notin> set l" unfolding l_def by (metis (mono_tags, lifting) set_takeWhileD)
  show "p \<noteq> [] \<longrightarrow> l \<noteq> []" unfolding l_def takeWhile_eq_Nil_iff p_def using hd_dropWhile by blast
  show "r = [] \<or> hd r = asc CHR ''/''" unfolding r_def using hd_dropWhile by blast
qed

lemma components_Cons:
  assumes "asc CHR ''/'' \<notin> set l" "l \<noteq> []" "r = [] \<or> hd r = asc CHR ''/''"
  shows "components (l @ r) = l # components r"
proof (cases r)
  case Nil
  then show ?thesis using assms cut_element [OF assms(1), of "[]" "[]"] by (simp add: components_def)
next
  case (Cons c s)
  then show ?thesis using assms cut_element [OF assms(1), of "[]" r] by (simp add: components_def)
qed

text \<open>
  C37. A path is looked up element by element as written: the names that \<open>skipelem\<close> delivers one after the
  other are the parts between slashes that are not empty, each cut to \<open>DIRSIZ\<close> characters, however many slashes
  separate them, start the path or end it.
\<close>

theorem skipelem_components:
  "0 \<notin> set path \<Longrightarrow> elements path name = map (take DIRSIZ) (components path)"
proof (induction path name rule: elements.induct)
  case (1 path name)
  let ?sl = "asc CHR ''/''"
  define p where "p = dropWhile (\<lambda>c. c = ?sl) path"
  define l where "l = takeWhile (\<lambda>c. c \<noteq> ?sl) p"
  define r where "r = dropWhile (\<lambda>c. c \<noteq> ?sl) p"
  note sk = skipelem_parts(1) [of path name, folded p_def, folded l_def r_def]
    skipelem_parts(2-5) [of path, folded p_def, folded l_def r_def]
  show ?case
  proof (cases "p = []")
    case True
    then show ?thesis using components_slashes [of path] sk(1) unfolding p_def [symmetric]
      by (subst elements.simps) (simp add: components_def)
  next
    case False
    let ?r = "dropWhile (\<lambda>c. c = ?sl) r"
    have sk1: "skipelem path name = Some (?r, name_of l name)" using sk(1) False by (simp only: if_False)
    have z: "0 \<notin> set p" using 1(2) set_dropWhileD unfolding p_def by metis
    then have z': "0 \<notin> set l" "0 \<notin> set ?r" unfolding sk(2) by (auto dest: set_dropWhileD)
    have "elements ?r (name_of l name) = map (take DIRSIZ) (components ?r)" by (rule 1(1) [OF sk1 refl z'(2)])
    moreover have "l \<noteq> []" using sk(4) False by blast
    then have "components p = l # components r" unfolding sk(2) by (rule components_Cons [OF sk(3) _ sk(5)])
    then have "components path = l # components ?r" unfolding p_def components_slashes .
    ultimately show ?thesis using cstrn_name [OF z'(1)] by (subst elements.simps) (simp only: sk1 option.case prod.case list.map)
  qed
qed

theorem skipelem_components_witness:
  "elements (bytes ''//usr/bin///cat/'') (replicate DIRSIZ 0) = [bytes ''usr'', bytes ''bin'', bytes ''cat'']"
proof -
  have "0 \<notin> set (bytes ''//usr/bin///cat/'')" by simp
  from skipelem_components [OF this] have "elements (bytes ''//usr/bin///cat/'') (replicate DIRSIZ 0) =
    map (take DIRSIZ) (components (bytes ''//usr/bin///cat/''))" .
  also have "\<dots> = [bytes ''usr'', bytes ''bin'', bytes ''cat'']" by code_simp
  finally show ?thesis .
qed

end
