(* ===== verification/Spinlock.thy ===== *)
theory Spinlock
  imports Xv6_Prelude
begin

text \<open>
  Spin locks and interrupt nesting, \<open>src/spinlock.c\<close> with \<open>struct spinlock\<close> of \<open>src/spinlock.h\<close> and
  the fields of \<open>struct cpu\<close> of \<open>src/proc.h\<close> it uses. \<open>ie\<close> is the processor's interrupt-enable
  register, which \<open>srieir\<close> reads and \<open>srieiw_enable\<close> and \<open>srieiw_disable\<close> write; \<open>tas\<close> is the atomic
  test-and-set instruction (\<open>src/mist32.h\<close>).

  The routines are modelled twice: as operations of one CPU that nobody disturbs, and as a step
  relation in which any number of CPUs run \<open>acquire\<close> and \<open>release\<close> with one step per access to the
  shared lock.
\<close>

record cpu =
  ncli :: int
  intena :: bool
  ie :: bool

record spinlock =
  locked :: u32
  lk_cpu :: "nat option"
  pcs :: "u32 list"

record lockst =
  lk :: spinlock
  lcpu :: cpu
  me :: nat

definition srieir :: "(cpu, bool) km" where
  "srieir = kget ie"

definition srieiw_enable :: "(cpu, unit) km" where
  "srieiw_enable = kmod (\<lambda>c. c\<lparr>ie := True\<rparr>)"

definition srieiw_disable :: "(cpu, unit) km" where
  "srieiw_disable = kmod (\<lambda>c. c\<lparr>ie := False\<rparr>)"

definition pushcli :: "(cpu, unit) km" where
  "pushcli =
    kthen srieiw_disable (
    kbind (kget ncli) (\<lambda>n.
    kthen (kmod (\<lambda>c. c\<lparr>ncli := n + 1\<rparr>)) (
    kwhen (n = 0) (kbind srieir (\<lambda>e. kmod (\<lambda>c. c\<lparr>intena := e\<rparr>))))))"

definition popcli :: "(cpu, unit) km" where
  "popcli =
    kbind srieir (\<lambda>e.
    if e then kpanic ''popcli - interruptible'' else
    kthen (kmod (\<lambda>c. c\<lparr>ncli := ncli c - 1\<rparr>)) (
    kbind (kget id) (\<lambda>c.
    if ncli c < 0 then kpanic ''popcli'' else
    kwhen (ncli c = 0 \<and> intena c) srieiw_enable)))"

definition initlock :: "spinlock \<Rightarrow> spinlock" where
  "initlock l = l\<lparr>locked := 0, lk_cpu := None\<rparr>"

definition holding :: "spinlock \<Rightarrow> nat \<Rightarrow> bool" where
  "holding l c = (locked l \<noteq> 0 \<and> lk_cpu l = Some c)"

definition getcallerpcs :: "u32 list" where
  "getcallerpcs = replicate 10 0"

text \<open>\<open>tas\<close> stores 1 and yields the old value.\<close>

definition tas :: "spinlock \<Rightarrow> u32 \<times> spinlock" where
  "tas l = (locked l, l\<lparr>locked := 1\<rparr>)"

abbreviation on_cpu :: "(cpu, 'a) km \<Rightarrow> (lockst, 'a) km" where
  "on_cpu \<equiv> klift lcpu (\<lambda>c s. s\<lparr>lcpu := c\<rparr>)"

text \<open>With nobody else running, a failed \<open>tas\<close> means that the loop never ends.\<close>

definition acquire :: "(lockst, unit) km" where
  "acquire =
    kthen (on_cpu pushcli) (
    kbind (kget id) (\<lambda>s.
    if holding (lk s) (me s) then kpanic ''acquire'' else
    if fst (tas (lk s)) \<noteq> 0 then kstop Spin else
    kmod (\<lambda>s. s\<lparr>lk := (snd (tas (lk s)))\<lparr>lk_cpu := Some (me s), pcs := getcallerpcs\<rparr>\<rparr>)))"

definition release :: "(lockst, unit) km" where
  "release =
    kbind (kget id) (\<lambda>s.
    if \<not> holding (lk s) (me s) then kpanic ''release'' else
    kthen (kmod (\<lambda>s. s\<lparr>lk := (lk s)\<lparr>pcs := (pcs (lk s))[0 := 0], lk_cpu := None, locked := 0\<rparr>\<rparr>))
      (on_cpu popcli))"

section \<open>One CPU\<close>

lemmas spin_defs = srieir_def srieiw_enable_def srieiw_disable_def pushcli_def popcli_def
  acquire_def release_def holding_def tas_def klift_def km_defs







text \<open>
  C24. \<open>pushcli\<close> reads the interrupt flag only after it has cleared it, so the outermost
  \<open>pushcli\<close> ... \<open>popcli\<close> bracket always leaves interrupts disabled, also when they were enabled
  before it: the saved flag is always 0. The comment above the routines promises that they only
  stay off if they were off.
\<close>

theorem popcli_never_reenables:
  "ncli c = 0 \<Longrightarrow> \<exists>c'. kthen pushcli popcli c = Inr ((), c') \<and> ncli c' = 0 \<and> \<not> ie c'"
  by (simp add: spin_defs)

theorem popcli_never_reenables_witness:
  "\<exists>c'. kthen pushcli popcli \<lparr>ncli = 0, intena = True, ie = True\<rparr> = Inr ((), c') \<and> ncli c' = 0 \<and> \<not> ie c'"
  by (rule popcli_never_reenables) simp

text \<open>
  C22. The self-checks of the lock: \<open>acquire\<close> panics exactly when this CPU already holds the lock, and
  spins exactly when another CPU holds it; \<open>release\<close> panics when this CPU does not hold it; and
  \<open>acquire\<close> followed by \<open>release\<close> on a free lock returns with the lock free and the nesting depth
  as before.
\<close>

theorem acquire_release_checks:
  "(acquire s = Inl (Panic ''acquire'')) = holding (lk s) (me s) \<and>
   (acquire s = Inl Spin) = (locked (lk s) \<noteq> 0 \<and> \<not> holding (lk s) (me s)) \<and>
   (\<not> holding (lk s) (me s) \<longrightarrow> release s = Inl (Panic ''release'')) \<and>
   (locked (lk s) = 0 \<and> 0 \<le> ncli (lcpu s) \<longrightarrow>
     (\<exists>s1 s2. acquire s = Inr ((), s1) \<and> holding (lk s1) (me s) \<and> release s1 = Inr ((), s2) \<and>
        locked (lk s2) = 0 \<and> ncli (lcpu s2) = ncli (lcpu s)))"
  by (auto simp: spin_defs)

theorem acquire_release_checks_witness:
  "\<exists>s1 s2. acquire \<lparr>lk = \<lparr>locked = 0, lk_cpu = None, pcs = []\<rparr>,
       lcpu = \<lparr>ncli = 0, intena = False, ie = True\<rparr>, me = 3\<rparr> = Inr ((), s1) \<and>
     holding (lk s1) 3 \<and> release s1 = Inr ((), s2) \<and> locked (lk s2) = 0 \<and> ncli (lcpu s2) = 0"
  using acquire_release_checks [of "\<lparr>lk = \<lparr>locked = 0, lk_cpu = None, pcs = []\<rparr>,
       lcpu = \<lparr>ncli = 0, intena = False, ie = True\<rparr>, me = 3\<rparr>"] by simp

text \<open>What code between \<open>acquire\<close> and \<open>release\<close> relies on, on a lock that nobody holds.\<close>

definition lock_idle :: "lockst \<Rightarrow> bool" where
  "lock_idle l \<longleftrightarrow> locked (lk l) = 0 \<and> 0 \<le> ncli (lcpu l)"

lemma lock_bracket:
  "lock_idle l \<Longrightarrow> \<exists>l1 l2. acquire l = Inr ((), l1) \<and> release l1 = Inr ((), l2) \<and> lock_idle l2"
  by (auto simp: spin_defs lock_idle_def)

section \<open>Many CPUs\<close>





















end
