(* ===== verification/Kalloc.thy ===== *)
theory Kalloc
  imports Str Spinlock
begin

text \<open>
  The physical page allocator, \<open>src/kalloc.c\<close>, with the rounding macros of \<open>src/mmu.h\<close> and the address
  translation of \<open>src/memlayout.h\<close>. The free list is the one the code keeps: a chain through the first
  word of each free page, in memory. \<open>kend\<close> stands for the linker symbol \<open>end\<close>, the first address
  after the kernel image.

  The interface its clients rely on is the locale \<open>page_allocator\<close>; it is interpreted here on
  \<open>kalloc\<close> and \<open>kfree\<close>.
\<close>

abbreviation (input) PGSIZE :: u32 where "PGSIZE \<equiv> 4096"
abbreviation (input) KERNBASE :: u32 where "KERNBASE \<equiv> 0x80000000"
abbreviation (input) PHYSTOP :: u32 where "PHYSTOP \<equiv> 0x8000000"

definition PGROUNDUP :: "u32 \<Rightarrow> u32" where
  "PGROUNDUP sz = (sz + PGSIZE - 1) AND NOT (PGSIZE - 1)"

definition PGROUNDDOWN :: "u32 \<Rightarrow> u32" where
  "PGROUNDDOWN a = a AND NOT (PGSIZE - 1)"

definition v2p :: "u32 \<Rightarrow> u32" where
  "v2p a = a - KERNBASE"

definition p2v :: "u32 \<Rightarrow> u32" where
  "p2v a = a + KERNBASE"

record kmem =
  klock :: lockst
  use_lock :: bool
  freelist :: u32
  memory :: mem

abbreviation on_klock :: "(lockst, 'a) km \<Rightarrow> (kmem, 'a) km" where
  "on_klock \<equiv> klift klock (\<lambda>l s. s\<lparr>klock := l\<rparr>)"

definition kfree :: "u32 \<Rightarrow> u32 \<Rightarrow> (kmem, unit) km" where
  "kfree kend v =
    (if v mod PGSIZE \<noteq> 0 \<or> v < kend \<or> v2p v \<ge> PHYSTOP then kpanic ''kfree'' else
     kthen (kmod (\<lambda>s. s\<lparr>memory := memset (memory s) v 1 PGSIZE\<rparr>)) (
     kbind (kget use_lock) (\<lambda>ul.
     kthen (kwhen ul (on_klock acquire)) (
     kthen (kmod (\<lambda>s. s\<lparr>memory := store32 (memory s) v (freelist s)\<rparr>)) (
     kthen (kmod (\<lambda>s. s\<lparr>freelist := v\<rparr>)) (
     kwhen ul (on_klock release)))))))"

definition kalloc :: "(kmem, u32) km" where
  "kalloc =
    kbind (kget use_lock) (\<lambda>ul.
    kthen (kwhen ul (on_klock acquire)) (
    kbind (kget freelist) (\<lambda>r.
    kthen (kwhen (r \<noteq> 0) (kmod (\<lambda>s. s\<lparr>freelist := load32 (memory s) r\<rparr>))) (
    kthen (kwhen ul (on_klock release)) (
    kret r)))))"

lemma kfree_guard:
  "kfree kend v s = Inr (x, s') \<Longrightarrow> v mod PGSIZE = 0 \<and> kend \<le> v \<and> v2p v < PHYSTOP"
  by (auto simp: kfree_def kstop_def split: if_splits)

lemma kernel_page_no_wrap:
  assumes "v2p v < PHYSTOP"
  shows "unat v < 0x88000000" and "0x80000000 \<le> unat v"
proof -
  have "unat (v - 0x80000000) < 0x8000000" using assms by (simp add: v2p_def word_less_nat_alt)
  moreover have "unat (v - 0x80000000) = (if 0x80000000 \<le> unat v then unat v - 0x80000000
      else unat v + 2 ^ 32 - 0x80000000)"
    by (simp add: unat_sub_if_size word_size)
  ultimately show "unat v < 0x88000000" and "0x80000000 \<le> unat v"
    by (auto split: if_splits)
qed

text \<open>The loop of \<open>freerange\<close>: \<open>kfree\<close> panics before the address could wrap around.\<close>

function freerange_loop :: "u32 \<Rightarrow> u32 \<Rightarrow> u32 \<Rightarrow> kmem \<Rightarrow> stop + unit \<times> kmem" where
  "freerange_loop kend p vend s =
    (if p + PGSIZE \<le> vend then
       (case kfree kend p s of Inl e \<Rightarrow> Inl e
        | Inr (_, s') \<Rightarrow> freerange_loop kend (p + PGSIZE) vend s')
     else Inr ((), s))"
  by pat_completeness auto
termination
proof (relation "measure (\<lambda>(_, p, _, _). 2 ^ 32 - unat p)")
  fix kend p vend s y x s'
  assume "kfree kend p s = Inr y" "(x, s') = y"
  then have "v2p p < PHYSTOP" using kfree_guard by blast
  then have "unat p < 0x88000000" by (rule kernel_page_no_wrap)
  then have "unat (p + PGSIZE) = unat p + 4096" by (simp add: unat_word_ariths)
  then show "((kend, p + PGSIZE, vend, s'), kend, p, vend, s) \<in> measure (\<lambda>(_, p, _, _). 2 ^ 32 - unat p)"
    using unat_u32_bound [of p] by simp
qed simp

declare freerange_loop.simps [simp del]

definition freerange :: "u32 \<Rightarrow> u32 \<Rightarrow> u32 \<Rightarrow> (kmem, unit) km" where
  "freerange kend vstart vend = freerange_loop kend (PGROUNDUP vstart) vend"

definition kinit1 :: "u32 \<Rightarrow> u32 \<Rightarrow> u32 \<Rightarrow> (kmem, unit) km" where
  "kinit1 kend vstart vend =
    kthen (kmod (\<lambda>s. s\<lparr>klock := (klock s)\<lparr>lk := initlock (lk (klock s))\<rparr>\<rparr>)) (
    kthen (kmod (\<lambda>s. s\<lparr>use_lock := False\<rparr>)) (
    freerange kend vstart vend))"

definition kinit2 :: "u32 \<Rightarrow> u32 \<Rightarrow> u32 \<Rightarrow> (kmem, unit) km" where
  "kinit2 kend vstart vend =
    kthen (freerange kend vstart vend) (kmod (\<lambda>s. s\<lparr>use_lock := True\<rparr>))"

section \<open>What the operations do\<close>

definition page_ok :: "u32 \<Rightarrow> u32 \<Rightarrow> bool" where
  "page_ok kend v \<longleftrightarrow> v mod PGSIZE = 0 \<and> kend \<le> v \<and> v2p v < PHYSTOP"

definition klock_ok :: "kmem \<Rightarrow> bool" where
  "klock_ok s \<longleftrightarrow> (use_lock s \<longrightarrow> lock_idle (klock s))"

lemma kalloc_result:
  assumes "klock_ok s"
  shows "\<exists>l. kalloc s = Inr (freelist s, s\<lparr>klock := l,
      freelist := (if freelist s = 0 then 0 else load32 (memory s) (freelist s))\<rparr>) \<and>
    (use_lock s \<longrightarrow> lock_idle l)"
proof (cases "use_lock s")
  case True
  then obtain l1 l2 where "acquire (klock s) = Inr ((), l1)" "release l1 = Inr ((), l2)" "lock_idle l2"
    using assms lock_bracket [of "klock s"] by (auto simp: klock_ok_def)
  then show ?thesis using True by (intro exI [of _ l2]) (auto simp: kalloc_def klift_def km_defs)
next
  case False
  then show ?thesis by (intro exI [of _ "klock s"]) (auto simp: kalloc_def km_defs)
qed

lemma kfree_result:
  assumes "klock_ok s" and "page_ok kend v"
  shows "\<exists>l. kfree kend v s = Inr ((), s\<lparr>klock := l, freelist := v,
      memory := store32 (memset (memory s) v 1 PGSIZE) v (freelist s)\<rparr>) \<and>
    (use_lock s \<longrightarrow> lock_idle l)"
proof (cases "use_lock s")
  case True
  then obtain l1 l2 where "acquire (klock s) = Inr ((), l1)" "release l1 = Inr ((), l2)" "lock_idle l2"
    using assms lock_bracket [of "klock s"] by (auto simp: klock_ok_def)
  then show ?thesis using True assms(2)
    by (intro exI [of _ l2]) (auto simp: kfree_def page_ok_def klift_def km_defs)
next
  case False
  then show ?thesis using assms(2)
    by (intro exI [of _ "klock s"]) (auto simp: kfree_def page_ok_def km_defs)
qed

section \<open>Pages\<close>

text \<open>Being inside the page that starts at \<open>v\<close>.\<close>

definition in_page :: "u32 \<Rightarrow> u32 \<Rightarrow> bool" where
  "in_page v a \<longleftrightarrow> a - v < PGSIZE"

lemma in_page_div:
  assumes "v mod PGSIZE = 0"
  shows "in_page v a \<longleftrightarrow> unat a div 4096 = unat v div 4096"
proof -
  have v: "unat v mod 4096 = 0" using assms unat_mod [of v PGSIZE] by simp
  have "unat (a - v) = (if unat v \<le> unat a then unat a - unat v else unat a + 2 ^ 32 - unat v)"
    by (simp add: unat_sub_if_size word_size)
  then have "in_page v a \<longleftrightarrow> (if unat v \<le> unat a then unat a - unat v < 4096 else unat a + 2 ^ 32 - unat v < 4096)"
    by (simp add: in_page_def word_less_nat_alt)
  moreover have "unat a < 2 ^ 32" "unat v < 2 ^ 32" by (rule unat_u32_bound)+
  ultimately show ?thesis using v by (auto split: if_splits)
qed

lemma in_page_offset:
  assumes "v mod PGSIZE = 0" and "k < 4096"
  shows "in_page v (v + word_of_nat k)"
  using assms(2) by (simp add: in_page_def word_less_nat_alt unat_of_nat)

lemma pages_apart:
  assumes "v mod PGSIZE = 0" "w mod PGSIZE = 0" "v \<noteq> w" "in_page v a"
  shows "\<not> in_page w a"
proof
  assume "in_page w a"
  then have "unat v div 4096 = unat w div 4096"
    using assms by (simp add: in_page_div)
  moreover have "unat v mod 4096 = 0" "unat w mod 4096 = 0"
    using assms(1,2) unat_mod [of v PGSIZE] unat_mod [of w PGSIZE] by simp_all
  ultimately have "unat v = unat w"
    using div_mult_mod_eq [of "unat v" 4096] div_mult_mod_eq [of "unat w" 4096] by simp
  with assms(3) show False by (simp add: word_unat_eq_iff)
qed

lemma word_in_page:
  assumes "v mod PGSIZE = 0"
  shows "in_page v v" "in_page v (v + 1)" "in_page v (v + 2)" "in_page v (v + 3)"
  using in_page_offset [OF assms, of 0] in_page_offset [OF assms, of 1]
    in_page_offset [OF assms, of 2] in_page_offset [OF assms, of 3] by simp_all

text \<open>Two memories that agree on a page agree on its first word.\<close>

lemma load32_page_cong:
  assumes "v mod PGSIZE = 0" "\<And>a. in_page v a \<Longrightarrow> m a = m' a"
  shows "load32 m v = load32 m' v"
  using word_in_page [OF assms(1)] assms(2) by (simp add: load32_def)

lemma kfree_memory_other:
  assumes "v mod PGSIZE = 0" "\<not> in_page v a"
  shows "store32 (memset m v 1 PGSIZE) v x a = m a"
  using assms word_in_page [OF assms(1)] by (auto simp: store32_def memset_fill in_page_def)

section \<open>Rounding\<close>

lemma PGROUNDDOWN_minus: "PGROUNDDOWN a = a - a mod PGSIZE"
proof -
  have mask: "(PGSIZE - 1 :: u32) = mask 12" by (simp add: mask_eq_exp_minus_1)
  have "a mod PGSIZE = a AND mask 12" by (simp add: take_bit_eq_mask [symmetric] take_bit_eq_mod)
  moreover have "a - (a AND mask 12) = a AND NOT (a AND mask 12)"
    by (rule disjunctive_diff_eq_and_not) (rule bit_word_eqI, simp add: bit_simps)
  moreover have "a AND NOT (a AND mask 12) = a AND NOT (mask 12)"
    by (rule bit_word_eqI) (auto simp: bit_simps)
  ultimately show ?thesis by (simp only: PGROUNDDOWN_def mask)
qed

lemma unat_PGROUNDDOWN: "unat (PGROUNDDOWN a) = unat a div 4096 * 4096"
proof -
  have m: "unat (a mod PGSIZE) = unat a mod 4096" using unat_mod [of a PGSIZE] by simp
  then have "unat (a - a mod PGSIZE) = unat a - unat a mod 4096"
    by (subst unat_sub) (simp_all add: word_le_nat_alt)
  then show ?thesis by (simp add: PGROUNDDOWN_minus minus_mod_eq_div_mult)
qed

lemma PGROUNDUP_down: "PGROUNDUP sz = PGROUNDDOWN (sz + 4095)"
  by (simp add: PGROUNDUP_def PGROUNDDOWN_def add.commute)

lemma unat_PGROUNDUP:
  assumes "unat sz \<le> 2 ^ 32 - 4096"
  shows "unat (PGROUNDUP sz) = (unat sz + 4095) div 4096 * 4096"
proof -
  have "unat (sz + 4095) = unat sz + 4095" using assms by (simp add: unat_word_ariths)
  then show ?thesis by (simp add: PGROUNDUP_down unat_PGROUNDDOWN)
qed

lemma page_aligned_unat: "v mod PGSIZE = 0 \<longleftrightarrow> 4096 dvd unat v"
  using unat_mod [of v PGSIZE] by (simp add: word_unat_eq_iff dvd_eq_mod_eq_0)

text \<open>
  \<open>PGROUNDUP\<close> and \<open>PGROUNDDOWN\<close> give the next page boundary at or after, and the last one at or
  before, their argument; \<open>PGROUNDUP\<close> needs that the boundary fits in 32 bits.
\<close>

lemma page_rounding:
  "4096 dvd unat (PGROUNDDOWN a) \<and> unat (PGROUNDDOWN a) \<le> unat a \<and> unat a < unat (PGROUNDDOWN a) + 4096 \<and>
   (unat a \<le> 2 ^ 32 - 4096 \<longrightarrow>
     4096 dvd unat (PGROUNDUP a) \<and> unat a \<le> unat (PGROUNDUP a) \<and> unat (PGROUNDUP a) < unat a + 4096)"
proof -
  have "unat a div 4096 * 4096 \<le> unat a" "unat a < unat a div 4096 * 4096 + 4096"
    using div_mult_mod_eq [of "unat a" 4096] mod_less_divisor [of 4096 "unat a"] by linarith+
  moreover have "unat a \<le> (unat a + 4095) div 4096 * 4096" "(unat a + 4095) div 4096 * 4096 < unat a + 4096"
    using div_mult_mod_eq [of "unat a + 4095" 4096] mod_less_divisor [of 4096 "unat a + 4095"] by linarith+
  ultimately show ?thesis by (simp add: unat_PGROUNDDOWN unat_PGROUNDUP)
qed

lemma page_rounding_0x1001: "unat (0x1001 :: u32) \<le> 2 ^ 32 - 4096 \<and> unat (0x1001 :: u32) \<le> unat (PGROUNDUP 0x1001)"
  using page_rounding [of "0x1001"] by simp

section \<open>The free list\<close>

fun runs :: "mem \<Rightarrow> u32 \<Rightarrow> u32 list \<Rightarrow> bool" where
  "runs m p [] = (p = 0)"
| "runs m p (a # ps) = (p = a \<and> a \<noteq> 0 \<and> runs m (load32 m a) ps)"

lemma runs_cong: "(\<And>p. p \<in> set ps \<Longrightarrow> load32 m p = load32 m' p) \<Longrightarrow> runs m a ps = runs m' a ps"
  by (induction ps arbitrary: a) auto

text \<open>The allocator's invariant: \<open>ps\<close> is the free list, in order, of distinct usable pages.\<close>

definition kmem_rep :: "u32 \<Rightarrow> kmem \<Rightarrow> u32 list \<Rightarrow> bool" where
  "kmem_rep kend s ps \<longleftrightarrow>
    klock_ok s \<and> runs (memory s) (freelist s) ps \<and> distinct ps \<and> (\<forall>p \<in> set ps. page_ok kend p)"

lemma page_ok_nonzero: "page_ok kend p \<Longrightarrow> p \<noteq> 0"
  by (auto simp: page_ok_def v2p_def)

lemma page_ok_aligned: "page_ok kend p \<Longrightarrow> p mod PGSIZE = 0"
  by (simp add: page_ok_def)

lemma runs_memory_other:
  assumes "\<And>p. p \<in> set ps \<Longrightarrow> page_ok kend p" "page_ok kend v" "v \<notin> set ps"
    and "\<And>a. \<not> in_page v a \<Longrightarrow> m' a = m a"
  shows "runs m' x ps = runs m x ps"
proof (rule runs_cong)
  fix p
  assume p: "p \<in> set ps"
  then have "p mod PGSIZE = 0" "v mod PGSIZE = 0" "p \<noteq> v"
    using assms page_ok_aligned by blast+
  then have "m' a = m a" if "in_page p a" for a
    using that by (intro assms(4)) (rule pages_apart)
  with \<open>p mod PGSIZE = 0\<close> show "load32 m' p = load32 m p" by (rule load32_page_cong)
qed

lemma kalloc_empty:
  assumes "kmem_rep kend s []"
  shows "\<exists>s'. kalloc s = Inr (0, s') \<and> kmem_rep kend s' [] \<and> memory s' = memory s"
proof -
  have "klock_ok s" "freelist s = 0" using assms by (auto simp: kmem_rep_def)
  then show ?thesis
    using kalloc_result [of s] by (auto simp: kmem_rep_def klock_ok_def)
qed

lemma kalloc_Cons:
  assumes "kmem_rep kend s (p # ps)"
  shows "\<exists>s'. kalloc s = Inr (p, s') \<and> kmem_rep kend s' ps \<and> memory s' = memory s"
proof -
  have "klock_ok s" "freelist s = p" "p \<noteq> 0" "runs (memory s) (load32 (memory s) p) ps"
    "distinct ps" "\<forall>q \<in> set ps. page_ok kend q"
    using assms by (auto simp: kmem_rep_def)
  then show ?thesis
    using kalloc_result [of s] by (auto simp: kmem_rep_def klock_ok_def)
qed

lemma kfree_Cons:
  assumes "kmem_rep kend s ps" "page_ok kend v" "v \<notin> set ps"
  shows "\<exists>s'. kfree kend v s = Inr ((), s') \<and> kmem_rep kend s' (v # ps) \<and>
    (\<forall>a. \<not> in_page v a \<longrightarrow> memory s' a = memory s a)"
proof -
  let ?m = "store32 (memset (memory s) v 1 PGSIZE) v (freelist s)"
  obtain l where l: "kfree kend v s = Inr ((), s\<lparr>klock := l, freelist := v, memory := ?m\<rparr>)"
    "use_lock s \<longrightarrow> lock_idle l"
    using kfree_result [of s kend v] assms by (auto simp: kmem_rep_def)
  have other: "?m a = memory s a" if "\<not> in_page v a" for a
    using kfree_memory_other [OF page_ok_aligned [OF assms(2)] that] .
  have "runs ?m (freelist s) ps = runs (memory s) (freelist s) ps"
    using assms other by (intro runs_memory_other [of _ kend v]) (auto simp: kmem_rep_def)
  then have "runs ?m v (v # ps)"
    using assms page_ok_nonzero by (auto simp: kmem_rep_def)
  then have "kmem_rep kend (s\<lparr>klock := l, freelist := v, memory := ?m\<rparr>) (v # ps)"
    using assms l(2) by (auto simp: kmem_rep_def klock_ok_def)
  then show ?thesis using l(1) other by auto
qed

text \<open>A client that writes one byte.\<close>

definition poke :: "u32 \<Rightarrow> u8 \<Rightarrow> kmem \<Rightarrow> kmem" where
  "poke a b s = s\<lparr>memory := (memory s)(a := b)\<rparr>"

lemma poke_rep:
  assumes "kmem_rep kend s ps" "page_ok kend v" "v \<notin> set ps" "in_page v a"
  shows "kmem_rep kend (poke a b s) ps"
proof -
  have "runs ((memory s)(a := b)) (freelist s) ps = runs (memory s) (freelist s) ps"
    using assms by (intro runs_memory_other [of _ kend v]) (auto simp: kmem_rep_def)
  with assms(1) show ?thesis by (simp add: kmem_rep_def poke_def klock_ok_def)
qed

section \<open>The allocator as an interface\<close>

text \<open>
  Clients allocate, free what they own, and write into the pages they own. \<open>page_run\<close> is any
  sequence of such requests; the list is what the clients own.
\<close>

datatype page_op = Alloc | Free u32 | Poke u32 u8

fun page_run :: "('s, u32) km \<Rightarrow> (u32 \<Rightarrow> ('s, unit) km) \<Rightarrow> (u32 \<Rightarrow> u8 \<Rightarrow> 's \<Rightarrow> 's) \<Rightarrow>
    page_op list \<Rightarrow> u32 list \<Rightarrow> ('s, u32 list) km" where
  "page_run alloc free wr [] own = kret own"
| "page_run alloc free wr (Alloc # ops) own =
    kbind alloc (\<lambda>r. page_run alloc free wr ops (if r = 0 then own else r # own))"
| "page_run alloc free wr (Free p # ops) own =
    (if p \<in> set own then kthen (free p) (page_run alloc free wr ops (remove1 p own))
     else page_run alloc free wr ops own)"
| "page_run alloc free wr (Poke a b # ops) own =
    (if \<exists>p \<in> set own. in_page p a then kthen (kmod (wr a b)) (page_run alloc free wr ops own)
     else page_run alloc free wr ops own)"

locale page_allocator =
  fixes alloc :: "('s, u32) km"
    and free :: "u32 \<Rightarrow> ('s, unit) km"
    and wr :: "u32 \<Rightarrow> u8 \<Rightarrow> 's \<Rightarrow> 's"
    and usable :: "u32 \<Rightarrow> bool"
    and rep :: "'s \<Rightarrow> u32 list \<Rightarrow> bool"
  assumes alloc_none: "rep s [] \<Longrightarrow> \<exists>s'. alloc s = Inr (0, s') \<and> rep s' []"
    and alloc_first: "rep s (p # ps) \<Longrightarrow> \<exists>s'. alloc s = Inr (p, s') \<and> rep s' ps"
    and free_page: "rep s ps \<Longrightarrow> usable p \<Longrightarrow> p \<notin> set ps \<Longrightarrow> \<exists>s'. free p s = Inr ((), s') \<and> rep s' (p # ps)"
    and wr_page: "rep s ps \<Longrightarrow> usable p \<Longrightarrow> p \<notin> set ps \<Longrightarrow> in_page p a \<Longrightarrow> rep (wr a b s) ps"
    and rep_pages: "rep s ps \<Longrightarrow> distinct ps \<and> (\<forall>p \<in> set ps. usable p \<and> p \<noteq> 0)"
begin

lemma run_keeps_pages:
  assumes "rep s ps" "distinct (ps @ own)" "\<forall>p \<in> set own. usable p"
  shows "\<exists>s' own' ps'. page_run alloc free wr ops own s = Inr (own', s') \<and> rep s' ps' \<and>
    distinct (ps' @ own') \<and> set ps' \<union> set own' = set ps \<union> set own"
  using assms
proof (induction ops arbitrary: s ps own)
  case Nil
  then show ?case by (auto simp: kret_def)
next
  case (Cons op ops)
  show ?case
  proof (cases op)
    case Alloc
    show ?thesis
    proof (cases ps)
      case Nil
      then obtain s' where "alloc s = Inr (0, s')" "rep s' []" using alloc_none Cons.prems by blast
      then show ?thesis using Cons.IH [of s' "[]" own] Cons.prems Nil Alloc by (simp add: kbind_Inr)
    next
      case ps: (Cons p qs)
      then obtain s' where s': "alloc s = Inr (p, s')" "rep s' qs" using alloc_first Cons.prems by blast
      have "usable p" "p \<noteq> 0" using rep_pages Cons.prems(1) ps by auto
      moreover have "distinct (qs @ p # own)" using Cons.prems(2) ps by auto
      ultimately show ?thesis
        using Cons.IH [of s' qs "p # own"] s' Cons.prems(3) ps Alloc by (auto simp: kbind_Inr)
    qed
  next
    case (Free p)
    show ?thesis
    proof (cases "p \<in> set own")
      case True
      then have p: "p \<notin> set ps" "usable p" "distinct own" using Cons.prems by auto
      then obtain s' where s': "free p s = Inr ((), s')" "rep s' (p # ps)" using free_page Cons.prems(1) by blast
      have "distinct ((p # ps) @ remove1 p own)" "\<forall>q \<in> set (remove1 p own). usable q"
        using Cons.prems(2,3) p by (auto simp: set_remove1_eq dest: notin_set_remove1)
      moreover have "set (p # ps) \<union> set (remove1 p own) = set ps \<union> set own"
        using True p by (auto simp: set_remove1_eq)
      ultimately show ?thesis
        using Cons.IH [OF s'(2), of "remove1 p own"] s' True Free by (simp add: kbind_Inr)
    next
      case False
      with Cons Free show ?thesis by simp
    qed
  next
    case (Poke a b)
    show ?thesis
    proof (cases "\<exists>p \<in> set own. in_page p a")
      case True
      then obtain p where "p \<in> set own" "in_page p a" by blast
      moreover from this have "p \<notin> set ps" "usable p" using Cons.prems(2,3) by auto
      ultimately have "rep (wr a b s) ps" using wr_page Cons.prems(1) by blast
      then show ?thesis using Cons.IH Cons.prems True Poke by (simp add: kbind_def kmod_def)
    next
      case False
      then have "page_run alloc free wr (op # ops) own = page_run alloc free wr ops own"
        using Poke by simp
      then show ?thesis using Cons.IH [OF Cons.prems] by simp
    qed
  qed
qed

end

interpretation kpages: page_allocator kalloc "kfree kend" poke "page_ok kend" "kmem_rep kend" for kend
proof
  fix s p ps a b
  show "kmem_rep kend s [] \<Longrightarrow> \<exists>s'. kalloc s = Inr (0, s') \<and> kmem_rep kend s' []"
    using kalloc_empty by blast
  show "kmem_rep kend s (p # ps) \<Longrightarrow> \<exists>s'. kalloc s = Inr (p, s') \<and> kmem_rep kend s' ps"
    using kalloc_Cons by blast
  show "kmem_rep kend s ps \<Longrightarrow> page_ok kend p \<Longrightarrow> p \<notin> set ps \<Longrightarrow>
      \<exists>s'. kfree kend p s = Inr ((), s') \<and> kmem_rep kend s' (p # ps)"
    using kfree_Cons by blast
  show "kmem_rep kend s ps \<Longrightarrow> page_ok kend p \<Longrightarrow> p \<notin> set ps \<Longrightarrow> in_page p a \<Longrightarrow>
      kmem_rep kend (poke a b s) ps"
    by (rule poke_rep)
  show "kmem_rep kend s ps \<Longrightarrow> distinct ps \<and> (\<forall>p \<in> set ps. page_ok kend p \<and> p \<noteq> 0)"
    using page_ok_nonzero by (auto simp: kmem_rep_def)
qed

text \<open>
  C7. No page is lost or handed out twice: through any sequence of \<open>kalloc\<close>, \<open>kfree\<close> of owned pages and
  writes by the owners (which may overwrite the whole page), the allocator never panics, the pages
  on the free list and the pages the clients own stay distinct, and together they remain the same
  set of pages.
\<close>

theorem kalloc_ownership:
  assumes "kmem_rep kend s ps" "distinct (ps @ own)" "\<forall>p \<in> set own. page_ok kend p"
  shows "\<exists>s' own' ps'. page_run kalloc (kfree kend) poke ops own s = Inr (own', s') \<and>
    kmem_rep kend s' ps' \<and> distinct (ps' @ own') \<and> set ps' \<union> set own' = set ps \<union> set own"
  using assms by (rule kpages.run_keeps_pages)

definition kmem_empty :: kmem where
  "kmem_empty = \<lparr>klock = \<lparr>lk = \<lparr>locked = 0, lk_cpu = None, pcs = []\<rparr>,
     lcpu = \<lparr>ncli = 0, intena = False, ie = False\<rparr>, me = 0\<rparr>,
     use_lock = True, freelist = 0, memory = (\<lambda>_. 0)\<rparr>"

lemma kmem_rep_empty: "kmem_rep kend kmem_empty []"
  by (simp add: kmem_rep_def kmem_empty_def klock_ok_def lock_idle_def)

theorem kalloc_ownership_witness:
  "\<exists>s' own' ps'. page_run kalloc (kfree 0x80100000) poke
      [Free 0x80200000, Alloc, Poke 0x80201005 7, Free 0x80201000] [0x80200000, 0x80201000] kmem_empty = Inr (own', s') \<and>
    kmem_rep 0x80100000 s' ps' \<and> distinct (ps' @ own') \<and> set ps' \<union> set own' = {0x80200000, 0x80201000}"
  using kalloc_ownership [OF kmem_rep_empty [of "0x80100000"], of "[0x80200000, 0x80201000]"
      "[Free 0x80200000, Alloc, Poke 0x80201005 7, Free 0x80201000]"]
  by (simp add: page_ok_def v2p_def del: page_run.simps)

text \<open>
  C18. \<open>kfree\<close> followed by \<open>kalloc\<close> gives the same page back, the free list is as before, the page holds
  the junk byte 1 everywhere behind its first word, and no other page was touched. \<open>kfree\<close> panics on an
  address that is not a page of allocatable memory.
\<close>

theorem kfree_kalloc_roundtrip:
  assumes "kmem_rep kend s ps" "v \<notin> set ps"
  shows "(page_ok kend v \<longrightarrow>
      (\<exists>s'. kbind (kfree kend v) (\<lambda>_. kalloc) s = Inr (v, s') \<and> kmem_rep kend s' ps \<and>
        (\<forall>a. \<not> in_page v a \<longrightarrow> memory s' a = memory s a) \<and>
        (\<forall>k. 4 \<le> k \<and> k < 4096 \<longrightarrow> memory s' (v + word_of_nat k) = 1))) \<and>
    (\<not> page_ok kend v \<longrightarrow> kfree kend v s = Inl (Panic ''kfree''))"
proof (intro conjI impI)
  assume v: "page_ok kend v"
  let ?m = "store32 (memset (memory s) v 1 PGSIZE) v (freelist s)"
  obtain l where l: "kfree kend v s = Inr ((), s\<lparr>klock := l, freelist := v, memory := ?m\<rparr>)"
    using kfree_result [of s kend v] assms v by (auto simp: kmem_rep_def)
  then obtain s' where s': "kalloc (s\<lparr>klock := l, freelist := v, memory := ?m\<rparr>) = Inr (v, s')"
    "kmem_rep kend s' ps" "memory s' = ?m"
    using kfree_Cons [OF assms(1) v assms(2)] kalloc_Cons by fastforce
  have "?m (v + word_of_nat k) = 1" if "4 \<le> k" "k < 4096" for k
  proof -
    have "unat (word_of_nat k :: u32) = k" using that by (simp add: unat_of_nat)
    then have "word_of_nat k \<noteq> (0 :: u32)" "word_of_nat k \<noteq> (1 :: u32)" "word_of_nat k \<noteq> (2 :: u32)"
      "word_of_nat k \<noteq> (3 :: u32)" "(word_of_nat k :: u32) < 4096"
      using that by (auto simp: word_less_nat_alt)
    then show ?thesis by (simp add: store32_def memset_fill)
  qed
  then show "\<exists>s'. kbind (kfree kend v) (\<lambda>_. kalloc) s = Inr (v, s') \<and> kmem_rep kend s' ps \<and>
        (\<forall>a. \<not> in_page v a \<longrightarrow> memory s' a = memory s a) \<and>
        (\<forall>k. 4 \<le> k \<and> k < 4096 \<longrightarrow> memory s' (v + word_of_nat k) = 1)"
    using l s' kfree_memory_other [OF page_ok_aligned [OF v]] by (simp add: kbind_Inr)
next
  assume "\<not> page_ok kend v"
  then have "v mod PGSIZE \<noteq> 0 \<or> v < kend \<or> v2p v \<ge> PHYSTOP"
    unfolding page_ok_def by (metis not_le)
  then show "kfree kend v s = Inl (Panic ''kfree'')"
    by (simp only: kfree_def if_True kstop_def)
qed

theorem kfree_kalloc_roundtrip_witness:
  "\<exists>s'. kbind (kfree 0x80100000 0x80200000) (\<lambda>_. kalloc) kmem_empty = Inr (0x80200000, s') \<and>
    kmem_rep 0x80100000 s' []"
  using kfree_kalloc_roundtrip [OF kmem_rep_empty [of "0x80100000"], of "0x80200000"]
  by (auto simp: page_ok_def v2p_def)

section \<open>Freeing a range\<close>

definition pages_from :: "u32 \<Rightarrow> nat \<Rightarrow> u32 list" where
  "pages_from p n = map (\<lambda>i. p + 4096 * word_of_nat i) [0..<n]"

lemma pages_from_Suc: "pages_from p (Suc n) = p # pages_from (p + 4096) n"
  by (simp add: pages_from_def map_upt_Suc algebra_simps del: upt_Suc)

lemma unat_pages_from:
  "unat p + 4096 * n < 2 ^ 32 \<Longrightarrow> i < n \<Longrightarrow> unat (p + 4096 * word_of_nat i :: u32) = unat p + 4096 * i"
  by (simp add: unat_word_ariths unat_of_nat)

lemma freerange_loop_pages:
  assumes "kmem_rep kend s ps" "p mod PGSIZE = 0" "kend \<le> p" "KERNBASE \<le> p"
    and "unat p + 4096 * n \<le> unat vend" "unat vend < unat p + 4096 * n + 4096" "unat vend \<le> 0x88000000"
    and "set (pages_from p n) \<inter> set ps = {}"
  shows "\<exists>s'. freerange_loop kend p vend s = Inr ((), s') \<and> kmem_rep kend s' (rev (pages_from p n) @ ps)"
  using assms
proof (induction n arbitrary: s ps p)
  case 0
  then have "\<not> p + PGSIZE \<le> vend" by (simp add: word_le_nat_alt unat_word_ariths)
  then show ?case using "0.prems"(1) by (simp add: freerange_loop.simps pages_from_def)
next
  case (Suc n)
  have up: "unat (p + PGSIZE) = unat p + 4096" using Suc.prems(5,7) by (simp add: unat_word_ariths)
  have "unat (v2p p) < 0x8000000"
    using Suc.prems(4,5,7) by (simp add: v2p_def unat_sub word_le_nat_alt)
  then have p: "page_ok kend p"
    using Suc.prems(2,3) by (simp add: page_ok_def word_less_nat_alt)
  have fresh: "p \<notin> set ps" using Suc.prems(8) by (simp add: pages_from_Suc)
  obtain s1 where s1: "kfree kend p s = Inr ((), s1)" "kmem_rep kend s1 (p # ps)"
    using kfree_Cons [OF Suc.prems(1) p fresh] by blast
  have "p \<notin> set (pages_from (p + 4096) n)"
  proof
    assume "p \<in> set (pages_from (p + 4096) n)"
    then obtain i where i: "i < n" "p = p + 4096 + 4096 * word_of_nat i" by (auto simp: pages_from_def)
    have "unat (p + 4096 + 4096 * word_of_nat i) = unat (p + PGSIZE) + 4096 * i"
      using Suc.prems(5,7) up i(1) by (intro unat_pages_from [of _ n]) simp_all
    then have "unat p = unat p + 4096 + 4096 * i" using i(2) up by (simp only:)
    then show False by simp
  qed
  then have "set (pages_from (p + 4096) n) \<inter> set (p # ps) = {}"
    using Suc.prems(8) by (auto simp: pages_from_Suc)
  moreover have "(p + PGSIZE) mod PGSIZE = 0"
    using Suc.prems(2) up by (simp add: page_aligned_unat)
  moreover have "kend \<le> p + PGSIZE" "KERNBASE \<le> p + PGSIZE"
    using Suc.prems(3,4) up by (simp_all add: word_le_nat_alt)
  ultimately obtain s' where "freerange_loop kend (p + PGSIZE) vend s1 = Inr ((), s')"
    "kmem_rep kend s' (rev (pages_from (p + PGSIZE) n) @ p # ps)"
    using Suc.IH [OF s1(2), of "p + PGSIZE"] Suc.prems(5,6,7) up by auto
  moreover have "p + PGSIZE \<le> vend" using Suc.prems(5) up by (simp add: word_le_nat_alt)
  ultimately show ?case
    using s1(1) by (simp add: freerange_loop.simps [of kend p] pages_from_Suc)
qed

lemma set_pages_from:
  assumes "4096 dvd unat p" "unat p + 4096 * n \<le> e" "e < unat p + 4096 * n + 4096" "e < 2 ^ 32"
  shows "set (pages_from p n) = {q. 4096 dvd unat q \<and> unat p \<le> unat q \<and> unat q + 4096 \<le> e}"
proof (intro set_eqI iffI)
  fix q :: u32
  assume "q \<in> set (pages_from p n)"
  then obtain i where i: "i < n" "q = p + 4096 * word_of_nat i" by (auto simp: pages_from_def)
  then have "unat q = unat p + 4096 * i" using unat_pages_from [of p n i] assms(2,4) by simp
  with assms i(1) show "q \<in> {q. 4096 dvd unat q \<and> unat p \<le> unat q \<and> unat q + 4096 \<le> e}" by auto
next
  fix q :: u32
  assume "q \<in> {q. 4096 dvd unat q \<and> unat p \<le> unat q \<and> unat q + 4096 \<le> e}"
  then have q: "4096 dvd unat q" "unat p \<le> unat q" "unat q + 4096 \<le> e" by auto
  then have "4096 dvd unat q - unat p" using assms(1) by (intro dvd_diff_nat)
  then obtain i where i: "unat q - unat p = 4096 * i" by (rule dvdE)
  then have "i < n" using q assms(3) by simp
  moreover from this have "unat q = unat (p + 4096 * word_of_nat i)"
    using unat_pages_from [of p n i] assms(2,4) i q(2) by simp
  then have "q = p + 4096 * word_of_nat i" by (simp add: word_unat_eq_iff)
  ultimately show "q \<in> set (pages_from p n)" by (auto simp: pages_from_def)
qed

text \<open>
  C17. \<open>freerange\<close> puts on the free list exactly the whole pages between \<open>vstart\<close> and \<open>vend\<close>, in front
  of what was there, and does not panic, when the range lies in allocatable memory.
\<close>

theorem freerange_frees:
  assumes "kmem_rep kend s ps" "kend \<le> vstart" "KERNBASE \<le> vstart" "unat vend \<le> 0x88000000" "vstart \<le> vend"
    and "\<forall>p \<in> set ps. \<not> (vstart \<le> p \<and> p < vend)"
  shows "\<exists>s' qs. freerange kend vstart vend s = Inr ((), s') \<and> kmem_rep kend s' (qs @ ps) \<and>
    set qs = {p. 4096 dvd unat p \<and> vstart \<le> p \<and> unat p + 4096 \<le> unat vend}"
proof -
  let ?p = "PGROUNDUP vstart"
  have vs: "unat vstart \<le> unat vend" using assms(5) by (simp add: word_le_nat_alt)
  have p: "unat ?p = (unat vstart + 4095) div 4096 * 4096"
    using vs assms(4) by (intro unat_PGROUNDUP) simp
  have ge: "unat vstart \<le> unat ?p" "unat ?p < unat vstart + 4096"
    using div_mult_mod_eq [of "unat vstart + 4095" 4096] mod_less_divisor [of 4096 "unat vstart + 4095"]
    unfolding p by linarith+
  have al: "4096 dvd unat ?p" unfolding p by simp
  have first: "unat ?p \<le> unat q" if "4096 dvd unat q" "unat vstart \<le> unat q" for q :: u32
  proof -
    have "4096 * (unat q div 4096) = unat q" using that(1) by simp
    then have "(unat vstart + 4095) div 4096 \<le> unat q div 4096" using that(2) by linarith
    then show ?thesis unfolding p using that(1) by auto
  qed
  have set_eq: "{q. 4096 dvd unat q \<and> unat ?p \<le> unat q \<and> unat q + 4096 \<le> unat vend} =
      {q. 4096 dvd unat q \<and> vstart \<le> q \<and> unat q + 4096 \<le> unat vend}"
    using first ge(1) by (auto simp: word_le_nat_alt intro: order_trans)
  show ?thesis
  proof (cases "unat ?p \<le> unat vend")
    case True
    define n where "n = (unat vend - unat ?p) div 4096"
    have n: "unat ?p + 4096 * n \<le> unat vend" "unat vend < unat ?p + 4096 * n + 4096"
      using True div_mult_mod_eq [of "unat vend - unat ?p" 4096]
        mod_less_divisor [of 4096 "unat vend - unat ?p"] unfolding n_def by linarith+
    have pages: "set (pages_from ?p n) = {q. 4096 dvd unat q \<and> vstart \<le> q \<and> unat q + 4096 \<le> unat vend}"
      using set_pages_from [OF al n] unat_u32_bound [of vend] set_eq by simp
    then have disj: "set (pages_from ?p n) \<inter> set ps = {}"
      using assms(6) by (auto simp: word_less_nat_alt)
    have "?p mod PGSIZE = 0" using al page_aligned_unat by blast
    moreover have "kend \<le> ?p" "KERNBASE \<le> ?p"
      using assms(2,3) ge(1) by (simp_all add: word_le_nat_alt)
    ultimately obtain s' where "freerange_loop kend ?p vend s = Inr ((), s')"
      "kmem_rep kend s' (rev (pages_from ?p n) @ ps)"
      using freerange_loop_pages [OF assms(1) _ _ _ n assms(4) disj] by metis
    then show ?thesis using pages by (intro exI [of _ s'] exI [of _ "rev (pages_from ?p n)"]) (simp add: freerange_def)
  next
    case False
    have "unat (?p + PGSIZE) = unat ?p + 4096"
      using ge(2) vs assms(4) by (simp add: unat_word_ariths)
    then have "\<not> ?p + PGSIZE \<le> vend" using False by (simp add: word_le_nat_alt)
    then have "freerange kend vstart vend s = Inr ((), s)" by (simp add: freerange_def freerange_loop.simps)
    moreover have "{q. 4096 dvd unat q \<and> vstart \<le> q \<and> unat q + 4096 \<le> unat vend} = {}"
      using first False by (fastforce simp: word_le_nat_alt)
    ultimately show ?thesis using assms(1) by (intro exI [of _ s] exI [of _ "[]"]) simp
  qed
qed

theorem freerange_frees_witness:
  "\<exists>s' qs. freerange 0x80100000 0x80100001 0x80103000 kmem_empty = Inr ((), s') \<and>
    kmem_rep 0x80100000 s' (qs @ []) \<and>
    set qs = {p. 4096 dvd unat p \<and> 0x80100001 \<le> p \<and> unat p + 4096 \<le> unat (0x80103000 :: u32)}"
  by (rule freerange_frees [OF kmem_rep_empty]) simp_all

end
