(* ===== verification/Vm.thy ===== *)
theory Vm
  imports Kalloc
begin

text \<open>
  Page tables (\<open>src/vm.c\<close>, \<open>src/mmu.h\<close>). The two-level tables live in pages of the kernel memory of \<open>Kalloc\<close>,
  where the code reads and writes their entries. A page table entry pointer is an address, a null
  pointer is \<open>None\<close> or the address 0 as in the code.
\<close>

section \<open>Addresses and entries\<close>

abbreviation (input) EXTMEM :: u32 where "EXTMEM \<equiv> 0x100000"
abbreviation (input) DEVSPACE :: u32 where "DEVSPACE \<equiv> 0xFE000000"
abbreviation (input) KERNLINK :: u32 where "KERNLINK \<equiv> 0x80100000"
abbreviation (input) PTE_V :: u32 where "PTE_V \<equiv> 0x001"
abbreviation (input) PTE_EX :: u32 where "PTE_EX \<equiv> 0x008"
abbreviation (input) PTE_PP :: u32 where "PTE_PP \<equiv> 0x030"
abbreviation (input) PTE_PP_RWXX :: u32 where "PTE_PP_RWXX \<equiv> 0x000"
abbreviation (input) PTE_PP_RDXX :: u32 where "PTE_PP_RDXX \<equiv> 0x010"
abbreviation (input) PTE_PP_RWRD :: u32 where "PTE_PP_RWRD \<equiv> 0x020"
abbreviation (input) PTE_PP_RWRW :: u32 where "PTE_PP_RWRW \<equiv> 0x030"
abbreviation (input) NPDENTRIES :: nat where "NPDENTRIES \<equiv> 1024"
abbreviation (input) NPTENTRIES :: nat where "NPTENTRIES \<equiv> 1024"

definition PDX :: "u32 \<Rightarrow> u32" where
  "PDX va = drop_bit 22 va AND 0x3FF"

definition PTX :: "u32 \<Rightarrow> u32" where
  "PTX va = drop_bit 12 va AND 0x3FF"

definition PGADDR :: "u32 \<Rightarrow> u32 \<Rightarrow> u32 \<Rightarrow> u32" where
  "PGADDR d t off = push_bit 22 d OR push_bit 12 t OR off"

definition PTE_ADDR :: "u32 \<Rightarrow> u32" where
  "PTE_ADDR pte = pte AND NOT 0xFFF"

definition PTE_FLAGS :: "u32 \<Rightarrow> u32" where
  "PTE_FLAGS pte = pte AND 0xFFF"

section \<open>Operations\<close>

definition kload :: "u32 \<Rightarrow> (kmem, u32) km" where
  "kload a = kget (\<lambda>s. load32 (memory s) a)"

definition kstore :: "u32 \<Rightarrow> u32 \<Rightarrow> (kmem, unit) km" where
  "kstore a v = kmod (\<lambda>s. s \<lparr> memory := store32 (memory s) a v \<rparr>)"

definition kzero :: "u32 \<Rightarrow> (kmem, unit) km" where
  "kzero a = kmod (\<lambda>s. s \<lparr> memory := memset (memory s) a 0 PGSIZE \<rparr>)"

definition walkpgdir :: "u32 \<Rightarrow> u32 \<Rightarrow> bool \<Rightarrow> (kmem, u32 option) km" where
  "walkpgdir pgdir va alloc =
    (let pde = pgdir + 4 * PDX va in
     kbind (kload pde) (\<lambda>e.
     if e AND PTE_V \<noteq> 0 then kret (Some (p2v (PTE_ADDR e) + 4 * PTX va))
     else if \<not> alloc then kret None
     else
       kbind kalloc (\<lambda>pgtab.
       if pgtab = 0 then kret None
       else
         kthen (kzero pgtab)
        (kthen (kstore pde (v2p pgtab OR PTE_V OR PTE_PP_RWRW OR PTE_EX))
               (kret (Some (pgtab + 4 * PTX va)))))))"

text \<open>The loop of \<open>mappages\<close>; \<open>k\<close> pages follow the page \<open>a\<close>.\<close>

fun mappages_loop :: "u32 \<Rightarrow> u32 \<Rightarrow> u32 \<Rightarrow> u32 \<Rightarrow> nat \<Rightarrow> (kmem, int) km" where
  "mappages_loop pgdir a pa perm k =
    kbind (walkpgdir pgdir a True) (\<lambda>r.
    case r of
      None \<Rightarrow> kret (- 1)
    | Some pte \<Rightarrow>
        kbind (kload pte) (\<lambda>e.
        if e AND PTE_V \<noteq> 0 then kpanic ''remap''
        else
          kthen (kstore pte (pa OR perm OR PTE_V))
         (case k of
            0 \<Rightarrow> kret 0
          | Suc k \<Rightarrow> mappages_loop pgdir (a + PGSIZE) (pa + PGSIZE) perm k)))"

definition mappages :: "u32 \<Rightarrow> u32 \<Rightarrow> u32 \<Rightarrow> u32 \<Rightarrow> u32 \<Rightarrow> (kmem, int) km" where
  "mappages pgdir va sz pa perm =
    (let a = PGROUNDDOWN va; last = PGROUNDDOWN (va + sz - 1) in
     mappages_loop pgdir a pa perm (unat ((last - a) div PGSIZE)))"

text \<open>The kernel's mappings; \<open>data\<close> is the address that the linker gives to the kernel's data.\<close>

record kmap =
  virt :: u32
  phys_start :: u32
  phys_end :: u32
  kperm :: u32

definition kmaps :: "u32 \<Rightarrow> kmap list" where
  "kmaps data =
    [ \<lparr> virt = KERNBASE, phys_start = 0, phys_end = EXTMEM, kperm = PTE_PP_RWXX \<rparr>,
      \<lparr> virt = KERNLINK, phys_start = KERNLINK - KERNBASE, phys_end = data - KERNBASE, kperm = PTE_PP_RDXX OR PTE_EX \<rparr>,
      \<lparr> virt = data, phys_start = data - KERNBASE, phys_end = PHYSTOP, kperm = PTE_PP_RWXX \<rparr>,
      \<lparr> virt = DEVSPACE, phys_start = DEVSPACE, phys_end = 0, kperm = PTE_PP_RWXX \<rparr> ]"

fun setupkvm_loop :: "u32 \<Rightarrow> kmap list \<Rightarrow> (kmem, u32) km" where
  "setupkvm_loop pgdir [] = kret pgdir"
| "setupkvm_loop pgdir (k # ks) =
    kbind (mappages pgdir (virt k) (phys_end k - phys_start k) (phys_start k) (kperm k)) (\<lambda>r.
    if r < 0 then kret 0 else setupkvm_loop pgdir ks)"

definition setupkvm :: "u32 \<Rightarrow> (kmem, u32) km" where
  "setupkvm data =
    kbind kalloc (\<lambda>pgdir.
    if pgdir = 0 then kret 0
    else
      kthen (kzero pgdir)
     (if p2v PHYSTOP > DEVSPACE then kpanic ''PHYSTOP too high''
      else setupkvm_loop pgdir (kmaps data)))"

definition inituvm :: "u32 \<Rightarrow> u8 list \<Rightarrow> (kmem, unit) km" where
  "inituvm pgdir init =
    (if length init \<ge> unat PGSIZE then kpanic ''inituvm: more than a page''
     else
       kbind kalloc (\<lambda>m.
       kthen (kzero m)
      (kthen (mappages pgdir 0 PGSIZE (v2p m) (PTE_PP_RWRW OR PTE_EX))
             (kmod (\<lambda>s. s \<lparr> memory := written (memory s) m init \<rparr>)))))"

text \<open>The addresses of the loops below are under \<open>KERNBASE\<close> at every call, so that they do not wrap around
  and the loop variable is a natural number.\<close>

function deallocuvm_loop :: "u32 \<Rightarrow> u32 \<Rightarrow> nat \<Rightarrow> nat \<Rightarrow> (kmem, unit) km" where
  "deallocuvm_loop kend pgdir a oldsz =
    (if a < oldsz then
       kbind (walkpgdir pgdir (word_of_nat a) False) (\<lambda>r.
       case r of
         None \<Rightarrow> deallocuvm_loop kend pgdir (a + (NPTENTRIES - 1) * 4096 + 4096) oldsz
       | Some pte \<Rightarrow>
           kbind (kload pte) (\<lambda>e.
           kthen (kwhen (e AND PTE_V \<noteq> 0)
                    (if PTE_ADDR e = 0 then kpanic ''kfree''
                     else kthen (kfree kend (p2v (PTE_ADDR e))) (kstore pte 0)))
                 (deallocuvm_loop kend pgdir (a + 4096) oldsz)))
     else kret ())"
  by pat_completeness auto
termination
  by (relation "measure (\<lambda>(kend, pgdir, a, oldsz). oldsz - a)") auto

declare deallocuvm_loop.simps [simp del]

definition deallocuvm :: "u32 \<Rightarrow> u32 \<Rightarrow> u32 \<Rightarrow> u32 \<Rightarrow> (kmem, u32) km" where
  "deallocuvm kend pgdir oldsz newsz =
    (if newsz \<ge> oldsz then kret oldsz
     else kthen (deallocuvm_loop kend pgdir (unat (PGROUNDUP newsz)) (unat oldsz)) (kret newsz))"

text \<open>The loop of \<open>allocuvm\<close>: it tells whether memory ran out. The result of \<open>mappages\<close> is not looked at.\<close>

function allocuvm_loop :: "u32 \<Rightarrow> nat \<Rightarrow> nat \<Rightarrow> (kmem, bool) km" where
  "allocuvm_loop pgdir a newsz =
    (if a < newsz then
       kbind kalloc (\<lambda>m.
       if m = 0 then kret False
       else
         kthen (kzero m)
        (kthen (mappages pgdir (word_of_nat a) PGSIZE (v2p m) (PTE_PP_RWRW OR PTE_EX))
               (allocuvm_loop pgdir (a + 4096) newsz)))
     else kret True)"
  by pat_completeness auto
termination
  by (relation "measure (\<lambda>(pgdir, a, newsz). newsz - a)") auto

declare allocuvm_loop.simps [simp del]

definition freevm :: "u32 \<Rightarrow> u32 \<Rightarrow> (kmem, unit) km" where
  "freevm kend pgdir =
    (if pgdir = 0 then kpanic ''freevm: no pgdir''
     else
       kthen (deallocuvm kend pgdir KERNBASE 0)
      (kthen (kfor [0..<NPDENTRIES] (\<lambda>i.
         kbind (kload (pgdir + 4 * word_of_nat i)) (\<lambda>e.
         kwhen (e AND PTE_V \<noteq> 0) (kfree kend (p2v (PTE_ADDR e))))))
             (kfree kend pgdir)))"

definition clearpteu :: "u32 \<Rightarrow> u32 \<Rightarrow> (kmem, unit) km" where
  "clearpteu pgdir uva =
    kbind (walkpgdir pgdir uva False) (\<lambda>r.
    case r of
      None \<Rightarrow> kpanic ''clearpteu''
    | Some pte \<Rightarrow> kbind (kload pte) (\<lambda>e. kstore pte (e AND NOT PTE_PP)))"

text \<open>The loop of \<open>copyuvm\<close> over the page numbers; it tells whether everything was copied.\<close>

fun copyuvm_loop :: "u32 \<Rightarrow> u32 \<Rightarrow> nat list \<Rightarrow> (kmem, bool) km" where
  "copyuvm_loop pgdir d [] = kret True"
| "copyuvm_loop pgdir d (i # is) =
    (let va = word_of_nat (4096 * i) in
     kbind (walkpgdir pgdir va False) (\<lambda>r.
     case r of
       None \<Rightarrow> kpanic ''copyuvm: pte should exist''
     | Some pte \<Rightarrow>
         kbind (kload pte) (\<lambda>e.
         if e AND PTE_V = 0 then kpanic ''copyuvm: page not present''
         else
           kbind kalloc (\<lambda>m.
           if m = 0 then kret False
           else
             kthen (kmod (\<lambda>s. s \<lparr> memory := memmove (memory s) m (p2v (PTE_ADDR e)) 4096 \<rparr>))
            (kbind (mappages d va PGSIZE (v2p m) (PTE_FLAGS e)) (\<lambda>r.
             if r < 0 then kret False else copyuvm_loop pgdir d is))))))"

definition copyuvm :: "u32 \<Rightarrow> u32 \<Rightarrow> u32 \<Rightarrow> u32 \<Rightarrow> (kmem, u32) km" where
  "copyuvm kend data pgdir sz =
    kbind (setupkvm data) (\<lambda>d.
    if d = 0 then kret 0
    else
      kbind (copyuvm_loop pgdir d [0..<(unat sz + 4095) div 4096]) (\<lambda>ok.
      if ok then kret d else kthen (freevm kend d) (kret 0)))"

text \<open>\<open>uva2ka\<close> follows the result of \<open>walkpgdir\<close> without a test; a null pointer is a fault here.\<close>

definition uva2ka :: "u32 \<Rightarrow> u32 \<Rightarrow> (kmem, u32) km" where
  "uva2ka pgdir uva =
    kbind (walkpgdir pgdir uva False) (\<lambda>r.
    case r of
      None \<Rightarrow> kstop Fault
    | Some pte \<Rightarrow>
        kbind (kload pte) (\<lambda>e.
        if e AND PTE_V = 0 then kret 0
        else if e AND PTE_PP_RWRD = 0 then kret 0
        else kret (p2v (PTE_ADDR e))))"

function copyout :: "u32 \<Rightarrow> u32 \<Rightarrow> u8 list \<Rightarrow> (kmem, int) km" where
  "copyout pgdir va buf =
    (if buf = [] then kret 0
     else
       (let va0 = PGROUNDDOWN va in
        kbind (uva2ka pgdir va0) (\<lambda>pa0.
        if pa0 = 0 then kret (- 1)
        else
          (let n = min (length buf) (unat (PGSIZE - (va - va0))) in
           kthen (kmod (\<lambda>s. s \<lparr> memory := written (memory s) (pa0 + (va - va0)) (take n buf) \<rparr>))
                 (copyout pgdir (va0 + PGSIZE) (drop n buf))))))"
  by pat_completeness auto

lemma page_offset: "unat (va - PGROUNDDOWN va) = unat va mod 4096"
proof -
  have le: "PGROUNDDOWN va \<le> va" by (simp add: word_le_nat_alt unat_PGROUNDDOWN)
  show ?thesis unfolding unat_sub [OF le] unat_PGROUNDDOWN by (simp add: minus_div_mult_eq_mod)
qed

lemma page_rest: "unat (PGSIZE - (va - PGROUNDDOWN va)) = 4096 - unat va mod 4096"
proof -
  have "va - PGROUNDDOWN va \<le> PGSIZE" unfolding word_le_nat_alt page_offset by simp
  from unat_sub [OF this] show ?thesis by (simp add: page_offset)
qed

termination copyout
proof (relation "measure (\<lambda>(pgdir, va, buf). length buf)", goal_cases)
  case (2 pgdir va buf va0 pa0 n)
  have "0 < unat (PGSIZE - (va - va0))" unfolding 2(2) page_rest by simp
  then show ?case using 2 by simp
qed simp

end
