(* ===== verification/Ring.thy ===== *)
theory Ring
  imports Xv6_Prelude
begin

text \<open>
  Ring buffers indexed by free-running 32-bit counters, the idiom that \<open>src/pipe.c\<close> and the input
  buffer of \<open>src/console.c\<close> share: the counters are only ever incremented (and wrap at $2^{32}$), and a
  position is the counter modulo the size. The idiom is right because the size divides $2^{32}$; that
  is the assumption of the locale \<open>ring\<close>, which the pipe and the console interpret with their sizes.
\<close>

text \<open>The bytes between read counter \<open>r\<close> and write counter \<open>w\<close>, oldest first.\<close>

definition ring_contents :: "nat \<Rightarrow> u8 list \<Rightarrow> u32 \<Rightarrow> u32 \<Rightarrow> u8 list" where
  "ring_contents N d r w = map (\<lambda>i. d ! (unat (r + word_of_nat i) mod N)) [0..<unat (w - r)]"

lemma length_ring_contents [simp]: "length (ring_contents N d r w) = unat (w - r)"
  by (simp add: ring_contents_def)

lemma ring_contents_empty_iff: "ring_contents N d r w = [] \<longleftrightarrow> r = w"
  by (metis length_0_conv length_ring_contents right_minus_eq unat_0_iff)

lemma ring_contents_split:
  assumes "unat (w - r) + unat (e - w) < 2 ^ 32"
  shows "ring_contents N d r e = ring_contents N d r w @ ring_contents N d w e"
proof -
  have "unat (e - r) = unat ((w - r) + (e - w))" by simp
  also have "\<dots> = unat (w - r) + unat (e - w)" using assms by (subst unat_word_ariths) simp
  finally have l: "unat (e - r) = unat (w - r) + unat (e - w)" .
  have i: "r + word_of_nat (unat (w - r) + i) = w + word_of_nat i" for i by simp
  have "map (\<lambda>i. d ! (unat (r + word_of_nat i) mod N)) [unat (w - r)..<unat (w - r) + unat (e - w)] =
    map (\<lambda>i. d ! (unat (w + word_of_nat i) mod N)) [0..<unat (e - w)]"
    by (rule nth_equalityI) (simp_all only: length_map length_upt nth_map nth_upt i diff_add_inverse
        add_0 diff_zero add_less_cancel_left)
  then show ?thesis unfolding ring_contents_def l upt_add_eq_append [OF le0] map_append by (simp only:)
qed

locale ring =
  fixes N :: nat
  assumes size_pos: "0 < N" and size_less: "N < 2 ^ 32" and size_dvd: "N dvd 2 ^ 32"
begin

lemma position_offset: "unat (r + word_of_nat i :: u32) mod N = (unat r + i) mod N"
proof -
  have "unat (r + word_of_nat i :: u32) = (unat r + i) mod 2 ^ 32"
    by (simp add: unat_word_ariths unat_of_nat mod_simps)
  then show ?thesis using size_dvd by (simp add: mod_mod_cancel)
qed

lemma position_write: "unat w mod N = (unat r + unat (w - r)) mod N" for w r :: u32
  using position_offset [of r "unat (w - r)"] by simp

lemma position_apart:
  assumes "i < k" "k < N"
  shows "(a + i) mod N \<noteq> (a + k) mod N"
proof
  assume "(a + i) mod N = (a + k) mod N"
  then have "N dvd (a + k) - (a + i)"
    using assms(1) by (metis add_le_cancel_left less_imp_le_nat mod_eq_dvd_iff_nat)
  then have "N dvd k - i" by simp
  moreover have "0 < k - i" "k - i < N" using assms by auto
  ultimately show False using nat_dvd_not_less by blast
qed

lemma put_contents:
  assumes "length d = N" "unat (w - r) < N"
  shows "ring_contents N (d[unat w mod N := b]) r (w + 1) = ring_contents N d r w @ [b]"
proof -
  let ?k = "unat (w - r)"
  have "w + 1 - r = (w - r) + 1" by simp
  moreover have "unat ((w - r) + 1) = Suc ?k"
    using assms(2) size_less by (simp add: unat_word_ariths)
  ultimately have k: "unat (w + 1 - r) = Suc ?k" by (simp only:)
  have pos: "unat w mod N < length d" using size_pos assms(1) by simp
  have old: "d[unat w mod N := b] ! (unat (r + word_of_nat i) mod N) = d ! (unat (r + word_of_nat i) mod N)"
    if "i < ?k" for i
    using position_apart [OF that assms(2), of "unat r"] position_offset [of r i] position_write [of w r]
    by simp
  have new: "d[unat w mod N := b] ! (unat (r + word_of_nat ?k) mod N) = b"
    using pos by simp
  have "ring_contents N (d[unat w mod N := b]) r (w + 1) =
      map (\<lambda>i. d[unat w mod N := b] ! (unat (r + word_of_nat i) mod N)) [0..<?k] @ [b]"
    unfolding ring_contents_def k using new by simp
  also have "\<dots> = ring_contents N d r w @ [b]"
    unfolding ring_contents_def using old by simp
  finally show ?thesis .
qed

lemma get_contents:
  assumes "r \<noteq> w"
  shows "ring_contents N d r w = d ! (unat r mod N) # ring_contents N d (r + 1) w"
proof -
  have nz: "w - r \<noteq> 0" using assms by simp
  have "w - (r + 1) = w - r - 1" by simp
  then have "unat (w - (r + 1)) = unat (w - r) - 1"
    using unat_minus_one [OF nz] by (simp only:)
  then have "unat (w - r) = Suc (unat (w - (r + 1)))"
    using nz unat_gt_0 [of "w - r"] by (metis Suc_pred')
  then show ?thesis
    unfolding ring_contents_def by (simp add: map_upt_Suc algebra_simps del: upt_Suc)
qed

lemma get_length:
  assumes "r \<noteq> (w :: u32)"
  shows "unat (w - (r + 1)) = unat (w - r) - 1"
  using arg_cong [OF get_contents [OF assms, of "[]"], of length] by simp

lemma full_iff: "w = r + word_of_nat N \<longleftrightarrow> unat (w - r) = N" for w r :: u32
  using addr_eq_offset [of N w r] size_less by simp

lemma put_length:
  assumes "unat (w - r :: u32) < N"
  shows "unat (w + 1 - r) = unat (w - r) + 1"
proof -
  have "w + 1 - r = (w - r) + 1" by simp
  moreover have "unat ((w - r) + 1) = unat (w - r) + 1"
    using assms size_less by (simp add: unat_word_ariths)
  ultimately show ?thesis by (simp only:)
qed

text \<open>Taking back the byte that was put last, as line editing does.\<close>

lemma unput_contents:
  assumes "r \<noteq> w"
  shows "ring_contents N d r w = ring_contents N d r (w - 1) @ [d ! (unat (w - 1) mod N)]"
proof -
  have nz: "w - r \<noteq> 0" using assms by simp
  have "w - 1 - r = w - r - 1" by simp
  then have "unat (w - 1 - r) = unat (w - r) - 1"
    using unat_minus_one [OF nz] by (simp only:)
  then have k: "unat (w - r) = Suc (unat (w - 1 - r))"
    using nz unat_gt_0 [of "w - r"] by (metis Suc_pred')
  have "r + word_of_nat (unat (w - 1 - r)) = w - 1" by simp
  then show ?thesis unfolding ring_contents_def k by simp
qed

end

end
