(* ===== verification/Pipe.thy ===== *)
theory Pipe
  imports Ring
begin

text \<open>
  The pipes of \<open>src/pipe.c\<close>. One call of \<open>pipewrite\<close> or \<open>piperead\<close> holds \<open>p->lock\<close> from its start to its
  return, except while it sleeps, so a call is a sequence of atomic stretches; the definitions compute
  one stretch: from the start of the call, or from the return of \<open>sleep\<close>, to the next \<open>sleep\<close> or to the
  return. Calls of \<open>wakeup\<close> are collected in the order the code makes them. The step relation \<open>pstep\<close>
  interleaves the stretches of any number of readers and writers, with \<open>kill\<close> and \<open>pipeclose\<close>, and
  the invariants are proved for every state it reaches.
\<close>

section \<open>The pipe and its operations\<close>

abbreviation (input) "PIPESIZE \<equiv> 512"

record pipe =
  pdata :: "u8 list"
  nread :: u32
  nwrite :: u32
  readopen :: bool
  writeopen :: bool

text \<open>The outcome of a stretch: a return value, or the channel on which the call sleeps. The bytes a
  sleeping writer still has to write are the argument of the stretch that follows.\<close>

datatype pipe_out = PRet int | PSleep chan

definition pipe_init :: "u8 list \<Rightarrow> pipe" where
  "pipe_init d = \<lparr> pdata = d, nread = 0, nwrite = 0, readopen = True, writeopen = True \<rparr>"

definition pipe_full :: "pipe \<Rightarrow> bool" where
  "pipe_full p \<longleftrightarrow> nwrite p = nread p + PIPESIZE"

definition pipe_put :: "u8 \<Rightarrow> pipe \<Rightarrow> pipe" where
  "pipe_put b p = p \<lparr> pdata := (pdata p)[unat (nwrite p mod PIPESIZE) := b], nwrite := nwrite p + 1 \<rparr>"

fun pipewrite :: "nat \<Rightarrow> bool \<Rightarrow> int \<Rightarrow> u8 list \<Rightarrow> pipe \<Rightarrow> (pipe_out \<times> u8 list) \<times> pipe \<times> chan list" where
  "pipewrite pa killed n [] p = ((PRet n, []), p, [Chan_pipe_nread pa])"
| "pipewrite pa killed n (b # bs) p =
    (if pipe_full p then
       if \<not> readopen p \<or> killed then ((PRet (- 1), b # bs), p, [])
       else ((PSleep (Chan_pipe_nwrite pa), b # bs), p, [Chan_pipe_nread pa])
     else pipewrite pa killed n bs (pipe_put b p))"

fun piperead_copy :: "nat \<Rightarrow> pipe \<Rightarrow> u8 list \<times> pipe" where
  "piperead_copy 0 p = ([], p)"
| "piperead_copy (Suc i) p =
    (if nread p = nwrite p then ([], p)
     else let (bs, p') = piperead_copy i (p \<lparr> nread := nread p + 1 \<rparr>)
          in (pdata p ! unat (nread p mod PIPESIZE) # bs, p'))"

definition piperead :: "nat \<Rightarrow> bool \<Rightarrow> int \<Rightarrow> pipe \<Rightarrow> (pipe_out \<times> u8 list) \<times> pipe \<times> chan list" where
  "piperead pa killed n p =
    (if nread p = nwrite p \<and> writeopen p then
       if killed then ((PRet (- 1), []), p, [])
       else ((PSleep (Chan_pipe_nread pa), []), p, [])
     else let (bs, p') = piperead_copy (nat n) p
          in ((PRet (int (length bs)), bs), p', [Chan_pipe_nwrite pa]))"

text \<open>The Boolean result says that the page of the pipe is given back to \<open>kfree\<close>.\<close>

definition pipeclose :: "nat \<Rightarrow> bool \<Rightarrow> pipe \<Rightarrow> bool \<times> pipe \<times> chan list" where
  "pipeclose pa writable p =
    (let (p', ws) = (if writable then (p \<lparr> writeopen := False \<rparr>, [Chan_pipe_nread pa])
                     else (p \<lparr> readopen := False \<rparr>, [Chan_pipe_nwrite pa]))
     in (\<not> readopen p' \<and> \<not> writeopen p', p', ws))"

section \<open>Contents\<close>

definition contents :: "pipe \<Rightarrow> u8 list" where
  "contents p = ring_contents PIPESIZE (pdata p) (nread p) (nwrite p)"

definition pipe_ok :: "pipe \<Rightarrow> bool" where
  "pipe_ok p \<longleftrightarrow> length (pdata p) = PIPESIZE \<and> length (contents p) \<le> PIPESIZE"

interpretation pring: ring PIPESIZE
  by unfold_locales simp_all

lemma pipe_full_iff: "pipe_full p \<longleftrightarrow> length (contents p) = PIPESIZE"
  using pring.full_iff [of "nwrite p" "nread p"] by (simp add: pipe_full_def contents_def)

lemma contents_empty_iff: "nread p = nwrite p \<longleftrightarrow> contents p = []"
  by (simp add: contents_def ring_contents_empty_iff)

lemma pipe_put_contents:
  assumes "pipe_ok p" "\<not> pipe_full p"
  shows "contents (pipe_put b p) = contents p @ [b]" "pipe_ok (pipe_put b p)"
    "readopen (pipe_put b p) = readopen p" "writeopen (pipe_put b p) = writeopen p"
proof -
  have less: "unat (nwrite p - nread p) < PIPESIZE"
    using assms by (simp add: pipe_ok_def pipe_full_iff contents_def)
  have len: "length (pdata p) = PIPESIZE" using assms by (simp add: pipe_ok_def)
  show *: "contents (pipe_put b p) = contents p @ [b]"
    using pring.put_contents [OF len less, of b] by (simp add: contents_def pipe_put_def unat_mod)
  then show "pipe_ok (pipe_put b p)"
    using len less by (simp add: pipe_ok_def) (simp add: pipe_put_def contents_def)
qed (simp_all add: pipe_put_def)

lemma pipe_get_contents:
  assumes "nread p \<noteq> nwrite p"
  shows "contents p = pdata p ! unat (nread p mod PIPESIZE) # contents (p \<lparr> nread := nread p + 1 \<rparr>)"
  using pring.get_contents [OF assms, of "pdata p"] by (simp add: contents_def unat_mod)

lemma pipe_get_ok:
  assumes "pipe_ok p" "nread p \<noteq> nwrite p"
  shows "pipe_ok (p \<lparr> nread := nread p + 1 \<rparr>)"
  using assms(1) pipe_get_contents [OF assms(2)] by (simp add: pipe_ok_def)

section \<open>What one stretch does\<close>

lemma pipewrite_fits:
  assumes "pipe_ok p" "length (contents p) + length bs \<le> PIPESIZE"
  shows "\<exists>p'. pipewrite pa k n bs p = ((PRet n, []), p', [Chan_pipe_nread pa]) \<and> pipe_ok p' \<and>
    contents p' = contents p @ bs \<and> readopen p' = readopen p \<and> writeopen p' = writeopen p"
  using assms
proof (induction bs arbitrary: p)
  case (Cons b bs)
  then have nf: "\<not> pipe_full p" by (simp add: pipe_full_iff)
  from Cons.IH [of "pipe_put b p"] Cons.prems pipe_put_contents [OF Cons.prems(1) nf]
  show ?case by (simp add: nf)
qed simp

lemma pipewrite_blocks:
  assumes "pipe_ok p" "PIPESIZE < length (contents p) + length bs"
  shows "\<exists>p'. pipewrite pa k n bs p =
      (((if readopen p \<and> \<not> k then PSleep (Chan_pipe_nwrite pa) else PRet (- 1)),
        drop (PIPESIZE - length (contents p)) bs), p',
       (if readopen p \<and> \<not> k then [Chan_pipe_nread pa] else [])) \<and> pipe_ok p' \<and>
    contents p' = contents p @ take (PIPESIZE - length (contents p)) bs \<and> pipe_full p' \<and>
    readopen p' = readopen p \<and> writeopen p' = writeopen p"
  using assms
proof (induction bs arbitrary: p)
  case Nil
  then show ?case by (simp add: pipe_ok_def)
next
  case (Cons b bs)
  show ?case
  proof (cases "pipe_full p")
    case True
    then show ?thesis using Cons.prems by (simp add: pipe_full_iff)
  next
    case nf: False
    let ?p = "pipe_put b p"
    have eqs: "contents ?p = contents p @ [b]" "pipe_ok ?p" "readopen ?p = readopen p" "writeopen ?p = writeopen p"
      using pipe_put_contents [OF Cons.prems(1) nf] by auto
    have room: "PIPESIZE - length (contents p) = Suc (PIPESIZE - length (contents ?p))"
      using Cons.prems nf unfolding pipe_ok_def pipe_full_iff eqs length_append by simp linarith
    have "PIPESIZE < length (contents ?p) + length bs" using Cons.prems by (simp add: eqs)
    from Cons.IH [OF eqs(2) this] show ?thesis unfolding room by (simp add: nf eqs)
  qed
qed

lemma piperead_copy_correct:
  assumes "pipe_ok p"
  shows "\<exists>p'. piperead_copy i p = (take i (contents p), p') \<and> contents p' = drop i (contents p) \<and>
    pipe_ok p' \<and> readopen p' = readopen p \<and> writeopen p' = writeopen p"
  using assms
proof (induction i arbitrary: p)
  case (Suc i)
  show ?case
  proof (cases "nread p = nwrite p")
    case True
    then show ?thesis using Suc.prems by (simp add: contents_empty_iff)
  next
    case False
    from Suc.IH [OF pipe_get_ok [OF Suc.prems False]] show ?thesis
      by (auto simp: False pipe_get_contents [OF False])
  qed
qed simp

section \<open>Readers and writers\<close>

text \<open>A process that uses the pipe is outside of it, ready to run its next stretch, or asleep. The
  system also records which processes are killed and, as history, all bytes that entered the pipe and
  all bytes handed to readers.\<close>

datatype pthread =
    POut
  | Writing int "u8 list"
  | WSleeping int "u8 list"
  | Reading int
  | RSleeping int

record psys =
  sp :: pipe
  thr :: "nat \<Rightarrow> pthread"
  pkilled :: "nat \<Rightarrow> bool"
  sent :: "u8 list"
  rcvd :: "u8 list"

fun pwake :: "nat \<Rightarrow> chan list \<Rightarrow> pthread \<Rightarrow> pthread" where
  "pwake pa ws (WSleeping n bs) = (if Chan_pipe_nwrite pa \<in> set ws then Writing n bs else WSleeping n bs)"
| "pwake pa ws (RSleeping n) = (if Chan_pipe_nread pa \<in> set ws then Reading n else RSleeping n)"
| "pwake pa ws t = t"

text \<open>\<open>kill\<close> makes a sleeping process runnable whatever it waits for.\<close>

fun pawake :: "pthread \<Rightarrow> pthread" where
  "pawake (WSleeping n bs) = Writing n bs"
| "pawake (RSleeping n) = Reading n"
| "pawake t = t"

inductive pstep :: "nat \<Rightarrow> psys \<Rightarrow> psys \<Rightarrow> bool" for pa where
  call_write: "\<lbrakk> thr s i = POut; length bs = nat n \<rbrakk> \<Longrightarrow> pstep pa s (s \<lparr> thr := (thr s)(i := Writing n bs) \<rparr>)"
| call_read: "thr s i = POut \<Longrightarrow> pstep pa s (s \<lparr> thr := (thr s)(i := Reading n) \<rparr>)"
| run_write: "\<lbrakk> thr s i = Writing n bs; pipewrite pa (pkilled s i) n bs (sp s) = ((r, bs'), p', ws) \<rbrakk> \<Longrightarrow>
    pstep pa s (s \<lparr> sp := p', sent := sent s @ take (length bs - length bs') bs,
      thr := (\<lambda>j. pwake pa ws (thr s j))(i := case r of PRet _ \<Rightarrow> POut | PSleep _ \<Rightarrow> WSleeping n bs') \<rparr>)"
| run_read: "\<lbrakk> thr s i = Reading n; piperead pa (pkilled s i) n (sp s) = ((r, bs), p', ws) \<rbrakk> \<Longrightarrow>
    pstep pa s (s \<lparr> sp := p', rcvd := rcvd s @ bs,
      thr := (\<lambda>j. pwake pa ws (thr s j))(i := case r of PRet _ \<Rightarrow> POut | PSleep _ \<Rightarrow> RSleeping n) \<rparr>)"
| close: "pipeclose pa w (sp s) = (fr, p', ws) \<Longrightarrow>
    pstep pa s (s \<lparr> sp := p', thr := (\<lambda>j. pwake pa ws (thr s j)) \<rparr>)"
| kill: "pstep pa s (s \<lparr> pkilled := (pkilled s)(i := True), thr := (thr s)(i := pawake (thr s i)) \<rparr>)"

definition psys_init :: "u8 list \<Rightarrow> psys" where
  "psys_init d = \<lparr> sp = pipe_init d, thr = (\<lambda>_. POut), pkilled = (\<lambda>_. False), sent = [], rcvd = [] \<rparr>"

definition preach :: "nat \<Rightarrow> psys \<Rightarrow> bool" where
  "preach pa s \<longleftrightarrow> (\<exists>d. length d = PIPESIZE \<and> (pstep pa)\<^sup>*\<^sup>* (psys_init d) s)"

definition reader_asleep :: "psys \<Rightarrow> nat \<Rightarrow> bool" where
  "reader_asleep s i \<longleftrightarrow> (\<exists>n. thr s i = RSleeping n)"

definition writer_asleep :: "psys \<Rightarrow> nat \<Rightarrow> bool" where
  "writer_asleep s i \<longleftrightarrow> (\<exists>n bs. thr s i = WSleeping n bs)"

lemmas asleep_defs = reader_asleep_def writer_asleep_def

text \<open>The invariant: the bytes in flight are the ones sent and not yet received; who sleeps has a reason;
  readers and writers never sleep at the same time.\<close>

definition pinv :: "psys \<Rightarrow> bool" where
  "pinv s \<longleftrightarrow> pipe_ok (sp s) \<and> sent s = rcvd s @ contents (sp s) \<and>
    (\<forall>i n. thr s i = RSleeping n \<longrightarrow> writeopen (sp s) \<and> \<not> pkilled s i \<and>
      (contents (sp s) = [] \<or> \<not> readopen (sp s) \<or> (\<exists>j. pkilled s j))) \<and>
    (\<forall>i n bs. thr s i = WSleeping n bs \<longrightarrow> readopen (sp s) \<and> \<not> pkilled s i \<and> pipe_full (sp s)) \<and>
    (\<forall>i j n m bs. thr s i = RSleeping n \<longrightarrow> thr s j \<noteq> WSleeping m bs)"

lemma pinvD:
  assumes "pinv s"
  shows "pipe_ok (sp s)" "sent s = rcvd s @ contents (sp s)"
    "thr s i = RSleeping n \<Longrightarrow> writeopen (sp s) \<and> \<not> pkilled s i"
    "thr s i = RSleeping n \<Longrightarrow> contents (sp s) = [] \<or> \<not> readopen (sp s) \<or> (\<exists>j. pkilled s j)"
    "thr s i = WSleeping m bs \<Longrightarrow> readopen (sp s) \<and> \<not> pkilled s i \<and> pipe_full (sp s)"
    "thr s i = RSleeping n \<Longrightarrow> thr s j \<noteq> WSleeping m bs"
  using assms unfolding pinv_def by blast+

lemma pinvI:
  assumes "pipe_ok (sp s)" "sent s = rcvd s @ contents (sp s)"
    "\<And>i n. thr s i = RSleeping n \<Longrightarrow> writeopen (sp s) \<and> \<not> pkilled s i"
    "\<And>i n. thr s i = RSleeping n \<Longrightarrow> contents (sp s) = [] \<or> \<not> readopen (sp s) \<or> (\<exists>j. pkilled s j)"
    "\<And>i m bs. thr s i = WSleeping m bs \<Longrightarrow> readopen (sp s) \<and> \<not> pkilled s i \<and> pipe_full (sp s)"
    "\<And>i j n m bs. thr s i = RSleeping n \<Longrightarrow> thr s j \<noteq> WSleeping m bs"
  shows "pinv s"
  using assms unfolding pinv_def by blast

lemma pwake_asleep [simp]:
  "pwake pa ws t = RSleeping n \<longleftrightarrow> t = RSleeping n \<and> Chan_pipe_nread pa \<notin> set ws"
  "pwake pa ws t = WSleeping n bs \<longleftrightarrow> t = WSleeping n bs \<and> Chan_pipe_nwrite pa \<notin> set ws"
  by (cases t; auto)+

lemma pawake_asleep [simp]: "pawake t \<noteq> RSleeping n" "pawake t \<noteq> WSleeping n bs"
  by (cases t; simp)+

lemma pipe_empty_not_full: "contents p = [] \<Longrightarrow> \<not> pipe_full p"
  by (simp add: pipe_full_iff)

lemma pinv_init: "length d = PIPESIZE \<Longrightarrow> pinv (psys_init d)"
  by (simp add: pinv_def psys_init_def pipe_init_def pipe_ok_def contents_def ring_contents_def)

text \<open>What a stretch leaves behind, in the form the invariant needs.\<close>

lemma pipewrite_stretch:
  assumes "pipewrite pa k n bs p = ((r, bs'), p', ws)" "pipe_ok p"
  shows "pipe_ok p' \<and> contents p' = contents p @ take (length bs - length bs') bs \<and>
    readopen p' = readopen p \<and> writeopen p' = writeopen p \<and>
    (Chan_pipe_nread pa \<in> set ws \<or> \<not> readopen p \<or> k) \<and>
    (\<forall>c. r = PSleep c \<longrightarrow> Chan_pipe_nread pa \<in> set ws \<and> pipe_full p' \<and> readopen p \<and> \<not> k)"
proof (cases "length (contents p) + length bs \<le> PIPESIZE")
  case True
  with pipewrite_fits [OF assms(2) this, of pa k n] assms(1) show ?thesis by auto
next
  case False
  then have "PIPESIZE < length (contents p) + length bs" by simp
  from pipewrite_blocks [OF assms(2) this, of pa k n] assms(1)
  have *: "pipe_ok p'" "bs' = drop (PIPESIZE - length (contents p)) bs" "pipe_full p'"
    "contents p' = contents p @ take (PIPESIZE - length (contents p)) bs"
    "readopen p' = readopen p" "writeopen p' = writeopen p"
    "r = (if readopen p \<and> \<not> k then PSleep (Chan_pipe_nwrite pa) else PRet (- 1))"
    "ws = (if readopen p \<and> \<not> k then [Chan_pipe_nread pa] else [])" by auto
  have "length bs - length bs' = min (length bs) (PIPESIZE - length (contents p))"
    by (simp add: *(2))
  then have "take (length bs - length bs') bs = take (PIPESIZE - length (contents p)) bs"
    by (simp add: min_def)
  with * show ?thesis by (simp split: if_splits)
qed

lemma piperead_stretch:
  assumes "piperead pa k n p = ((r, bs), p', ws)" "pipe_ok p"
  shows "pipe_ok p' \<and> contents p = bs @ contents p' \<and>
    readopen p' = readopen p \<and> writeopen p' = writeopen p \<and>
    (Chan_pipe_nwrite pa \<in> set ws \<or> p' = p \<and> contents p = []) \<and>
    (\<forall>v. r = PRet v \<longrightarrow> Chan_pipe_nwrite pa \<in> set ws \<or> k) \<and>
    (\<forall>c. r = PSleep c \<longrightarrow> contents p = [] \<and> p' = p \<and> writeopen p \<and> \<not> k)"
proof (cases "nread p = nwrite p \<and> writeopen p")
  case True
  with assms show ?thesis by (auto simp: piperead_def contents_empty_iff split: if_splits)
next
  case False
  from piperead_copy_correct [OF assms(2), of "nat n"] obtain q
    where q: "piperead_copy (nat n) p = (take (nat n) (contents p), q)" "contents q = drop (nat n) (contents p)"
      "pipe_ok q" "readopen q = readopen p" "writeopen q = writeopen p" by blast
  from False assms(1) q show ?thesis by (auto simp: piperead_def)
qed

text \<open>Every step keeps the invariant.\<close>

lemma pinv_call:
  assumes "pinv s" "thr s i = POut" "\<And>m. t \<noteq> RSleeping m" "\<And>m bs. t \<noteq> WSleeping m bs"
  shows "pinv (s \<lparr> thr := (thr s)(i := t) \<rparr>)"
  using assms unfolding pinv_def by auto

lemma pinv_run_write:
  assumes "pinv s" "thr s i = Writing n bs" "pipewrite pa (pkilled s i) n bs (sp s) = ((r, bs'), p', ws)"
  shows "pinv (s \<lparr> sp := p', sent := sent s @ take (length bs - length bs') bs,
      thr := (\<lambda>j. pwake pa ws (thr s j))(i := case r of PRet _ \<Rightarrow> POut | PSleep _ \<Rightarrow> WSleeping n bs') \<rparr>)" (is "pinv ?s")
proof -
  have "pipe_ok (sp s)" using assms(1) by (simp add: pinv_def)
  note st = pipewrite_stretch [OF assms(3) this]
  have full: "pipe_full p'" if "pipe_full (sp s)"
  proof -
    from that have "length (contents (sp s)) = PIPESIZE" by (simp only: pipe_full_iff)
    moreover have "length (contents p') \<le> PIPESIZE" using st unfolding pipe_ok_def by blast
    moreover have "contents p' = contents (sp s) @ take (length bs - length bs') bs" using st by simp
    then have "length (contents (sp s)) \<le> length (contents p')" by simp
    ultimately show ?thesis unfolding pipe_full_iff by (metis le_antisym)
  qed
  have R: "thr s j = RSleeping m \<and> Chan_pipe_nread pa \<notin> set ws" if "thr ?s j = RSleeping m" for j m
    using that by (auto split: if_splits pipe_out.splits)
  have W: "thr s j = WSleeping m b \<or> j = i \<and> (\<exists>c. r = PSleep c)" if "thr ?s j = WSleeping m b" for j m b
    using that by (auto split: if_splits pipe_out.splits)
  note inv = pinvD [OF assms(1)]
  have ch: "Chan_pipe_nread pa \<in> set ws \<or> \<not> readopen p' \<or> pkilled s i" using st by blast
  have sl: "Chan_pipe_nread pa \<in> set ws \<and> pipe_full p' \<and> readopen p' \<and> \<not> pkilled s i" if "r = PSleep c" for c
    using st that by blast
  have op: "readopen p' = readopen (sp s)" "writeopen p' = writeopen (sp s)" using st by blast+
  show ?thesis
  proof (rule pinvI)
    show "pipe_ok (sp ?s)" "sent ?s = rcvd ?s @ contents (sp ?s)" using st inv(2) by simp_all
    show "writeopen (sp ?s) \<and> \<not> pkilled ?s j" if "thr ?s j = RSleeping m" for j m
      using R [OF that] inv(3) op by auto
    show "contents (sp ?s) = [] \<or> \<not> readopen (sp ?s) \<or> (\<exists>j. pkilled ?s j)" if "thr ?s j = RSleeping m" for j m
      using R [OF that] ch by auto
    show "readopen (sp ?s) \<and> \<not> pkilled ?s j \<and> pipe_full (sp ?s)" if "thr ?s j = WSleeping m b" for j m b
      using W [OF that] inv(5) full sl op by auto
    show "thr ?s k \<noteq> WSleeping m b" if "thr ?s j = RSleeping l" for j k l m b
      using R [OF that] W [of k m b] inv(6) sl by blast
  qed
qed

lemma pinv_run_read:
  assumes "pinv s" "thr s i = Reading n" "piperead pa (pkilled s i) n (sp s) = ((r, bs), p', ws)"
  shows "pinv (s \<lparr> sp := p', rcvd := rcvd s @ bs,
      thr := (\<lambda>j. pwake pa ws (thr s j))(i := case r of PRet _ \<Rightarrow> POut | PSleep _ \<Rightarrow> RSleeping n) \<rparr>)" (is "pinv ?s")
proof -
  have "pipe_ok (sp s)" using assms(1) by (simp add: pinv_def)
  note st = piperead_stretch [OF assms(3) this]
  have R: "thr s j = RSleeping m \<or> j = i \<and> (\<exists>c. r = PSleep c)" if "thr ?s j = RSleeping m" for j m
    using that by (auto split: if_splits pipe_out.splits)
  have W: "thr s j = WSleeping m b \<and> Chan_pipe_nwrite pa \<notin> set ws" if "thr ?s j = WSleeping m b" for j m b
    using that by (auto split: if_splits pipe_out.splits)
  note inv = pinvD [OF assms(1)]
  have ch: "Chan_pipe_nwrite pa \<in> set ws \<or> contents (sp s) = []" using st by blast
  have sl: "contents (sp s) = [] \<and> p' = sp s \<and> writeopen p' \<and> \<not> pkilled s i" if "r = PSleep c" for c
    using st that by blast
  have op: "readopen p' = readopen (sp s)" "writeopen p' = writeopen (sp s)" using st by blast+
  have em: "contents p' = []" if "contents (sp s) = []" using st that by simp
  have no: "False" if "thr ?s j = WSleeping m b" for j m b
    using W [OF that] ch inv(5) pipe_empty_not_full by blast
  show ?thesis
  proof (rule pinvI)
    show "pipe_ok (sp ?s)" "sent ?s = rcvd ?s @ contents (sp ?s)" using st inv(2) by simp_all
    show "writeopen (sp ?s) \<and> \<not> pkilled ?s j" if "thr ?s j = RSleeping m" for j m
      using R [OF that] inv(3) sl op by auto
    show "contents (sp ?s) = [] \<or> \<not> readopen (sp ?s) \<or> (\<exists>j. pkilled ?s j)" if "thr ?s j = RSleeping m" for j m
      using R [OF that] inv(4) sl em op by auto
  qed (use no in blast)+
qed

lemma contents_close [simp]:
  "contents (p \<lparr> readopen := b \<rparr>) = contents p" "contents (p \<lparr> writeopen := b \<rparr>) = contents p"
  "pipe_full (p \<lparr> readopen := b \<rparr>) = pipe_full p" "pipe_full (p \<lparr> writeopen := b \<rparr>) = pipe_full p"
  "pipe_ok (p \<lparr> readopen := b \<rparr>) = pipe_ok p" "pipe_ok (p \<lparr> writeopen := b \<rparr>) = pipe_ok p"
  by (simp_all add: contents_def pipe_full_def pipe_ok_def)

lemma pinv_close:
  assumes "pinv s" "pipeclose pa w (sp s) = (fr, p', ws)"
  shows "pinv (s \<lparr> sp := p', thr := (\<lambda>j. pwake pa ws (thr s j)) \<rparr>)"
  using assms unfolding pinv_def
  by (auto simp: pipeclose_def split: if_splits)

lemma pinv_kill:
  assumes "pinv s"
  shows "pinv (s \<lparr> pkilled := (pkilled s)(i := True), thr := (thr s)(i := pawake (thr s i)) \<rparr>)"
  using assms unfolding pinv_def by auto

lemma pinv_step: "pstep pa s s' \<Longrightarrow> pinv s \<Longrightarrow> pinv s'"
proof (induction rule: pstep.induct)
  case (run_write s i n bs r bs' p' ws)
  then show ?case by (rule pinv_run_write [rotated])
next
  case (run_read s i n r bs p' ws)
  then show ?case by (rule pinv_run_read [rotated])
next
  case (close w s fr p' ws)
  then show ?case by (rule pinv_close [rotated])
qed (simp_all add: pinv_call pinv_kill)

lemma preach_pinv:
  assumes "preach pa s"
  shows "pinv s"
proof -
  from assms obtain d where d: "length d = PIPESIZE" "(pstep pa)\<^sup>*\<^sup>* (psys_init d) s"
    unfolding preach_def by blast
  from d(2) show ?thesis
    by (induction rule: rtranclp_induct) (simp_all add: pinv_init [OF d(1)] pinv_step)
qed

section \<open>Properties\<close>

lemma preach_init: "length d = PIPESIZE \<Longrightarrow> preach pa (psys_init d)"
  unfolding preach_def by blast

lemma preach_step: "preach pa s \<Longrightarrow> pstep pa s s' \<Longrightarrow> preach pa s'"
  unfolding preach_def by (meson rtranclp.rtrancl_into_rtrancl)

text \<open>
  C12. A pipe is a bounded first-in first-out channel. Whatever the interleaving of readers, writers, kills
  and closes, and however often the 32-bit counters wrap around, the bytes handed to readers are, in
  order, the bytes that writers put in, and what is still in flight is exactly the buffer's contents,
  of at most \<open>PIPESIZE\<close> bytes.
\<close>

theorem pipe_fifo:
  assumes "preach pa s"
  shows "sent s = rcvd s @ contents (sp s) \<and> length (contents (sp s)) \<le> PIPESIZE"
  using pinvD(1,2) [OF preach_pinv [OF assms]] by (simp add: pipe_ok_def)

lemma preach_write:
  assumes "preach pa s" "thr s = (\<lambda>_. POut)" "length (contents (sp s)) + length bs \<le> PIPESIZE"
  shows "\<exists>p. preach pa (s \<lparr> sp := p, sent := sent s @ bs \<rparr>) \<and> contents p = contents (sp s) @ bs"
proof -
  let ?n = "int (length bs)"
  let ?s1 = "s \<lparr> thr := (thr s)(0 := Writing ?n bs) \<rparr>"
  have 1: "preach pa ?s1" by (rule preach_step [OF assms(1)], rule call_write) (simp_all add: assms(2))
  from pipewrite_fits [OF pinvD(1) [OF preach_pinv [OF assms(1)]] assms(3), of pa "pkilled s 0" ?n]
  obtain p where p: "pipewrite pa (pkilled s 0) ?n bs (sp s) = ((PRet ?n, []), p, [Chan_pipe_nread pa])"
    "contents p = contents (sp s) @ bs" by blast
  have "preach pa (?s1 \<lparr> sp := p, sent := sent ?s1 @ take (length bs - length ([] :: u8 list)) bs,
      thr := (\<lambda>j. pwake pa [Chan_pipe_nread pa] (thr ?s1 j))(0 := case PRet ?n of PRet _ \<Rightarrow> POut | PSleep _ \<Rightarrow> WSleeping ?n []) \<rparr>)"
    by (rule preach_step [OF 1], rule run_write) (simp_all add: p)
  moreover have "(\<lambda>j. pwake pa [Chan_pipe_nread pa] (thr ?s1 j))(0 := POut) = thr s"
    by (simp add: assms(2) fun_eq_iff)
  ultimately show ?thesis using p(2) by (auto intro!: exI [of _ p])
qed

lemma preach_read:
  assumes "preach pa s" "thr s = (\<lambda>_. POut)" "contents (sp s) \<noteq> []"
  shows "\<exists>p. preach pa (s \<lparr> sp := p, rcvd := rcvd s @ take n (contents (sp s)) \<rparr>)"
proof -
  let ?n = "int n" and ?bs = "take n (contents (sp s))"
  let ?s1 = "s \<lparr> thr := (thr s)(0 := Reading ?n) \<rparr>"
  have 1: "preach pa ?s1" by (rule preach_step [OF assms(1)], rule call_read) (simp add: assms(2))
  from piperead_copy_correct [OF pinvD(1) [OF preach_pinv [OF assms(1)]], of n]
  obtain p where p: "piperead_copy n (sp s) = (?bs, p)" by blast
  let ?r = "PRet (int (length ?bs))"
  have r: "piperead pa (pkilled s 0) ?n (sp s) = ((?r, ?bs), p, [Chan_pipe_nwrite pa])"
    using p assms(3) by (simp add: piperead_def contents_empty_iff)
  have "preach pa (?s1 \<lparr> sp := p, rcvd := rcvd ?s1 @ ?bs,
      thr := (\<lambda>j. pwake pa [Chan_pipe_nwrite pa] (thr ?s1 j))(0 := case ?r of PRet _ \<Rightarrow> POut | PSleep _ \<Rightarrow> RSleeping ?n) \<rparr>)"
    by (rule preach_step [OF 1], rule run_read) (simp_all add: r)
  moreover have "(\<lambda>j. pwake pa [Chan_pipe_nwrite pa] (thr ?s1 j))(0 := POut) = thr s"
    by (simp add: assms(2) fun_eq_iff)
  ultimately show ?thesis by (auto intro!: exI [of _ p])
qed

lemma psys_init_simps [simp]:
  "contents (sp (psys_init d)) = []" "sent (psys_init d) = []" "rcvd (psys_init d) = []"
  "thr (psys_init d) = (\<lambda>_. POut)" "pkilled (psys_init d) = (\<lambda>_. False)"
  "readopen (sp (psys_init d))" "writeopen (sp (psys_init d))"
  by (simp_all add: psys_init_def pipe_init_def contents_def ring_contents_def)

text \<open>A run in which three bytes are written and two of them read.\<close>

theorem pipe_fifo_witness:
  "\<exists>s. preach 7 s \<and> sent s = [10, 20, 30] \<and> rcvd s = [10, 20] \<and> contents (sp s) = [30]"
proof -
  let ?s0 = "psys_init (replicate PIPESIZE 0)"
  have 0: "preach 7 ?s0" by (rule preach_init) simp
  from preach_write [OF 0, of "[10, 20, 30]"] obtain p
    where p: "preach 7 (?s0 \<lparr> sp := p, sent := [10, 20, 30] \<rparr>)" "contents p = [10, 20, 30]" by auto
  from preach_read [OF p(1), of 2] p(2) obtain q
    where q: "preach 7 (?s0 \<lparr> sp := p, sent := [10, 20, 30] \<rparr> \<lparr> sp := q, rcvd := [10, 20] \<rparr>)"
    by (auto simp: numeral_2_eq_2)
  from pipe_fifo [OF q] have "contents q = [30]" by simp
  with q show ?thesis by (intro exI conjI) (assumption, simp_all)
qed

text \<open>
  C25. Sleeping on a pipe. Readers and writers are never asleep on the same pipe at the same time, so a pipe
  cannot deadlock its two ends. A writer sleeps only while the buffer is full and the read end is open; a
  reader sleeps only while the write end is open and, unless some process was killed or the read
  end was closed, only while the buffer is empty; no killed process stays asleep.
\<close>

theorem pipe_sleepers:
  assumes "preach pa s"
  shows "\<not> (reader_asleep s i \<and> writer_asleep s j) \<and>
    (writer_asleep s i \<longrightarrow> pipe_full (sp s) \<and> readopen (sp s) \<and> \<not> pkilled s i) \<and>
    (reader_asleep s i \<longrightarrow> writeopen (sp s) \<and> \<not> pkilled s i \<and>
      (contents (sp s) = [] \<or> \<not> readopen (sp s) \<or> (\<exists>j. pkilled s j)))"
  using pinvD [OF preach_pinv [OF assms]] unfolding asleep_defs by blast

lemma preach_reader_sleeps:
  "length d = PIPESIZE \<Longrightarrow> preach pa (psys_init d \<lparr> thr := (\<lambda>_. POut)(0 := RSleeping n) \<rparr>)"
proof -
  assume d: "length d = PIPESIZE"
  let ?s1 = "psys_init d \<lparr> thr := (thr (psys_init d))(0 := Reading n) \<rparr>"
  have 1: "preach pa ?s1"
    by (rule preach_step [OF preach_init [OF d]], rule call_read) simp
  have r: "piperead pa (pkilled ?s1 0) n (sp ?s1) = ((PSleep (Chan_pipe_nread pa), []), sp ?s1, [])"
    by (simp add: piperead_def contents_empty_iff)
  have "preach pa (?s1 \<lparr> sp := sp ?s1, rcvd := rcvd ?s1 @ [],
      thr := (\<lambda>j. pwake pa [] (thr ?s1 j))(0 := case PSleep (Chan_pipe_nread pa) of PRet _ \<Rightarrow> POut | PSleep _ \<Rightarrow> RSleeping n) \<rparr>)"
    by (rule preach_step [OF 1], rule run_read [OF _ r]) simp
  moreover have "(\<lambda>j. pwake pa [] (thr ?s1 j))(0 := RSleeping n) = (\<lambda>_. POut)(0 := RSleeping n)"
    by (simp add: fun_eq_iff)
  ultimately show ?thesis by (simp add: psys_init_def)
qed

theorem pipe_sleepers_witness:
  "\<exists>s. preach 7 s \<and> reader_asleep s 0 \<and> writeopen (sp s) \<and> (\<forall>j. \<not> writer_asleep s j)"
proof -
  let ?s = "psys_init (replicate PIPESIZE 0) \<lparr> thr := (\<lambda>_. POut)(0 := RSleeping 1) \<rparr>"
  have s: "preach 7 ?s" by (rule preach_reader_sleeps) simp
  have "reader_asleep ?s 0" by (simp add: reader_asleep_def)
  with s pipe_sleepers [OF s] show ?thesis by blast
qed

text \<open>
  C27. A wake-up that \<open>pipewrite\<close> loses. A writer that is killed, fills the empty buffer and finds it full
  returns -1 on the early exit without calling \<open>wakeup(&p->nread)\<close>: there is a reachable state with
  both ends open in which a reader sleeps, the buffer is full and no process is left inside the pipe
  to wake the reader.
\<close>

theorem pipe_lost_wakeup:
  "\<exists>s. preach 7 s \<and> reader_asleep s 0 \<and> pipe_full (sp s) \<and> readopen (sp s) \<and> writeopen (sp s) \<and>
    {i. thr s i \<noteq> POut} = {0}"
proof -
  let ?s1 = "psys_init (replicate PIPESIZE 0) \<lparr> thr := (\<lambda>_. POut)(0 := RSleeping 1) \<rparr>"
  have 1: "preach 7 ?s1" by (rule preach_reader_sleeps) simp
  let ?s2 = "?s1 \<lparr> pkilled := (pkilled ?s1)(1 := True), thr := (thr ?s1)(1 := pawake (thr ?s1 1)) \<rparr>"
  have 2: "preach 7 ?s2" by (rule preach_step [OF 1], rule kill)
  let ?bs = "replicate 513 (5 :: u8)"
  let ?s3 = "?s2 \<lparr> thr := (thr ?s2)(1 := Writing 513 ?bs) \<rparr>"
  have 3: "preach 7 ?s3" by (rule preach_step [OF 2], rule call_write) simp_all
  from pipewrite_blocks [OF pinvD(1) [OF preach_pinv [OF 3]], of ?bs 7 True 513]
  obtain p where p: "pipewrite 7 True 513 ?bs (sp ?s3) = ((PRet (- 1), drop PIPESIZE ?bs), p, [])"
    "pipe_full p" "readopen p" "writeopen p" by auto
  let ?t = "(\<lambda>j. pwake 7 [] (thr ?s3 j))(1 := case PRet (- 1) of PRet _ \<Rightarrow> POut | PSleep _ \<Rightarrow> WSleeping 513 (drop PIPESIZE ?bs))"
  let ?s4 = "?s3 \<lparr> sp := p, sent := sent ?s3 @ take (length ?bs - length (drop PIPESIZE ?bs)) ?bs, thr := ?t \<rparr>"
  have r: "pipewrite 7 (pkilled ?s3 1) 513 ?bs (sp ?s3) = ((PRet (- 1), drop PIPESIZE ?bs), p, [])"
    using p(1) by simp
  have 4: "preach 7 ?s4" by (rule preach_step [OF 3], rule run_write [OF _ r]) simp
  have t: "?t 0 = RSleeping 1" "\<And>i. i \<noteq> 0 \<Longrightarrow> ?t i = POut" by (simp_all add: fun_eq_iff)
  have "reader_asleep ?s4 0" using t(1) by (simp add: reader_asleep_def)
  moreover have "thr ?s4 = ?t" by simp
  moreover have "{i. ?t i \<noteq> POut} = {0}" by auto
  ultimately have "reader_asleep ?s4 0" "{i. thr ?s4 i \<noteq> POut} = {0}" by (simp_all only:)
  with 4 p(2-4) show ?thesis by (intro exI [of _ ?s4] conjI) simp_all
qed

text \<open>
  C26. What one call does to the buffer. \<open>pipewrite\<close> appends as many bytes as there is room for; it returns
  \<open>n\<close> if that was all of them, else it sleeps with the rest, or returns -1 if the read end is closed or
  the caller is killed. \<open>piperead\<close> on an empty pipe whose write end is open sleeps, or returns -1 if the
  caller is killed; otherwise it removes the first \<open>n\<close> bytes, or all if there are fewer, and returns
  their number, so 0 means end of file.
\<close>

theorem pipe_calls:
  assumes "pipe_ok p"
  shows "\<exists>p' ws q.
    pipewrite pa k n bs p =
      ((if length bs \<le> PIPESIZE - length (contents p) then PRet n
        else if readopen p \<and> \<not> k then PSleep (Chan_pipe_nwrite pa) else PRet (- 1),
        drop (PIPESIZE - length (contents p)) bs), p', ws) \<and>
    contents p' = contents p @ take (PIPESIZE - length (contents p)) bs \<and> pipe_ok p' \<and>
    piperead pa k m p =
      (if contents p = [] \<and> writeopen p
       then ((if k then PRet (- 1) else PSleep (Chan_pipe_nread pa), []), p, [])
       else ((PRet (int (min (nat m) (length (contents p)))), take (nat m) (contents p)), q,
             [Chan_pipe_nwrite pa])) \<and>
    contents q = drop (nat m) (contents p) \<and> pipe_ok q"
proof -
  let ?room = "PIPESIZE - length (contents p)"
  have le: "length (contents p) \<le> PIPESIZE" using assms by (simp add: pipe_ok_def)
  have w: "\<exists>p' ws. pipewrite pa k n bs p =
      ((if length bs \<le> ?room then PRet n
        else if readopen p \<and> \<not> k then PSleep (Chan_pipe_nwrite pa) else PRet (- 1), drop ?room bs), p', ws) \<and>
    contents p' = contents p @ take ?room bs \<and> pipe_ok p'"
  proof (cases "length bs \<le> ?room")
    case True
    with le have "length (contents p) + length bs \<le> PIPESIZE" by simp
    from pipewrite_fits [OF assms this, of pa k n] True show ?thesis by auto
  next
    case False
    then have "PIPESIZE < length (contents p) + length bs" by simp
    from pipewrite_blocks [OF assms this, of pa k n] False show ?thesis by auto
  qed
  from piperead_copy_correct [OF assms, of "nat m"] obtain q
    where q: "piperead_copy (nat m) p = (take (nat m) (contents p), q)" "contents q = drop (nat m) (contents p)"
      "pipe_ok q" by blast
  from w q show ?thesis by (auto simp: piperead_def contents_empty_iff min_def)
qed

theorem pipe_calls_witness:
  "pipe_ok (pipe_init (replicate PIPESIZE 0)) \<and>
   (\<exists>p' ws. pipewrite 7 False 3 [1, 2, 3] (pipe_init (replicate PIPESIZE 0)) = ((PRet 3, []), p', ws) \<and>
      contents p' = [1, 2, 3])"
proof -
  let ?p = "pipe_init (replicate PIPESIZE 0)"
  have ok: "pipe_ok ?p" "contents ?p = []"
    by (simp_all add: pipe_ok_def contents_def pipe_init_def ring_contents_def)
  from pipe_calls [OF ok(1), of 7 False 3 "[1, 2, 3]" 0] show ?thesis
    unfolding ok(2) by (auto simp: ok simp del: pipewrite.simps)
qed

end
