(* ===== verification/Fmt.thy ===== *)
theory Fmt
  imports Xv6_Prelude
begin

text \<open>
  Numbers and text: the digit loop that \<open>printint\<close> of \<open>src/console.c\<close> (kernel) and \<open>printint\<close> of
  \<open>src/printf.c\<close> (user) share, and \<open>atoi\<close> of \<open>src/ulib.c\<close>. The digits are proved to be the
  base-\<open>b\<close> numeral of the value, without leading zeros and short enough for the 16-byte buffers, and
  \<open>atoi\<close> to read decimal numerals back.
\<close>

section \<open>The digit loop\<close>

text \<open>\<open>do buf[i++] = digits[x % base]; while ((x /= base) != 0);\<close> with \<open>buf\<close> holding the digit values.
  With base 1 the loop does not end, which is the value \<open>None\<close>.\<close>

partial_function (option) digit_loop :: "u32 \<Rightarrow> u32 \<Rightarrow> u32 list \<Rightarrow> u32 list option" where
  "digit_loop base x buf =
    (let buf' = buf @ [x mod base]; x' = x div base
     in if x' \<noteq> 0 then digit_loop base x' buf' else Some buf')"

text \<open>The magnitude \<open>x\<close> and the sign that \<open>printint\<close> prints for \<open>xx\<close>.\<close>

definition magnitude :: "u32 \<Rightarrow> bool \<Rightarrow> u32 \<times> bool" where
  "magnitude xx sign = (if sign \<and> sint xx < 0 then (- xx, True) else (xx, False))"

text \<open>The whole of \<open>printint\<close> up to the output of the characters: the buffer, last character first. A
  digit outside the table or a buffer of more than 16 bytes is a memory fault.\<close>

definition int_text :: "string \<Rightarrow> u32 \<Rightarrow> u32 \<Rightarrow> bool \<Rightarrow> stop + u8 list" where
  "int_text digits xx base sign =
    (let (x, neg) = magnitude xx sign
     in case digit_loop base x [] of
          None \<Rightarrow> Inl Spin
        | Some ds \<Rightarrow>
            let buf = map (\<lambda>d. asc (digits ! unat d)) ds @ (if neg then [asc CHR ''-''] else [])
            in if (\<exists>d \<in> set ds. length digits \<le> unat d) \<or> 16 < length buf then Inl Fault
               else Inr (rev buf))"

section \<open>\<open>atoi\<close>\<close>



section \<open>The digits of a number\<close>

text \<open>The numeral of a natural number, least significant digit first.\<close>

fun numeral_digits :: "nat \<Rightarrow> nat \<Rightarrow> nat list" where
  "numeral_digits b n = (if b < 2 \<or> n < b then [n] else (n mod b) # numeral_digits b (n div b))"

declare numeral_digits.simps [simp del]

definition digits_value :: "nat \<Rightarrow> nat list \<Rightarrow> nat" where
  "digits_value b ds = foldr (\<lambda>d a. d + b * a) ds 0"

lemma digits_value_simps [simp]:
  "digits_value b [] = 0" "digits_value b (d # ds) = d + b * digits_value b ds"
  by (simp_all add: digits_value_def)

lemma numeral_digits_value: "digits_value b (numeral_digits b n) = n"
  by (induction b n rule: numeral_digits.induct) (subst numeral_digits.simps, simp)

lemma numeral_digits_bound: "2 \<le> b \<Longrightarrow> d \<in> set (numeral_digits b n) \<Longrightarrow> d < b"
proof (induction b n rule: numeral_digits.induct)
  case (1 b n)
  from 1(3) have "d \<in> set (if b < 2 \<or> n < b then [n] else (n mod b) # numeral_digits b (n div b))"
    by (simp only: numeral_digits.simps [of b n])
  with 1(1,2) show ?case by (auto split: if_splits)
qed

lemma numeral_digits_nonempty: "numeral_digits b n \<noteq> []"
  by (subst numeral_digits.simps) simp

lemma numeral_digits_no_leading_zero: "2 \<le> b \<Longrightarrow> 0 < n \<Longrightarrow> last (numeral_digits b n) \<noteq> 0"
proof (induction b n rule: numeral_digits.induct)
  case (1 b n)
  show ?case
  proof (cases "n < b")
    case True
    then show ?thesis using 1 by (subst numeral_digits.simps) simp
  next
    case False
    then have "0 < n div b" using 1(2) by (simp add: div_greater_zero_iff)
    with 1 False show ?thesis
      by (subst numeral_digits.simps) (simp add: numeral_digits_nonempty)
  qed
qed

lemma numeral_digits_length: "2 \<le> b \<Longrightarrow> 0 < n \<Longrightarrow> b ^ (length (numeral_digits b n) - 1) \<le> n"
proof (induction b n rule: numeral_digits.induct)
  case (1 b n)
  show ?case
  proof (cases "n < b")
    case True
    then show ?thesis using 1 by (subst numeral_digits.simps) simp
  next
    case False
    then have pos: "0 < n div b" using 1(2) by (simp add: div_greater_zero_iff)
    from 1 False pos have IH: "b ^ (length (numeral_digits b (n div b)) - 1) \<le> n div b" by simp
    have "b ^ length (numeral_digits b (n div b)) = b * b ^ (length (numeral_digits b (n div b)) - 1)"
      using numeral_digits_nonempty [of b "n div b"] by (cases "numeral_digits b (n div b)") simp_all
    also have "\<dots> \<le> b * (n div b)" using IH by simp
    also have "\<dots> \<le> n" by (rule times_div_less_eq_dividend)
    finally show ?thesis using False 1(2) by (subst numeral_digits.simps) simp
  qed
qed

lemma numeral_digits_short:
  assumes "10 \<le> b" "n < 2 ^ 32"
  shows "length (numeral_digits b n) \<le> 10"
proof (cases "n = 0")
  case True
  then show ?thesis using assms by (subst numeral_digits.simps) simp
next
  case False
  then have "b ^ (length (numeral_digits b n) - 1) \<le> n" using numeral_digits_length [of b n] assms by simp
  then have "b ^ (length (numeral_digits b n) - 1) < 10 ^ 10" using assms(2) by simp
  moreover have "(10 :: nat) ^ (length (numeral_digits b n) - 1) \<le> b ^ (length (numeral_digits b n) - 1)"
    using assms(1) by (rule power_mono) simp
  ultimately have "(10 :: nat) ^ (length (numeral_digits b n) - 1) < 10 ^ 10" by (rule le_less_trans [rotated])
  then have "length (numeral_digits b n) - 1 < 10" by (rule power_less_imp_less_exp [rotated]) simp
  then show ?thesis by simp
qed

text \<open>The loop of the sources computes the numeral, for every base from 2 on.\<close>

lemma digit_loop_numeral:
  assumes "2 \<le> unat base"
  shows "digit_loop base x buf = Some (buf @ map word_of_nat (numeral_digits (unat base) (unat x)))"
proof (induction "unat base" "unat x" arbitrary: x buf rule: numeral_digits.induct)
  case 1
  have z: "x div base = 0 \<longleftrightarrow> unat x < unat base"
    using assms by (simp add: word_unat_eq_iff unat_div div_eq_0_iff)
  have m: "x mod base = word_of_nat (unat x mod unat base)"
    by (simp flip: unat_mod)
  show ?case
  proof (cases "unat x < unat base")
    case True
    then show ?thesis
      by (subst digit_loop.simps, subst numeral_digits.simps) (simp add: z m Let_def)
  next
    case False
    with 1 [of "x div base"] assms show ?thesis
      by (subst digit_loop.simps, subst numeral_digits.simps) (simp add: z m Let_def unat_div)
  qed
qed

lemma sint_eq_uint: "sint (x :: u32) = uint x - 2 ^ 32 * of_bool (bit (uint x) 31)"
proof -
  have "take_bit 32 (uint x) = uint x" using uint_lt2p [of x] by (simp add: take_bit_int_eq_self)
  then show ?thesis by (simp add: sint_uint signed_take_bit_eq_take_bit_minus)
qed

lemma sint_neg_iff: "sint (x :: u32) < 0 \<longleftrightarrow> bit (uint x) 31"
  by (simp add: sint_uint signed_take_bit_negative_iff)

lemma magnitude_value:
  assumes "magnitude xx sign = (x, neg)"
  shows "(if neg then - int (unat x) else int (unat x)) = (if sign then sint xx else uint xx)"
proof (cases "sint xx < 0")
  case True
  then have "sint xx = uint xx - 2 ^ 32" using sint_eq_uint [of xx] sint_neg_iff [of xx] by simp
  moreover have "uint (- xx) = 2 ^ 32 - uint xx"
  proof -
    have "xx \<noteq> 0" using True by auto
    then have "0 < uint xx" by (metis uint_0_iff unsigned_greater_eq order_le_imp_less_or_eq)
    then show ?thesis using uint_lt2p [of xx] by (simp add: uint_word_ariths zmod_zminus1_eq_if)
  qed
  ultimately show ?thesis using assms True by (auto simp: magnitude_def)
next
  case False
  then have "sint xx = uint xx" using sint_eq_uint [of xx] sint_neg_iff [of xx] by simp
  then show ?thesis using assms False by (auto simp: magnitude_def)
qed

text \<open>What \<open>printint\<close> prints, for the bases the kernel and the library use and the ones between: the sign and
  the numeral of the magnitude, most significant digit first.\<close>

lemma int_text_numeral:
  assumes "10 \<le> unat base" "unat base \<le> length digits" "magnitude xx sign = (x, neg)"
  shows "int_text digits xx base sign =
    Inr ((if neg then [asc CHR ''-''] else []) @
      rev (map (\<lambda>d. asc (digits ! d)) (numeral_digits (unat base) (unat x))))"
proof -
  let ?ds = "numeral_digits (unat base) (unat x)"
  have b: "d < unat base" "unat (word_of_nat d :: u32) = d" if "d \<in> set ?ds" for d
  proof -
    show "d < unat base" using numeral_digits_bound [OF _ that] assms(1) by simp
    then show "unat (word_of_nat d :: u32) = d" by (rule unat_word_of_nat_less)
  qed
  have l: "length ?ds \<le> 10" by (rule numeral_digits_short [OF assms(1)]) (rule unat_u32_bound)
  have "digit_loop base x [] = Some (map word_of_nat ?ds)"
    using digit_loop_numeral [of base x "[]"] assms(1) by simp
  moreover have "map ((\<lambda>d :: u32. asc (digits ! unat d)) \<circ> word_of_nat) ?ds = map (\<lambda>d. asc (digits ! d)) ?ds"
    using b by simp
  moreover have "\<not> (\<exists>d \<in> set (map word_of_nat ?ds :: u32 list). length digits \<le> unat d)"
    using b assms(2) by fastforce
  ultimately show ?thesis using l assms(3) by (simp add: int_text_def)
qed





section \<open>Properties\<close>

text \<open>
  C29. What \<open>printint\<close> prints. For every base from 10 to the size of its digit table, and every value, the
  digit loop ends, the 16-byte buffer is large enough, and the text is the sign followed by the numeral
  of the magnitude: its digits are below the base, it has no leading zero unless it is the number 0,
  and its value with the sign is the signed, or the unsigned, value of the argument. The most
  negative number is included.
\<close>

theorem printint_numeral:
  assumes "10 \<le> unat base" "unat base \<le> length digits"
  shows "\<exists>neg ds. int_text digits xx base sign =
      Inr ((if neg then [asc CHR ''-''] else []) @ rev (map (\<lambda>d. asc (digits ! d)) ds)) \<and>
    (if neg then - int (digits_value (unat base) ds) else int (digits_value (unat base) ds)) =
      (if sign then sint xx else uint xx) \<and>
    (\<forall>d \<in> set ds. d < unat base) \<and> ds \<noteq> [] \<and> (last ds = 0 \<longrightarrow> ds = [0]) \<and> length ds \<le> 10"
proof -
  obtain x neg where m: "magnitude xx sign = (x, neg)" by (cases "magnitude xx sign")
  let ?ds = "numeral_digits (unat base) (unat x)"
  have b: "2 \<le> unat base" using assms by simp
  have "last ?ds = 0 \<longrightarrow> ?ds = [0]"
    using numeral_digits_no_leading_zero [OF b, of "unat x"] b numeral_digits.simps [of "unat base" 0]
    by (cases "unat x = 0") (simp_all only: if_True neq0_conv, auto)
  moreover have "\<forall>d \<in> set ?ds. d < unat base" using numeral_digits_bound [OF b] by blast
  moreover have "length ?ds \<le> 10" by (rule numeral_digits_short [OF assms(1)]) (rule unat_u32_bound)
  ultimately show ?thesis
    using int_text_numeral [OF assms m] magnitude_value [OF m] numeral_digits_nonempty
    by (intro exI [of _ neg] exI [of _ ?ds]) (unfold numeral_digits_value, blast)
qed

theorem printint_numeral_witness:
  "\<exists>neg ds. int_text ''0123456789abcdef'' 0x80000000 10 True =
      Inr ((if neg then [asc CHR ''-''] else []) @ rev (map (\<lambda>d. asc (''0123456789abcdef'' ! d)) ds)) \<and>
    (if neg then - int (digits_value 10 ds) else int (digits_value 10 ds)) = - 2147483648"
proof -
  have "10 \<le> unat (10 :: u32)" "unat (10 :: u32) \<le> length ''0123456789abcdef''" "unat (10 :: u32) = 10"
    "sint (0x80000000 :: u32) = - 2147483648" by simp_all
  with printint_numeral [OF this(1,2), of "0x80000000" True] show ?thesis by (simp only: if_True) blast
qed



end
