(* ===== verification/Console.thy ===== *)
theory Console
  imports Ring Fmt
begin

text \<open>
  The console of \<open>src/console.c\<close> and the serial port of \<open>src/uart.c\<close>: formatted output, the line
  editor \<open>consoleintr\<close> and \<open>consoleread\<close>. Sections that hold \<open>cons.lock\<close> or \<open>input.lock\<close> are single
  steps here. \<open>txd\<close> records the bytes written to the transmit register and \<open>cwoken\<close> the calls of
  \<open>wakeup\<close>. The input buffer is proved to be a ring that refines a line discipline on two lists: the
  committed bytes a reader may take and the line that is still being edited.
\<close>

section \<open>State\<close>

abbreviation (input) "INPUT_BUF \<equiv> 128"
abbreviation (input) BACKSPACE :: int where "BACKSPACE \<equiv> 0x100"

record console =
  locking :: bool
  panicked :: bool
  uart :: bool
  txd :: "u8 list"
  ibuf :: "u8 list"
  ir :: u32
  iw :: u32
  ie :: u32
  cwoken :: "chan list"

text \<open>Arguments of \<open>cprintf\<close>: a word, or a pointer to a string that may be null.\<close>

datatype arg = AWord u32 | AStr "u8 list option"

section \<open>Output\<close>

definition uartputc :: "int \<Rightarrow> (console, unit) km" where
  "uartputc c = kmod (\<lambda>s. if \<not> uart s then s else s \<lparr> txd := txd s @ [word_of_int c] \<rparr>)"

definition consputc :: "int \<Rightarrow> (console, unit) km" where
  "consputc c =
    kbind (kget panicked) (\<lambda>p.
    if p then kstop Spin
    else if c = BACKSPACE then kthen (uartputc 8) (kthen (uartputc 32) (uartputc 8))
    else uartputc c)"

definition printint :: "u32 \<Rightarrow> u32 \<Rightarrow> bool \<Rightarrow> (console, unit) km" where
  "printint xx base sign =
    (case int_text ''0123456789abcdef'' xx base sign of
       Inl e \<Rightarrow> kstop e
     | Inr t \<Rightarrow> kfor t (\<lambda>b. consputc (uint b)))"

definition va_word :: "arg list \<Rightarrow> (u32 \<Rightarrow> (console, unit) km) \<Rightarrow> (console, unit) km" where
  "va_word args f = (case args of AWord w # _ \<Rightarrow> f w | _ \<Rightarrow> kstop Fault)"

text \<open>The loop over the format; the list ends where the string has its NUL.\<close>

fun cprintf_loop :: "u8 list \<Rightarrow> arg list \<Rightarrow> (console, unit) km" where
  "cprintf_loop [] args = kret ()"
| "cprintf_loop (c # fmt) args =
    (if c \<noteq> asc CHR ''%'' then kthen (consputc (uint c)) (cprintf_loop fmt args)
     else case fmt of
       [] \<Rightarrow> kret ()
     | d # rest \<Rightarrow>
         if d = asc CHR ''d'' then
           kthen (va_word args (\<lambda>w. printint w 10 True)) (cprintf_loop rest (tl args))
         else if d = asc CHR ''x'' \<or> d = asc CHR ''p'' then
           kthen (va_word args (\<lambda>w. printint w 16 False)) (cprintf_loop rest (tl args))
         else if d = asc CHR ''s'' then
           (case args of
              AStr p # args' \<Rightarrow>
                kthen (kfor (case p of None \<Rightarrow> bytes ''(null)'' | Some t \<Rightarrow> t) (\<lambda>b. consputc (uint b)))
                      (cprintf_loop rest args')
            | _ \<Rightarrow> kstop Fault)
         else if d = asc CHR ''%'' then kthen (consputc (uint d)) (cprintf_loop rest args)
         else kthen (consputc (uint (asc CHR ''%''))) (kthen (consputc (uint d)) (cprintf_loop rest args)))"

definition cprintf :: "u8 list option \<Rightarrow> arg list \<Rightarrow> (console, unit) km" where
  "cprintf fmt args =
    (case fmt of None \<Rightarrow> kpanic ''null fmt'' | Some f \<Rightarrow> cprintf_loop f args)"

text \<open>\<open>panic\<close> prints ten words of its stack frame that nothing has written: they are an argument here.
  It ends in an endless loop.\<close>

definition panic :: "u32 \<Rightarrow> u32 list \<Rightarrow> u8 list \<Rightarrow> (console, unit) km" where
  "panic cpuid pcs msg =
    kthen (kmod (locking_update (\<lambda>_. False)))
   (kthen (cprintf (Some (bytes ''cpu%d: panic: '')) [AWord cpuid])
   (kthen (cprintf (Some msg) [])
   (kthen (cprintf (Some [10]) [])
   (kthen (kfor [0..<10] (\<lambda>i. cprintf (Some (bytes '' %p'')) [AWord (pcs ! i)]))
   (kthen (kmod (panicked_update (\<lambda>_. True)))
          (kstop Spin))))))"

definition consolewrite :: "u8 list \<Rightarrow> (console, int) km" where
  "consolewrite bs = kthen (kfor bs (\<lambda>b. consputc (uint b))) (kret (int (length bs)))"

section \<open>Input\<close>

definition ctrl :: "char \<Rightarrow> int" where
  "ctrl x = of_char x - of_char CHR ''@''"

definition at_index :: "console \<Rightarrow> u32 \<Rightarrow> u8" where
  "at_index s i = ibuf s ! unat (i mod INPUT_BUF)"

text \<open>The loop of control-U. Each turn moves \<open>e\<close> one down towards \<open>w\<close>, so that \<open>e - w\<close> turns are enough:
  after them the test fails.\<close>

primrec kill_loop :: "nat \<Rightarrow> (console, unit) km" where
  "kill_loop 0 = kret ()"
| "kill_loop (Suc k) =
    kbind (kget (\<lambda>s. ie s \<noteq> iw s \<and> at_index s (ie s - 1) \<noteq> 10)) (\<lambda>go.
    if go then kthen (kmod (\<lambda>s. s \<lparr> ie := ie s - 1 \<rparr>)) (kthen (consputc BACKSPACE) (kill_loop k))
    else kret ())"

definition kill_line :: "(console, unit) km" where
  "kill_line = kbind (kget (\<lambda>s. unat (ie s - iw s))) kill_loop"

definition input_put :: "int \<Rightarrow> console \<Rightarrow> console" where
  "input_put c s = s \<lparr> ibuf := (ibuf s)[unat (ie s mod INPUT_BUF) := word_of_int c], ie := ie s + 1 \<rparr>"

text \<open>The body of the loop of \<open>consoleintr\<close>, for one character; \<open>console_char\<close> stores and echoes an
  ordinary one.\<close>

definition console_char :: "int \<Rightarrow> (console, unit) km" where
  "console_char c =
    kthen (kmod (input_put c))
   (kthen (consputc c)
   (kbind (kget (\<lambda>s. ie s = ir s + INPUT_BUF)) (\<lambda>full.
    kwhen (c = 10 \<or> c = ctrl CHR ''D'' \<or> full)
      (kmod (\<lambda>s. s \<lparr> iw := ie s, cwoken := cwoken s @ [Chan_input_r] \<rparr>)))))"

definition console_key :: "(console, unit) km \<Rightarrow> int \<Rightarrow> (console, unit) km" where
  "console_key procdump c =
    (if c = ctrl CHR ''P'' then procdump
     else if c = ctrl CHR ''U'' then kill_line
     else if c = ctrl CHR ''H'' \<or> c = 0x7f then
       kbind (kget (\<lambda>s. ie s \<noteq> iw s)) (\<lambda>b.
       kwhen b (kthen (kmod (\<lambda>s. s \<lparr> ie := ie s - 1 \<rparr>)) (consputc BACKSPACE)))
     else
       kbind (kget (\<lambda>s. ie s - ir s < INPUT_BUF)) (\<lambda>room.
       kwhen (c \<noteq> 0 \<and> room) (console_char (if c = 13 then 10 else c))))"

text \<open>\<open>cs\<close> are the values that the calls of \<open>getc\<close> return.\<close>

fun consoleintr :: "(console, unit) km \<Rightarrow> int list \<Rightarrow> (console, unit) km" where
  "consoleintr procdump [] = kret ()"
| "consoleintr procdump (c # cs) =
    (if c < 0 then kret () else kthen (console_key procdump c) (consoleintr procdump cs))"

definition uartgetc :: "bool \<Rightarrow> u32 \<Rightarrow> int" where
  "uartgetc u rxd =
    (if \<not> u then - 1 else if rxd AND 0x80000000 \<noteq> 0 then uint (rxd AND 0xff) else - 1)"

definition uartintr :: "(console, unit) km \<Rightarrow> u32 list \<Rightarrow> (console, unit) km" where
  "uartintr procdump rxds = kbind (kget uart) (\<lambda>u. consoleintr procdump (map (uartgetc u) rxds))"

text \<open>\<open>consoleread\<close> between \<open>iunlock(ip)\<close> and \<open>ilock(ip)\<close>, from its start or from the return of
  \<open>sleep\<close>: it returns a value with the bytes stored at \<open>dst\<close>, or sleeps with bytes still to read.\<close>

datatype cread = CRet int "u8 list" | CSleep "u8 list" nat

fun consoleread_loop :: "bool \<Rightarrow> nat \<Rightarrow> nat \<Rightarrow> u8 list \<Rightarrow> console \<Rightarrow> cread \<times> console" where
  "consoleread_loop killed target 0 dst s = (CRet (int target) dst, s)"
| "consoleread_loop killed target (Suc n) dst s =
    (if ir s = iw s then
       if killed then (CRet (- 1) dst, s) else (CSleep dst (Suc n), s)
     else
       let c = at_index s (ir s); s1 = s \<lparr> ir := ir s + 1 \<rparr> in
       if c = 4 then
         (CRet (int target - int (Suc n)) dst, if Suc n < target then s1 \<lparr> ir := ir s1 - 1 \<rparr> else s1)
       else if c = 10 then (CRet (int target - int n) (dst @ [c]), s1)
       else consoleread_loop killed target n (dst @ [c]) s1)"

definition consoleread :: "bool \<Rightarrow> int \<Rightarrow> console \<Rightarrow> cread \<times> console" where
  "consoleread killed n s =
    (if n \<le> 0 then (CRet 0 [], s) else consoleread_loop killed (nat n) (nat n) [] s)"

section \<open>The line discipline\<close>

text \<open>The specification: the committed bytes, and the line being edited.\<close>

definition line_key :: "int \<Rightarrow> u8 list \<times> u8 list \<Rightarrow> u8 list \<times> u8 list" where
  "line_key c = (\<lambda>(committed, editing).
    if c = 16 then (committed, editing)
    else if c = 21 then (committed, [])
    else if c = 8 \<or> c = 127 then (committed, butlast editing)
    else if c = 0 \<or> length committed + length editing = INPUT_BUF then (committed, editing)
    else let c' = (if c = 13 then 10 else word_of_int c); line = editing @ [c'] in
      if c' = 10 \<or> c' = 4 \<or> length committed + length line = INPUT_BUF then (committed @ line, [])
      else (committed, line))"

text \<open>Reading up to \<open>n\<close> bytes of the committed ones: the bytes delivered, the bytes left, and whether the
  call is complete.\<close>

fun line_read :: "bool \<Rightarrow> nat \<Rightarrow> u8 list \<Rightarrow> u8 list \<times> u8 list \<times> bool" where
  "line_read first 0 cs = ([], cs, True)"
| "line_read first (Suc n) [] = ([], [], False)"
| "line_read first (Suc n) (c # cs) =
    (if c = 4 then ([], if first then cs else c # cs, True)
     else if c = 10 then ([c], cs, True)
     else let (bs, rest, d) = line_read False n cs in (c # bs, rest, d))"

definition committed :: "console \<Rightarrow> u8 list" where
  "committed s = ring_contents INPUT_BUF (ibuf s) (ir s) (iw s)"

definition editing :: "console \<Rightarrow> u8 list" where
  "editing s = ring_contents INPUT_BUF (ibuf s) (iw s) (ie s)"

definition input_ok :: "console \<Rightarrow> bool" where
  "input_ok s \<longleftrightarrow> length (ibuf s) = INPUT_BUF \<and> length (committed s) + length (editing s) \<le> INPUT_BUF \<and>
    10 \<notin> set (editing s) \<and> 4 \<notin> set (editing s)"

interpretation iring: ring INPUT_BUF
  by unfold_locales simp_all

lemma committed_update [simp]:
  "committed (s \<lparr> txd := t \<rparr>) = committed s" "editing (s \<lparr> txd := t \<rparr>) = editing s"
  "input_ok (s \<lparr> txd := t \<rparr>) = input_ok s"
  "committed (s \<lparr> ie := e \<rparr>) = committed s"
  "committed (s \<lparr> cwoken := ws \<rparr>) = committed s" "editing (s \<lparr> cwoken := ws \<rparr>) = editing s"
  "editing (s \<lparr> ir := r \<rparr>) = editing s"
  by (simp_all add: committed_def editing_def input_ok_def)

lemma input_contents:
  assumes "input_ok s"
  shows "ring_contents INPUT_BUF (ibuf s) (ir s) (ie s) = committed s @ editing s"
proof -
  have "unat (iw s - ir s) + unat (ie s - iw s) \<le> INPUT_BUF"
    using assms unfolding input_ok_def committed_def editing_def length_ring_contents by blast
  then have "unat (iw s - ir s) + unat (ie s - iw s) < 2 ^ 32" by (rule le_less_trans) simp
  from ring_contents_split [OF this] show ?thesis unfolding committed_def editing_def .
qed

lemma input_length:
  assumes "input_ok s"
  shows "unat (ie s - ir s) = length (committed s) + length (editing s)"
  using arg_cong [OF input_contents [OF assms], of length] unfolding length_ring_contents length_append .

lemma consputc_run:
  assumes "\<not> panicked s"
  shows "\<exists>t. consputc c s = Inr ((), s \<lparr> txd := t \<rparr>)"
proof -
  have "\<exists>t. uartputc c s = Inr ((), s \<lparr> txd := t \<rparr>)" for c s
    by (cases "uart s") (auto simp: uartputc_def kmod_def intro: exI [of _ "txd s"])
  then show ?thesis using assms
    by (cases "uart s") (auto simp: consputc_def uartputc_def km_defs intro: exI [of _ "txd s"])
qed

lemma editing_empty_iff: "ie s = iw s \<longleftrightarrow> editing s = []"
  unfolding editing_def ring_contents_empty_iff by (rule eq_commute)

lemma erase_editing:
  assumes "ie s \<noteq> iw s"
  shows "editing (s \<lparr> ie := ie s - 1 \<rparr>) = butlast (editing s)"
    "editing s = butlast (editing s) @ [at_index s (ie s - 1)]"
  using iring.unput_contents [of "iw s" "ie s" "ibuf s"] assms
  by (auto simp: editing_def at_index_def unat_mod)

lemma erase_ok:
  assumes "input_ok s" "ie s \<noteq> iw s"
  shows "input_ok (s \<lparr> ie := ie s - 1 \<rparr>)"
  using assms(1) erase_editing(1) [OF assms(2)] unfolding input_ok_def
  by (auto dest: in_set_butlastD)

text \<open>Control-U erases the whole line: the test for a newline never stops it, because a newline commits
  the line.\<close>

lemma kill_loop_run:
  assumes "\<not> panicked s" "input_ok s" "length (editing s) = k"
  shows "\<exists>t. kill_loop k s = Inr ((), s \<lparr> ie := iw s, txd := t \<rparr>)"
  using assms
proof (induction k arbitrary: s)
  case 0
  then have "ie s = iw s" by (simp add: editing_empty_iff)
  then show ?case by (simp add: kret_def) (metis console.surjective console.update_convs(4,8))
next
  case (Suc k)
  then have ne: "ie s \<noteq> iw s" by (auto simp: editing_empty_iff)
  from erase_editing(2) [OF this] have "at_index s (ie s - 1) \<in> set (editing s)" by (metis in_set_conv_decomp)
  then have nn: "at_index s (ie s - 1) \<noteq> 10" using Suc.prems(2) by (auto simp: input_ok_def)
  let ?s = "s \<lparr> ie := ie s - 1 \<rparr>"
  from consputc_run [of ?s BACKSPACE] Suc.prems(1) obtain t
    where t: "consputc BACKSPACE ?s = Inr ((), ?s \<lparr> txd := t \<rparr>)" by auto
  have l: "length (editing (?s \<lparr> txd := t \<rparr>)) = k" using erase_editing(1) [OF ne] Suc.prems(3) by simp
  have ok: "input_ok (?s \<lparr> txd := t \<rparr>)" using erase_ok [OF Suc.prems(2) ne] by simp
  from Suc.IH [OF _ ok l] Suc.prems(1) obtain t'
    where "kill_loop k (?s \<lparr> txd := t \<rparr>) = Inr ((), ?s \<lparr> txd := t, ie := iw s, txd := t' \<rparr>)" by auto
  then show ?case using ne nn t by (simp add: kbind_def kget_def kmod_def) blast
qed

lemma kill_line_run:
  assumes "\<not> panicked s" "input_ok s"
  shows "\<exists>t. kill_line s = Inr ((), s \<lparr> ie := iw s, txd := t \<rparr>)"
proof -
  have "unat (ie s - iw s) = length (editing s)" by (simp add: editing_def)
  then show ?thesis using kill_loop_run [OF assms refl] by (simp add: kill_line_def kbind_def kget_def)
qed

lemma input_put_contents:
  assumes "input_ok s" "length (committed s) + length (editing s) < INPUT_BUF"
  shows "committed (input_put c s) = committed s" "editing (input_put c s) = editing s @ [word_of_int c]"
proof -
  let ?d = "(ibuf s)[unat (ie s) mod INPUT_BUF := word_of_int c]"
  have len: "length (ibuf s) = INPUT_BUF" using assms(1) by (simp add: input_ok_def)
  have d: "ibuf (input_put c s) = ?d" "ir (input_put c s) = ir s" "iw (input_put c s) = iw s"
    "ie (input_put c s) = ie s + 1"
    by (simp_all add: input_put_def unat_mod)
  have l: "unat (iw s - ir s) = length (committed s)" "unat (ie s - iw s) = length (editing s)"
    by (simp_all add: committed_def editing_def)
  have lt: "unat (ie s - iw s) < INPUT_BUF" "unat (ie s - ir s) < INPUT_BUF"
    using assms(2) l input_length [OF assms(1)] by simp_all
  show e: "editing (input_put c s) = editing s @ [word_of_int c]"
    using iring.put_contents [OF len lt(1), of "word_of_int c"] by (simp add: editing_def d)
  have "unat (iw s - ir s) + unat (ie s + 1 - iw s) < 2 ^ 32"
    using iring.put_length [OF lt(1)] assms(2) l by simp
  from ring_contents_split [OF this, of INPUT_BUF ?d]
  have "committed (input_put c s) @ editing (input_put c s) = committed s @ editing s @ [word_of_int c]"
    using iring.put_contents [OF len lt(2), of "word_of_int c"] input_contents [OF assms(1)]
    by (simp add: committed_def editing_def d)
  then show "committed (input_put c s) = committed s" unfolding e by simp
qed

text \<open>What \<open>consoleintr\<close> relies on in \<open>procdump\<close>: it only prints.\<close>

definition only_prints :: "(console, unit) km \<Rightarrow> bool" where
  "only_prints m \<longleftrightarrow> (\<forall>s. \<not> panicked s \<longrightarrow> (\<exists>t. m s = Inr ((), s \<lparr> txd := t \<rparr>)))"

definition key_result :: "int \<Rightarrow> console \<Rightarrow> console \<Rightarrow> bool" where
  "key_result c s s' \<longleftrightarrow> (committed s', editing s') = line_key c (committed s, editing s) \<and>
    input_ok s' \<and> \<not> panicked s' \<and>
    cwoken s' = cwoken s @ (if committed s' = committed s then [] else [Chan_input_r])"

lemma ctrl_simps [simp]:
  "ctrl CHR ''P'' = 16" "ctrl CHR ''U'' = 21" "ctrl CHR ''H'' = 8" "ctrl CHR ''D'' = 4"
  by (simp_all add: ctrl_def)

lemma input_put_ok:
  assumes "input_ok s" "length (committed s) + length (editing s) < INPUT_BUF"
    "word_of_int c \<noteq> (10 :: u8)" "word_of_int c \<noteq> (4 :: u8)"
  shows "input_ok (input_put c s)"
proof -
  have "length (ibuf (input_put c s)) = INPUT_BUF" using assms(1) by (simp add: input_put_def input_ok_def)
  then show ?thesis using assms unfolding input_ok_def input_put_contents [OF assms(1,2)] by simp
qed

lemma console_char_run:
  assumes "input_ok s" "\<not> panicked s" "length (committed s) + length (editing s) < INPUT_BUF"
  shows "\<exists>s'. console_char c s = Inr ((), s') \<and> \<not> panicked s' \<and> length (ibuf s') = INPUT_BUF \<and>
    (if c = 10 \<or> c = 4 \<or> length (committed s) + length (editing s) + 1 = INPUT_BUF
     then committed s' = committed s @ editing s @ [word_of_int c] \<and> editing s' = [] \<and>
       cwoken s' = cwoken s @ [Chan_input_r]
     else committed s' = committed s \<and> editing s' = editing s @ [word_of_int c] \<and> cwoken s' = cwoken s)"
proof -
  let ?s = "input_put c s"
  have ps: "\<not> panicked ?s" "cwoken ?s = cwoken s" "length (ibuf ?s) = INPUT_BUF"
    using assms(1,2) by (simp_all add: input_put_def input_ok_def)
  note put = input_put_contents [OF assms(1,3), of c]
  from consputc_run [OF ps(1), of c] obtain t where t: "consputc c ?s = Inr ((), ?s \<lparr> txd := t \<rparr>)" by blast
  have "unat (iw ?s - ir ?s) + unat (ie ?s - iw ?s) < 2 ^ 32"
    using arg_cong [OF put(1), of length] arg_cong [OF put(2), of length] assms(3)
    by (simp add: committed_def [of ?s] editing_def [of ?s])
  then have all: "ring_contents INPUT_BUF (ibuf ?s) (ir ?s) (ie ?s) = committed s @ editing s @ [word_of_int c]"
    using ring_contents_split put by (simp add: committed_def [of ?s] editing_def [of ?s])
  have full: "ie ?s = ir ?s + INPUT_BUF \<longleftrightarrow> length (committed s) + length (editing s) + 1 = INPUT_BUF"
    using iring.full_iff [of "ie ?s" "ir ?s"] arg_cong [OF all, of length] by simp
  let ?u = "?s \<lparr> txd := t, iw := ie ?s, cwoken := cwoken s @ [Chan_input_r] \<rparr>"
  have u: "committed ?u = committed s @ editing s @ [word_of_int c]" "editing ?u = []"
    using all unfolding committed_def [of ?u] editing_def [of ?u] by (simp_all add: ring_contents_empty_iff)
  have run: "console_char c s =
      Inr ((), if c = 10 \<or> c = 4 \<or> length (committed s) + length (editing s) + 1 = INPUT_BUF then ?u else ?s \<lparr> txd := t \<rparr>)"
    using t full ps by (simp add: console_char_def kbind_def kmod_def kget_def kret_def)
  show ?thesis
    by (cases "c = 10 \<or> c = 4 \<or> length (committed s) + length (editing s) + 1 = INPUT_BUF")
      (simp_all only: run if_True if_False, use u put ps in auto)
qed

lemma byte_of_int_inj:
  assumes "0 \<le> c" "c < 256" "0 \<le> d" "d < 256"
  shows "word_of_int c = (word_of_int d :: u8) \<longleftrightarrow> c = d"
  using assms by (auto simp: word_uint_eq_iff uint_word_of_int)

lemma console_key_refines:
  assumes "input_ok s" "\<not> panicked s" "0 \<le> c" "c < 256" "only_prints procdump"
  shows "\<exists>s'. console_key procdump c s = Inr ((), s') \<and> key_result c s s'"
proof -
  consider "c = 16" | "c = 21" | "c = 8 \<or> c = 127" | "c \<notin> {16, 21, 8, 127}" by blast
  then show ?thesis
  proof cases
    case 1
    from assms(2,5) obtain t where "procdump s = Inr ((), s \<lparr> txd := t \<rparr>)" unfolding only_prints_def by blast
    with 1 assms(1,2) show ?thesis by (auto simp: console_key_def key_result_def line_key_def)
  next
    case 2
    from kill_line_run [OF assms(2,1)] obtain t where t: "kill_line s = Inr ((), s \<lparr> ie := iw s, txd := t \<rparr>)" by blast
    have "editing (s \<lparr> ie := iw s \<rparr>) = []" by (simp flip: editing_empty_iff)
    with 2 t assms(1,2) show ?thesis
      by (auto simp: console_key_def key_result_def line_key_def input_ok_def)
  next
    case 3
    show ?thesis
    proof (cases "ie s = iw s")
      case True
      with 3 assms(1,2) show ?thesis
        by (auto simp: console_key_def key_result_def line_key_def kbind_def kget_def kret_def editing_empty_iff)
    next
      case False
      from consputc_run [of "s \<lparr> ie := ie s - 1 \<rparr>" BACKSPACE] assms(2) obtain t
        where t: "consputc BACKSPACE (s \<lparr> ie := ie s - 1 \<rparr>) = Inr ((), s \<lparr> ie := ie s - 1, txd := t \<rparr>)" by auto
      with 3 False assms(2) erase_editing(1) [OF False] erase_ok [OF assms(1) False] show ?thesis
        by (auto simp: console_key_def key_result_def line_key_def kbind_def kget_def kmod_def)
    qed
  next
    case 4
    let ?c = "if c = 13 then 10 else c"
    have le: "length (committed s) + length (editing s) \<le> INPUT_BUF" using assms(1) by (simp add: input_ok_def)
    have room: "ie s - ir s < INPUT_BUF \<longleftrightarrow> length (committed s) + length (editing s) \<noteq> INPUT_BUF"
      using input_length [OF assms(1)] le by (auto simp: word_less_nat_alt)
    have key: "console_key procdump c s =
        (if c \<noteq> 0 \<and> length (committed s) + length (editing s) \<noteq> INPUT_BUF then console_char ?c s else Inr ((), s))"
      using 4 room by (simp add: console_key_def kbind_def kget_def kret_def)
    show ?thesis
    proof (cases "c \<noteq> 0 \<and> length (committed s) + length (editing s) \<noteq> INPUT_BUF")
      case False
      with 4 assms(1,2) show ?thesis by (auto simp: key key_result_def line_key_def)
    next
      case True
      with le have lt: "length (committed s) + length (editing s) < INPUT_BUF" by linarith
      have b: "word_of_int ?c = (10 :: u8) \<longleftrightarrow> ?c = 10" "word_of_int ?c = (4 :: u8) \<longleftrightarrow> ?c = 4"
        using byte_of_int_inj [of ?c 10] byte_of_int_inj [of ?c 4] assms(3,4) by auto
      have w: "(if c = 13 then 10 else word_of_int c) = (word_of_int ?c :: u8)" by simp
      let ?P = "?c = 10 \<or> ?c = 4 \<or> length (committed s) + length (editing s) + 1 = INPUT_BUF"
      from console_char_run [OF assms(1,2) lt, of ?c] obtain s'
        where s': "console_char ?c s = Inr ((), s')" "\<not> panicked s'" "length (ibuf s') = INPUT_BUF"
          "if ?P then committed s' = committed s @ editing s @ [word_of_int ?c] \<and> editing s' = [] \<and>
             cwoken s' = cwoken s @ [Chan_input_r]
           else committed s' = committed s \<and> editing s' = editing s @ [word_of_int ?c] \<and> cwoken s' = cwoken s"
        by blast
      have spec: "line_key c (committed s, editing s) =
          (if ?P then (committed s @ editing s @ [word_of_int ?c], []) else (committed s, editing s @ [word_of_int ?c]))"
        using True 4 b unfolding line_key_def w by (simp add: Let_def)
      have "key_result c s s'"
      proof (cases ?P)
        case P: True
        with s'(4) have "committed s' = committed s @ editing s @ [word_of_int ?c]" "editing s' = []"
          "cwoken s' = cwoken s @ [Chan_input_r]" by presburger+
        with s'(2,3) lt show ?thesis unfolding key_result_def spec input_ok_def by (simp only: P if_True) simp
      next
        case P: False
        with s'(4) have "committed s' = committed s" "editing s' = editing s @ [word_of_int ?c]"
          "cwoken s' = cwoken s" by presburger+
        moreover have "(10 :: u8) \<noteq> word_of_int ?c" "(4 :: u8) \<noteq> word_of_int ?c" using P b by metis+
        ultimately show ?thesis using s'(2,3) lt assms(1)
          unfolding key_result_def spec input_ok_def by (simp only: P if_False) simp
      qed
      moreover have "console_key procdump c s = Inr ((), s')" unfolding key using s'(1) True by (rule trans [OF if_P, rotated])
      ultimately show ?thesis by blast
    qed
  qed
qed

text \<open>Reading.\<close>

lemma committed_get:
  assumes "ir s \<noteq> iw s"
  shows "committed s = at_index s (ir s) # committed (s \<lparr> ir := ir s + 1 \<rparr>)"
  using iring.get_contents [OF assms, of "ibuf s"] by (simp add: committed_def at_index_def unat_mod)

lemma committed_empty_iff: "ir s = iw s \<longleftrightarrow> committed s = []"
  unfolding committed_def ring_contents_empty_iff ..

lemma line_read_length: "line_read first n cs = (bs, rest, complete) \<Longrightarrow> length rest \<le> length cs"
  by (induction first n cs arbitrary: bs rest complete rule: line_read.induct)
    (auto split: if_splits prod.splits)

lemma consoleread_loop_spec:
  assumes "consoleread_loop killed target n dst s = (r, s')" "n \<le> target"
    "line_read (n = target) n (committed s) = (bs, rest, complete)"
  shows "committed s' = rest \<and> editing s' = editing s \<and> ibuf s' = ibuf s \<and>
    r = (if complete then CRet (int target - int n + int (length bs)) (dst @ bs)
         else if killed then CRet (- 1) (dst @ bs) else CSleep (dst @ bs) (n - length bs))"
  using assms
proof (induction n arbitrary: dst s bs rest complete)
  case 0
  then show ?case by auto
next
  case (Suc n)
  show ?case
  proof (cases "ir s = iw s")
    case True
    then show ?thesis using Suc.prems by (auto simp: committed_empty_iff split: if_splits)
  next
    case False
    let ?c = "at_index s (ir s)" and ?s = "s \<lparr> ir := ir s + 1 \<rparr>"
    note get = committed_get [OF False]
    consider "?c = 4" | "?c = 10" | "?c \<noteq> 4 \<and> ?c \<noteq> 10" by blast
    then show ?thesis
    proof cases
      case 1
      then show ?thesis using Suc.prems False get by (auto split: if_splits)
    next
      case 2
      then show ?thesis using Suc.prems False get by auto
    next
      case 3
      obtain bs' where bs: "bs = ?c # bs'" "line_read False n (committed ?s) = (bs', rest, complete)"
        using Suc.prems(3) 3 unfolding get by (auto split: prod.splits)
      have "consoleread_loop killed target n (dst @ [?c]) ?s = (r, s')" using Suc.prems(1) False 3 by (simp add: Let_def)
      moreover have "n \<noteq> target" using Suc.prems(2) by simp
      ultimately show ?thesis using Suc.IH [of "dst @ [?c]" ?s bs' rest complete] Suc.prems(2) bs
        by (auto split: if_splits)
    qed
  qed
qed

section \<open>Properties\<close>

text \<open>
  C15. The input buffer refines a line discipline. However often the 32-bit indices wrap around, an
  interrupt that delivers the characters \<open>cs\<close> changes the committed bytes and the edited line as the
  list specification says: control-U drops the whole line, backspace its last character, a full buffer
  drops the character, a return is stored as a newline, and a newline, a control-D or the last free
  place commits the line. The index invariant is kept, and the interrupt always completes.
\<close>

theorem consoleintr_refines:
  assumes "input_ok s" "\<not> panicked s" "\<forall>c \<in> set cs. c < 256" "only_prints procdump"
  shows "\<exists>s'. consoleintr procdump cs s = Inr ((), s') \<and> input_ok s' \<and> \<not> panicked s' \<and>
    (committed s', editing s') = fold line_key (takeWhile (\<lambda>c. 0 \<le> c) cs) (committed s, editing s)"
  using assms(1-3)
proof (induction cs arbitrary: s)
  case Nil
  then show ?case by (simp add: kret_def)
next
  case (Cons c cs)
  show ?case
  proof (cases "c < 0")
    case True
    then show ?thesis using Cons.prems by (simp add: kret_def)
  next
    case False
    then obtain s1 where s1: "console_key procdump c s = Inr ((), s1)" "key_result c s s1"
      using console_key_refines [OF Cons.prems(1,2) _ _ assms(4), of c] Cons.prems(3) by auto
    with Cons.IH [of s1] Cons.prems(3) False show ?thesis by (simp add: key_result_def kbind_def)
  qed
qed

theorem consoleintr_refines_witness:
  "let s = \<lparr> locking = True, panicked = False, uart = True, txd = [], ibuf = replicate INPUT_BUF 0,
             ir = 0, iw = 0, ie = 0, cwoken = [] \<rparr>
   in input_ok s \<and> (\<exists>s'. consoleintr (kret ()) [104, 105, 120, 8, 13, - 1] s = Inr ((), s') \<and>
        committed s' = [104, 105, 10] \<and> editing s' = [])"
proof -
  let ?s = "\<lparr> locking = True, panicked = False, uart = True, txd = [], ibuf = replicate INPUT_BUF 0,
             ir = 0, iw = 0, ie = 0, cwoken = [] \<rparr> :: console"
  have ok: "input_ok ?s" "committed ?s = []" "editing ?s = []"
    by (simp_all add: input_ok_def committed_def editing_def ring_contents_def)
  have p: "only_prints (kret ())"
    unfolding only_prints_def kret_def by (metis console.surjective console.update_convs(4))
  from consoleintr_refines [OF ok(1) _ _ p, of "[104, 105, 120, 8, 13, - 1]"] ok(2,3)
  obtain s' where "consoleintr (kret ()) [104, 105, 120, 8, 13, - 1] ?s = Inr ((), s')"
    "(committed s', editing s') = ([104, 105, 10], [])"
    by (auto simp: line_key_def simp del: consoleintr.simps)
  with ok(1) show ?thesis by (auto simp: Let_def simp del: consoleintr.simps)
qed

text \<open>
  C28. \<open>consoleread\<close> delivers at most one line. It takes from the front of the committed bytes up to and
  including the first newline, at most \<open>n\<close> bytes; a control-D ends the call without being delivered,
  and is consumed only if it is the first byte, so that the end of file is reported by a 0-byte read.
  If the committed bytes run out first it sleeps, or returns -1 if the process is killed.
\<close>

theorem consoleread_line:
  assumes "0 < n" "line_read True (nat n) (committed s) = (bs, rest, complete)"
  shows "\<exists>s'. consoleread killed n s =
      (if complete then CRet (int (length bs)) bs else if killed then CRet (- 1) bs
       else CSleep bs (nat n - length bs), s') \<and>
    committed s' = rest \<and> editing s' = editing s \<and> (input_ok s \<longrightarrow> input_ok s')"
proof -
  obtain r s' where l: "consoleread_loop killed (nat n) (nat n) [] s = (r, s')" by fastforce
  from consoleread_loop_spec [OF l le_refl] assms(2)
  have s': "committed s' = rest" "editing s' = editing s" "ibuf s' = ibuf s"
    "r = (if complete then CRet (int (length bs)) bs else if killed then CRet (- 1) bs
          else CSleep bs (nat n - length bs))" by auto
  have "length rest \<le> length (committed s)" using line_read_length [OF assms(2)] .
  with s' have "input_ok s \<longrightarrow> input_ok s'" by (auto simp: input_ok_def)
  with s' l assms(1) show ?thesis by (auto simp: consoleread_def)
qed

theorem consoleread_line_witness:
  "let s = \<lparr> locking = True, panicked = False, uart = True, txd = [], ibuf = [104, 105, 10, 4, 120],
             ir = 0, iw = 5, ie = 5, cwoken = [] \<rparr>
   in \<exists>s'. consoleread False 4 s = (CRet 3 [104, 105, 10], s') \<and> committed s' = [4, 120]"
proof -
  let ?s = "\<lparr> locking = True, panicked = False, uart = True, txd = [], ibuf = [104, 105, 10, 4, 120],
             ir = 0, iw = 5, ie = 5, cwoken = [] \<rparr> :: console"
  have "[0..<5] = [0, 1, 2, 3, 4 :: nat]" by (simp add: upt_rec)
  then have c: "committed ?s = [104, 105, 10, 4, 120]" by (simp add: committed_def ring_contents_def)
  have n: "nat 4 = Suc (Suc (Suc (Suc 0)))" by simp
  have "line_read True (nat 4) (committed ?s) = ([104, 105, 10], [4, 120], True)"
    unfolding c n by simp
  from consoleread_line [OF _ this, of False] show ?thesis by (simp add: Let_def) blast
qed

end
