(* ===== verification/Kstate.thy ===== *)
theory Kstate
  imports Fs Vm Pipe Console
begin

text \<open>
  The state of the whole kernel: the file system state extended by physical memory, the console, the
  file table, the pipes and the process table. The operations of the components below run in it through
  \<open>klift\<close>. The theory also has the accesses to user memory through the page table of the running process,
  and the two operations of \<open>src/vm.c\<close> that need more than memory (\<open>allocuvm\<close> prints, \<open>loaduvm\<close> reads a file).
\<close>

section \<open>State\<close>

datatype filetype = FD_NONE | FD_PIPE | FD_INODE

record kfile =
  ftype :: filetype
  fref :: int
  readable :: bool
  writable :: bool
  fpipe :: u32
  fip :: nat
  foff :: u32

record trapframe =
  ppsr :: u32
  ppcr :: u32
  uspr :: u32
  rret :: u32
  tr0 :: u32
  tr1 :: u32
  tr2 :: u32
  tr3 :: u32
  tr4 :: u32
  tr5 :: u32
  tr6 :: u32
  trapno :: u32
  tregs :: "u32 list"

datatype procstate = UNUSED | EMBRYO | SLEEPING | RUNNABLE | RUNNING | ZOMBIE

record proc =
  psz :: u32
  pgdir :: u32
  kstack :: u32
  tfp :: u32
  ctxp :: u32
  pcontext :: "u32 \<times> u32"
  pstate :: procstate
  pid :: int
  parent :: "nat option"
  tf :: trapframe
  pchan :: "chan option"
  killed :: bool
  ofile :: "nat \<Rightarrow> nat option"
  cwd :: "nat option"
  pname :: "u8 list"

text \<open>
  \<open>cur\<close> is \<open>proc()\<close>, the process on this CPU; \<open>pdt\<close> is the page table register. \<open>kend\<close>, \<open>kdata\<close>, \<open>kforkret\<close> and
  \<open>ktrapret\<close> are the linker's addresses \<open>end\<close>, \<open>data\<close>, \<open>forkret\<close> and \<open>trapret\<close>. Of a saved context the two words that the
  kernel itself writes are kept: \<open>return_to\<close> and \<open>rret\<close>. The trap frame is kept in the process. A pipe is kept under the address of its page. The wake-ups of the layers
  below are recorded in \<open>woken\<close> and delivered by \<open>wakeup1\<close> (theory \<open>Proc\<close>).
\<close>

record kst = fst +
  kmm :: kmem
  kcpu :: cpu
  pdt :: u32
  kpgdir :: u32
  kend :: u32
  kdata :: u32
  kforkret :: u32
  ktrapret :: u32
  cons :: console
  files :: "nat \<Rightarrow> kfile"
  pipes :: "u32 \<Rightarrow> pipe"
  ptlock :: spinlock
  procs :: "nat \<Rightarrow> proc"
  cur :: "nat option"
  initproc :: "nat option"
  nextpid :: int
  ticks :: u32

definition on_mem :: "(kmem, 'b) km \<Rightarrow> ('a kst_scheme, 'b) km" where
  "on_mem = klift kmm (\<lambda>t s. s \<lparr> kmm := t \<rparr>)"

text \<open>Console operations; their wake-ups join the history of the kernel's.\<close>

definition on_cons :: "(console, 'b) km \<Rightarrow> ('a kst_scheme, 'b) km" where
  "on_cons = klift (\<lambda>s. (cons s) \<lparr> cwoken := [] \<rparr>) (\<lambda>t s. s \<lparr> cons := t, woken := woken s @ cwoken t \<rparr>)"

definition self :: "'a kst_scheme \<Rightarrow> nat" where
  "self s = the (cur s)"

definition upd_proc :: "nat \<Rightarrow> (proc \<Rightarrow> proc) \<Rightarrow> 'a kst_scheme \<Rightarrow> 'a kst_scheme" where
  "upd_proc p f s = s \<lparr> procs := (procs s)(p := f (procs s p)) \<rparr>"

definition upd_file :: "nat \<Rightarrow> (kfile \<Rightarrow> kfile) \<Rightarrow> 'a kst_scheme \<Rightarrow> 'a kst_scheme" where
  "upd_file f g s = s \<lparr> files := (files s)(f := g (files s f)) \<rparr>"

text \<open>\<open>proc()->x\<close>.\<close>

definition myproc :: "(proc \<Rightarrow> 'b) \<Rightarrow> ('a kst_scheme, 'b) km" where
  "myproc f = kget (\<lambda>s. f (procs s (self s)))"

definition set_myproc :: "(proc \<Rightarrow> proc) \<Rightarrow> ('a kst_scheme, unit) km" where
  "set_myproc f = kmod (\<lambda>s. upd_proc (self s) f s)"

section \<open>User memory\<close>

text \<open>The translation that the hardware makes with the page directory at \<open>pgd\<close>.\<close>

definition translate :: "mem \<Rightarrow> u32 \<Rightarrow> u32 \<Rightarrow> u32 option" where
  "translate m pgd va =
    (let e = load32 m (pgd + 4 * PDX va) in
     if e AND PTE_V = 0 then None
     else
       let pte = load32 m (p2v (PTE_ADDR e) + 4 * PTX va) in
       if pte AND PTE_V = 0 then None else Some (p2v (PTE_ADDR pte) + (va AND 0xFFF)))"

definition uaddr :: "'a kst_scheme \<Rightarrow> u32 \<Rightarrow> u32 option" where
  "uaddr s va = translate (memory (kmm s)) (pgdir (procs s (self s))) va"

definition ubyte :: "u32 \<Rightarrow> ('a kst_scheme, u8) km" where
  "ubyte va = kbind (kget (\<lambda>s. (uaddr s va, memory (kmm s)))) (\<lambda>(a, m).
    case a of None \<Rightarrow> kstop Fault | Some a \<Rightarrow> kret (m a))"

primrec ubytes :: "u32 \<Rightarrow> nat \<Rightarrow> ('a kst_scheme, u8 list) km" where
  "ubytes va 0 = kret []"
| "ubytes va (Suc n) = kbind (ubyte va) (\<lambda>b. kbind (ubytes (va + 1) n) (\<lambda>bs. kret (b # bs)))"

fun ustore :: "u32 \<Rightarrow> u8 list \<Rightarrow> ('a kst_scheme, unit) km" where
  "ustore va [] = kret ()"
| "ustore va (b # bs) =
    kbind (kget (\<lambda>s. uaddr s va)) (\<lambda>a.
    case a of
      None \<Rightarrow> kstop Fault
    | Some a \<Rightarrow> kthen (kmod (\<lambda>s. s \<lparr> kmm := (kmm s) \<lparr> memory := (memory (kmm s))(a := b) \<rparr> \<rparr>)) (ustore (va + 1) bs))"

section \<open>Address spaces\<close>

definition switchkvm :: "('a kst_scheme, unit) km" where
  "switchkvm = kmod (\<lambda>s. s \<lparr> pdt := v2p (kpgdir s) \<rparr>)"

definition switchuvm :: "nat \<Rightarrow> ('a kst_scheme, unit) km" where
  "switchuvm p =
    kthen (klift kcpu (\<lambda>c s. s \<lparr> kcpu := c \<rparr>) pushcli)
   (kbind (kget (\<lambda>s. pgdir (procs s p))) (\<lambda>d.
    if d = 0 then kpanic ''switchuvm: no pgdir''
    else
      kthen (kmod (\<lambda>s. s \<lparr> pdt := v2p d \<rparr>))
            (klift kcpu (\<lambda>c s. s \<lparr> kcpu := c \<rparr>) popcli)))"

definition kvmalloc :: "('a kst_scheme, unit) km" where
  "kvmalloc =
    kbind (kget kdata) (\<lambda>data.
    kbind (on_mem (setupkvm data)) (\<lambda>d.
    kthen (kmod (\<lambda>s. s \<lparr> kpgdir := d \<rparr>)) switchkvm))"

definition allocuvm :: "u32 \<Rightarrow> u32 \<Rightarrow> u32 \<Rightarrow> ('a kst_scheme, u32) km" where
  "allocuvm pgd oldsz newsz =
    (if newsz \<ge> KERNBASE then kret 0
     else if newsz < oldsz then kret oldsz
     else
       kbind (kget kend) (\<lambda>kend.
       kbind (on_mem (allocuvm_loop pgd (unat (PGROUNDUP oldsz)) (unat newsz))) (\<lambda>ok.
       if ok then kret newsz
       else
         kthen (on_cons (cprintf (Some (bytes ''allocuvm out of memory'' @ [10])) []))
        (kthen (on_mem (deallocuvm kend pgd newsz oldsz))
               (kret 0)))))"

text \<open>The loop of \<open>loaduvm\<close>: \<open>i\<close> counts the bytes of the segment that have been read.\<close>

function loaduvm_loop :: "'a kst_scheme devsw \<Rightarrow> u32 \<Rightarrow> u32 \<Rightarrow> nat \<Rightarrow> u32 \<Rightarrow> nat \<Rightarrow> nat \<Rightarrow> ('a kst_scheme, int) km" where
  "loaduvm_loop devsw pgd addr ip offset i sz =
    (if i < sz then
       kbind (on_mem (walkpgdir pgd (addr + word_of_nat i) False)) (\<lambda>r.
       case r of
         None \<Rightarrow> kpanic ''loaduvm: address should exist''
       | Some pte \<Rightarrow>
           kbind (on_mem (kload pte)) (\<lambda>e.
           let n = (if sz - i < 4096 then sz - i else 4096) in
           kbind (readi devsw ip (offset + word_of_nat i) (word_of_nat n)) (\<lambda>(r, bs).
           kthen (kmod (\<lambda>s. s \<lparr> kmm := (kmm s) \<lparr> memory := written (memory (kmm s)) (p2v (PTE_ADDR e)) bs \<rparr> \<rparr>))
          (if r \<noteq> int n then kret (- 1) else loaduvm_loop devsw pgd addr ip offset (i + 4096) sz))))
     else kret 0)"
  by pat_completeness auto
termination
  by (relation "measure (\<lambda>(devsw, pgd, addr, ip, offset, i, sz). sz - i)") auto

declare loaduvm_loop.simps [simp del]

definition loaduvm :: "'a kst_scheme devsw \<Rightarrow> u32 \<Rightarrow> u32 \<Rightarrow> nat \<Rightarrow> u32 \<Rightarrow> u32 \<Rightarrow> ('a kst_scheme, int) km" where
  "loaduvm devsw pgd addr ip offset sz =
    (if addr mod PGSIZE \<noteq> 0 then kpanic ''loaduvm: addr must be page aligned''
     else loaduvm_loop devsw pgd addr ip offset 0 (unat sz))"

end
