(* ===== verification/File.thy ===== *)
theory File
  imports Kstate
begin

text \<open>
  Open files (\<open>src/file.c\<close>, \<open>pipealloc\<close> of \<open>src/pipe.c\<close>, the device table that \<open>consoleinit\<close> fills in). A call that
  has to wait stops with \<open>Sleep\<close>; what a pipe or the console does in the stretches between is in
  their own theories.
\<close>

section \<open>Devices\<close>

text \<open>\<open>consoleread\<close> and \<open>consolewrite\<close> with the release of the inode's lock around them.\<close>

definition console_dev_read :: "nat \<Rightarrow> u32 \<Rightarrow> (kst, int \<times> u8 list) km" where
  "console_dev_read ip n =
    kthen (iunlock ip)
   (kbind (myproc killed) (\<lambda>k.
    kbind (kget cons) (\<lambda>c.
    case consoleread k (sint n) c of
      (CRet r bs, c') \<Rightarrow> kthen (kmod (cons_update (\<lambda>_. c'))) (kthen (ilock ip) (kret (r, bs)))
    | (CSleep _ _, c') \<Rightarrow> kstop (Sleep Chan_input_r))))"

definition console_dev_write :: "nat \<Rightarrow> u8 list \<Rightarrow> u32 \<Rightarrow> (kst, int) km" where
  "console_dev_write ip bs n =
    kthen (iunlock ip)
   (kthen (on_cons (consolewrite (take (nat (sint n)) bs)))
   (kthen (ilock ip)
          (kret (sint n))))"

abbreviation (input) CONSOLE :: int where "CONSOLE \<equiv> 1"

definition kdevsw :: "kst devsw" where
  "kdevsw = \<lparr> dev_read = (\<lambda>m. if m = CONSOLE then Some console_dev_read else None),
              dev_write = (\<lambda>m. if m = CONSOLE then Some console_dev_write else None) \<rparr>"

section \<open>The file table\<close>

definition filealloc :: "(kst, nat option) km" where
  "filealloc =
    kbind (kget files) (\<lambda>ft.
    case find (\<lambda>f. fref (ft f) = 0) [0..<NFILE] of
      Some f \<Rightarrow> kthen (kmod (upd_file f (fref_update (\<lambda>_. 1)))) (kret (Some f))
    | None \<Rightarrow> kret None)"

definition filedup :: "nat \<Rightarrow> (kst, nat) km" where
  "filedup f =
    kbind (kget (\<lambda>s. fref (files s f))) (\<lambda>r.
    if r < 1 then kpanic ''filedup''
    else kthen (kmod (upd_file f (fref_update (\<lambda>r. r + 1)))) (kret f))"

text \<open>\<open>pipeclose\<close> on the pipe at the page \<open>pa\<close>.\<close>

definition close_pipe :: "u32 \<Rightarrow> bool \<Rightarrow> (kst, unit) km" where
  "close_pipe pa w =
    kbind (kget (\<lambda>s. (pipes s pa, kend s))) (\<lambda>(p, kend).
    case pipeclose (unat pa) w p of
      (free, p', ws) \<Rightarrow>
        kthen (kmod (\<lambda>s. s \<lparr> pipes := (pipes s)(pa := p'), woken := woken s @ ws \<rparr>))
              (kwhen free (on_mem (kfree kend pa))))"

definition fileclose :: "nat \<Rightarrow> (kst, unit) km" where
  "fileclose f =
    kbind (kget (\<lambda>s. files s f)) (\<lambda>ff.
    if fref ff < 1 then kpanic ''fileclose''
    else if fref ff - 1 > 0 then kmod (upd_file f (fref_update (\<lambda>r. r - 1)))
    else
      kthen (kmod (upd_file f (\<lambda>x. x \<lparr> ftype := FD_NONE, fref := 0 \<rparr>)))
     (case ftype ff of
        FD_PIPE \<Rightarrow> close_pipe (fpipe ff) (writable ff)
      | FD_INODE \<Rightarrow> kthen begin_trans (kthen (iput (fip ff)) commit_trans)
      | FD_NONE \<Rightarrow> kret ()))"

definition filestat :: "nat \<Rightarrow> (kst, int \<times> stat option) km" where
  "filestat f =
    kbind (kget (\<lambda>s. files s f)) (\<lambda>ff.
    if ftype ff = FD_INODE then
      kthen (ilock (fip ff))
     (kbind (stati (fip ff)) (\<lambda>st.
      kthen (iunlock (fip ff)) (kret (0, Some st))))
    else kret (- 1, None))"

definition read_pipe :: "u32 \<Rightarrow> int \<Rightarrow> (kst, int \<times> u8 list) km" where
  "read_pipe pa n =
    kbind (myproc killed) (\<lambda>k.
    kbind (kget (\<lambda>s. pipes s pa)) (\<lambda>p.
    case piperead (unat pa) k n p of
      ((PRet r, bs), p', ws) \<Rightarrow>
        kthen (kmod (\<lambda>s. s \<lparr> pipes := (pipes s)(pa := p'), woken := woken s @ ws \<rparr>)) (kret (r, bs))
    | ((PSleep c, bs), p', ws) \<Rightarrow> kstop (Sleep c)))"

definition write_pipe :: "u32 \<Rightarrow> int \<Rightarrow> u8 list \<Rightarrow> (kst, int) km" where
  "write_pipe pa n bs =
    kbind (myproc killed) (\<lambda>k.
    kbind (kget (\<lambda>s. pipes s pa)) (\<lambda>p.
    case pipewrite (unat pa) k n bs p of
      ((PRet r, _), p', ws) \<Rightarrow>
        kthen (kmod (\<lambda>s. s \<lparr> pipes := (pipes s)(pa := p'), woken := woken s @ ws \<rparr>)) (kret r)
    | ((PSleep c, _), p', ws) \<Rightarrow> kstop (Sleep c)))"

text \<open>The bytes that a read gives are returned with the count; \<open>sys_read\<close> puts them at the user's address.\<close>

definition fileread :: "nat \<Rightarrow> int \<Rightarrow> (kst, int \<times> u8 list) km" where
  "fileread f n =
    kbind (kget (\<lambda>s. files s f)) (\<lambda>ff.
    if \<not> readable ff then kret (- 1, [])
    else
      (case ftype ff of
         FD_PIPE \<Rightarrow> read_pipe (fpipe ff) n
       | FD_INODE \<Rightarrow>
           kthen (ilock (fip ff))
          (kbind (readi kdevsw (fip ff) (foff ff) (word_of_int n)) (\<lambda>(r, bs).
           kthen (kwhen (r > 0) (kmod (upd_file f (foff_update (\<lambda>x. x + word_of_int r)))))
          (kthen (iunlock (fip ff))
                 (kret (r, bs)))))
       | FD_NONE \<Rightarrow> kpanic ''fileread''))"

abbreviation (input) maxwrite :: nat where "maxwrite \<equiv> (LOGSIZE - 1 - 1 - 2) div 2 * 512"

text \<open>The loop of \<open>filewrite\<close> with the bytes that are left; it tells how many were left when it ended.\<close>

function filewrite_loop :: "nat \<Rightarrow> u8 list \<Rightarrow> (kst, nat) km" where
  "filewrite_loop f bs =
    (if bs = [] then kret 0
     else
       let n1 = min (length bs) maxwrite in
       kthen begin_trans
      (kbind (kget (\<lambda>s. files s f)) (\<lambda>ff.
       kthen (ilock (fip ff))
      (kbind (writei kdevsw (fip ff) (take n1 bs) (foff ff) (word_of_nat n1)) (\<lambda>r.
       kthen (kwhen (r > 0) (kmod (upd_file f (foff_update (\<lambda>x. x + word_of_int r)))))
      (kthen (iunlock (fip ff))
      (kthen commit_trans
      (if r < 0 then kret (length bs)
       else if r \<noteq> int n1 then kpanic ''short filewrite''
       else filewrite_loop f (drop n1 bs)))))))))"
  by pat_completeness auto
termination
  by (relation "measure (\<lambda>(f, bs). length bs)") auto

declare filewrite_loop.simps [simp del]

text \<open>\<open>rd\<close> reads the caller's bytes; it is run once the checks have passed.\<close>

definition filewrite :: "nat \<Rightarrow> (kst, u8 list) km \<Rightarrow> int \<Rightarrow> (kst, int) km" where
  "filewrite f rd n =
    kbind (kget (\<lambda>s. files s f)) (\<lambda>ff.
    if \<not> writable ff then kret (- 1)
    else
      (case ftype ff of
         FD_PIPE \<Rightarrow> kbind rd (write_pipe (fpipe ff) n)
       | FD_INODE \<Rightarrow>
           kbind rd (\<lambda>bs.
           kbind (filewrite_loop f bs) (\<lambda>left.
           kret (if left = 0 \<and> n \<ge> 0 then n else - 1)))
       | FD_NONE \<Rightarrow> kpanic ''filewrite''))"

section \<open>Pipes\<close>

definition pipealloc_bad :: "nat option \<Rightarrow> nat option \<Rightarrow> (kst, (nat \<times> nat) option) km" where
  "pipealloc_bad f0 f1 =
    kthen (case f0 of None \<Rightarrow> kret () | Some f \<Rightarrow> fileclose f)
   (kthen (case f1 of None \<Rightarrow> kret () | Some f \<Rightarrow> fileclose f)
          (kret None))"

text \<open>The data bytes of the page are what was in it.\<close>

definition pipealloc :: "(kst, (nat \<times> nat) option) km" where
  "pipealloc =
    kbind filealloc (\<lambda>f0.
    case f0 of
      None \<Rightarrow> pipealloc_bad None None
    | Some rfile \<Rightarrow>
        kbind filealloc (\<lambda>f1.
        case f1 of
          None \<Rightarrow> pipealloc_bad (Some rfile) None
        | Some wfile \<Rightarrow>
            kbind (on_mem kalloc) (\<lambda>p.
            if p = 0 then pipealloc_bad (Some rfile) (Some wfile)
            else
              kthen (kmod (\<lambda>s. s \<lparr> pipes := (pipes s)(p := pipe_init (pdata (pipes s p))) \<rparr>))
             (kthen (kmod (upd_file rfile (\<lambda>x. x \<lparr> ftype := FD_PIPE, readable := True, writable := False, fpipe := p \<rparr>)))
             (kthen (kmod (upd_file wfile (\<lambda>x. x \<lparr> ftype := FD_PIPE, readable := False, writable := True, fpipe := p \<rparr>)))
                    (kret (Some (rfile, wfile))))))))"

end
