(* ===== verification/Proc.thy ===== *)
theory Proc
  imports File
begin

text \<open>
  Processes (\<open>src/proc.c\<close>). Operations that hold only \<open>ptable.lock\<close> take and release it as the code does, so that the
  checks in \<open>sched\<close> are the real ones. A process that calls \<open>sched\<close> leaves the CPU to the scheduler with the lock
  held; the code after \<open>sched\<close> is a separate operation (\<open>resume\<close>).
\<close>

section \<open>Locking\<close>

definition on_ptlock :: "(lockst, 'b) km \<Rightarrow> (kst, 'b) km" where
  "on_ptlock = klift (\<lambda>s. \<lparr> lk = ptlock s, lcpu = kcpu s, me = 0 \<rparr>) (\<lambda>t s. s \<lparr> ptlock := lk t, kcpu := lcpu t \<rparr>)"

definition locked_pt :: "(kst, 'b) km \<Rightarrow> (kst, 'b) km" where
  "locked_pt m = kthen (on_ptlock acquire) (kbind m (\<lambda>x. kthen (on_ptlock release) (kret x)))"

section \<open>Sleep and wake-up\<close>

definition wakeup1 :: "chan \<Rightarrow> kst \<Rightarrow> kst" where
  "wakeup1 c s = s \<lparr> procs := (\<lambda>p. if p < NPROC \<and> pstate (procs s p) = SLEEPING \<and> pchan (procs s p) = Some c
                              then (procs s p) \<lparr> pstate := RUNNABLE \<rparr> else procs s p) \<rparr>"

definition pwakeup :: "chan \<Rightarrow> (kst, unit) km" where
  "pwakeup c = locked_pt (kmod (wakeup1 c))"

text \<open>The wake-ups that the lower layers have asked for.\<close>

definition deliver :: "(kst, unit) km" where
  "deliver = kbind (kget woken) (\<lambda>ws. kthen (kmod (woken_update (\<lambda>_. []))) (kfor ws pwakeup))"

text \<open>Back to the scheduler, which then continues with \<open>switchkvm\<close> and \<open>proc_set(0)\<close>.\<close>

definition sched :: "(kst, unit) km" where
  "sched =
    kbind (kget (\<lambda>s. (holding (ptlock s) 0, ncli (kcpu s), pstate (procs s (self s)), Spinlock.cpu.ie (kcpu s)))) (\<lambda>(h, n, st, i).
    if \<not> h then kpanic ''sched ptable.lock''
    else if n \<noteq> 1 then kpanic ''sched locks''
    else if st = RUNNING then kpanic ''sched running''
    else if i then kpanic ''sched interruptible''
    else kthen switchkvm (kmod (cur_update (\<lambda>_. None))))"

text \<open>The part of \<open>yield\<close> before \<open>sched\<close> returns.\<close>

definition yield :: "(kst, unit) km" where
  "yield = kthen (on_ptlock acquire) (kthen (set_myproc (pstate_update (\<lambda>_. RUNNABLE))) sched)"

text \<open>\<open>sleep\<close> after the caller's lock has been exchanged for \<open>ptable.lock\<close>.\<close>

definition psleep :: "chan \<Rightarrow> (kst, unit) km" where
  "psleep c =
    kbind (kget cur) (\<lambda>p.
    if p = None then kpanic ''sleep''
    else
      kthen (on_ptlock acquire)
     (kthen (set_myproc (\<lambda>p. p \<lparr> pstate := SLEEPING, pchan := Some c \<rparr>))
            sched))"

text \<open>What a process does when the scheduler has switched to it: it is inside \<open>sched\<close>, called by \<open>sleep\<close> or
  \<open>yield\<close>, or it is new and starts in \<open>forkret\<close>. All of them release the lock; \<open>sleep\<close> also clears \<open>chan\<close>.\<close>

definition resume :: "(kst, unit) km" where
  "resume = kthen (set_myproc (pchan_update (\<lambda>_. None))) (on_ptlock release)"

text \<open>The body of the scheduler's loop for one process, up to the switch.\<close>

definition schedule :: "nat \<Rightarrow> (kst, unit) km" where
  "schedule p =
    kthen (kmod (cur_update (\<lambda>_. Some p)))
   (kthen (switchuvm p)
          (kmod (upd_proc p (pstate_update (\<lambda>_. RUNNING)))))"

text \<open>Between two passes over the table.\<close>

definition sched_pass :: "(kst, unit) km" where
  "sched_pass =
    kthen (on_ptlock release)
   (kthen (klift kcpu (\<lambda>c s. s \<lparr> kcpu := c \<rparr>) srieiw_enable)
          (on_ptlock acquire))"

text \<open>\<open>forkret\<close>: \<open>first\<close> is its static variable.\<close>

definition forkret :: "bool \<Rightarrow> (kst, bool) km" where
  "forkret first = kthen (on_ptlock release) (kthen (kwhen first initlog) (kret False))"

section \<open>Creating processes\<close>

abbreviation (input) KSTACKSIZE :: u32 where "KSTACKSIZE \<equiv> 4096"

definition allocproc :: "(kst, nat option) km" where
  "allocproc =
    kbind (locked_pt (kbind (kget procs) (\<lambda>pt.
      case find (\<lambda>p. pstate (pt p) = UNUSED) [0..<NPROC] of
        None \<Rightarrow> kret None
      | Some p \<Rightarrow>
          kthen (kmod (\<lambda>s. (upd_proc p (\<lambda>x. x \<lparr> pstate := EMBRYO, pid := nextpid s \<rparr>) s) \<lparr> nextpid := nextpid s + 1 \<rparr>))
                (kret (Some p))))) (\<lambda>r.
    case r of
      None \<Rightarrow> kret None
    | Some p \<Rightarrow>
        kbind (on_mem kalloc) (\<lambda>k.
        kthen (kmod (upd_proc p (kstack_update (\<lambda>_. k))))
       (if k = 0 then kthen (kmod (upd_proc p (pstate_update (\<lambda>_. UNUSED)))) (kret None)
        else
          kbind (kget (\<lambda>s. (kforkret s, ktrapret s))) (\<lambda>ctx.
          let sp = k + KSTACKSIZE - 148 in
          kthen (kmod (upd_proc p (\<lambda>x. x \<lparr> tfp := sp, ctxp := sp - 96, pcontext := ctx \<rparr>)))
                (kret (Some p))))))"

text \<open>The bytes of a name of 16 characters after \<open>safestrcpy\<close> from the string \<open>src\<close>.\<close>

definition set_name :: "u8 list \<Rightarrow> u8 list \<Rightarrow> u8 list" where
  "set_name src old =
    (let c = cstrn (chars src) 15; w = c @ (if length c < 15 then [0, 0] else [0])
     in w @ drop (length w) old)"

definition zero_tf :: trapframe where
  "zero_tf = \<lparr> ppsr = 0, ppcr = 0, uspr = 0, rret = 0, tr0 = 0, tr1 = 0, tr2 = 0, tr3 = 0, tr4 = 0, tr5 = 0, tr6 = 0,
     trapno = 0, tregs = replicate 25 0 \<rparr>"

definition userinit :: "u8 list \<Rightarrow> (kst, unit) km" where
  "userinit initcode =
    kbind allocproc (\<lambda>r.
    kthen (kmod (initproc_update (\<lambda>_. r)))
   (case r of
      None \<Rightarrow> kstop Fault
    | Some p \<Rightarrow>
        kbind (kget kdata) (\<lambda>data.
        kbind (on_mem (setupkvm data)) (\<lambda>d.
        kthen (kmod (upd_proc p (pgdir_update (\<lambda>_. d))))
       (if d = 0 then kpanic ''userinit: out of memory?''
        else
          kthen (on_mem (inituvm d initcode))
         (kthen (kmod (upd_proc p (\<lambda>x. x \<lparr> psz := PGSIZE,
                   tf := zero_tf \<lparr> uspr := PGSIZE, ppsr := 0x4 OR 0x60 OR 0x2 OR 0x80, ppcr := 0 \<rparr>,
                   pname := set_name (bytes ''initcode'') (pname x) \<rparr>)))
         (kbind (namei kdevsw 0 (bytes ''/'')) (\<lambda>c.
          kmod (upd_proc p (\<lambda>x. x \<lparr> cwd := c, pstate := RUNNABLE \<rparr>))))))))))"

definition growproc :: "int \<Rightarrow> (kst, int) km" where
  "growproc n =
    kbind (myproc (\<lambda>p. (psz p, pgdir p))) (\<lambda>(sz, d).
    kbind (kget kend) (\<lambda>kend.
    kbind (if n > 0 then allocuvm d sz (sz + word_of_int n)
           else if n < 0 then on_mem (deallocuvm kend d sz (sz + word_of_int n))
           else kret sz) (\<lambda>sz'.
    if n \<noteq> 0 \<and> sz' = 0 then kret (- 1)
    else
      kthen (set_myproc (psz_update (\<lambda>_. sz')))
     (kbind (kget self) (\<lambda>p. kthen (switchuvm p) (kret 0))))))"

text \<open>The child's copies of the open files.\<close>

definition fork_files :: "nat \<Rightarrow> (kst, unit) km" where
  "fork_files np =
    kfor [0..<NOFILE] (\<lambda>i.
      kbind (myproc (\<lambda>p. ofile p i)) (\<lambda>f.
      case f of
        None \<Rightarrow> kret ()
      | Some f \<Rightarrow> kbind (filedup f) (\<lambda>f. kmod (upd_proc np (\<lambda>x. x \<lparr> ofile := (ofile x)(i := Some f) \<rparr>)))))"

definition fork :: "(kst, int) km" where
  "fork =
    kbind allocproc (\<lambda>r.
    case r of
      None \<Rightarrow> kret (- 1)
    | Some np \<Rightarrow>
        kbind (myproc id) (\<lambda>p.
        kbind (kget (\<lambda>s. (kend s, kdata s))) (\<lambda>(kend, kdata).
        kbind (on_mem (copyuvm kend kdata (pgdir p) (psz p))) (\<lambda>d.
        kthen (kmod (upd_proc np (pgdir_update (\<lambda>_. d))))
       (if d = 0 then
          kbind (kget (\<lambda>s. kstack (procs s np))) (\<lambda>k.
          kthen (on_mem (kfree kend k))
         (kthen (kmod (upd_proc np (\<lambda>x. x \<lparr> kstack := 0, pstate := UNUSED \<rparr>)))
                (kret (- 1))))
        else
          kthen (kmod (\<lambda>s. upd_proc np (\<lambda>x. x \<lparr> psz := psz p, parent := Some (self s), tf := (tf p) \<lparr> tr0 := 0 \<rparr> \<rparr>) s))
         (kthen (fork_files np)
         (kbind (idup (the (cwd p))) (\<lambda>c.
          kthen (kmod (upd_proc np (cwd_update (\<lambda>_. Some c))))
         (kbind (kget (\<lambda>s. pid (procs s np))) (\<lambda>pd.
          kthen (kmod (upd_proc np (\<lambda>x. x \<lparr> pstate := RUNNABLE, pname := set_name (pname p) (pname x) \<rparr>)))
                (kret pd))))))))))) "

section \<open>Exit and wait\<close>

definition close_files :: "(kst, unit) km" where
  "close_files =
    kfor [0..<NOFILE] (\<lambda>fd.
      kbind (myproc (\<lambda>p. ofile p fd)) (\<lambda>f.
      case f of
        None \<Rightarrow> kret ()
      | Some f \<Rightarrow> kthen (fileclose f) (set_myproc (\<lambda>p. p \<lparr> ofile := (ofile p)(fd := None) \<rparr>))))"

text \<open>Pass the children of a process to \<open>initproc\<close>, which is woken for those that are zombies.\<close>

definition reparent :: "nat \<Rightarrow> nat list \<Rightarrow> kst \<Rightarrow> kst" where
  "reparent m =
    fold (\<lambda>p s.
      if parent (procs s p) = Some m then
        let s1 = upd_proc p (parent_update (\<lambda>_. initproc s)) s in
        if pstate (procs s p) = ZOMBIE then (case initproc s of None \<Rightarrow> s1 | Some i \<Rightarrow> wakeup1 (Chan_proc i) s1) else s1
      else s)"

definition exit :: "(kst, unit) km" where
  "exit =
    kbind (kget (\<lambda>s. (cur s, initproc s))) (\<lambda>(c, i).
    if c = i then kpanic ''init exiting''
    else
      kthen close_files
     (kbind (myproc cwd) (\<lambda>d.
      kthen (iput (the d))
     (kthen (set_myproc (cwd_update (\<lambda>_. None)))
     (kthen (on_ptlock acquire)
     (kbind (myproc parent) (\<lambda>par.
      kthen (case par of None \<Rightarrow> kret () | Some q \<Rightarrow> kmod (wakeup1 (Chan_proc q)))
     (kthen (kmod (\<lambda>s. reparent (self s) [0..<NPROC] s))
     (kthen (set_myproc (pstate_update (\<lambda>_. ZOMBIE)))
            sched))))))))) "

definition reap :: "nat \<Rightarrow> (kst, int) km" where
  "reap p =
    kbind (kget (\<lambda>s. (procs s p, kend s))) (\<lambda>(x, kend).
    kthen (on_mem (kfree kend (kstack x)))
   (kthen (kmod (upd_proc p (kstack_update (\<lambda>_. 0))))
   (kthen (on_mem (freevm kend (pgdir x)))
   (kthen (kmod (upd_proc p (\<lambda>x. x \<lparr> pstate := UNUSED, pid := 0, parent := None,
              pname := (pname x)[0 := 0], killed := False \<rparr>)))
          (kret (pid x))))))"

text \<open>One turn of the loop of \<open>wait\<close>.\<close>

definition wait :: "(kst, int) km" where
  "wait =
    kbind (kget (\<lambda>s. (self s, procs s))) (\<lambda>(m, pt).
    case find (\<lambda>p. parent (pt p) = Some m \<and> pstate (pt p) = ZOMBIE) [0..<NPROC] of
      Some p \<Rightarrow> locked_pt (reap p)
    | None \<Rightarrow>
        if (\<forall>p \<in> set [0..<NPROC]. parent (pt p) \<noteq> Some m) \<or> killed (pt m) then locked_pt (kret (- 1))
        else kstop (Sleep (Chan_proc m)))"

definition kill :: "int \<Rightarrow> (kst, int) km" where
  "kill pd =
    locked_pt (kbind (kget procs) (\<lambda>pt.
      case find (\<lambda>p. pid (pt p) = pd) [0..<NPROC] of
        None \<Rightarrow> kret (- 1)
      | Some p \<Rightarrow>
          kthen (kmod (upd_proc p (\<lambda>x. x \<lparr> killed := True, pstate := (if pstate x = SLEEPING then RUNNABLE else pstate x) \<rparr>)))
                (kret 0)))"

section \<open>The process listing\<close>

fun state_name :: "procstate \<Rightarrow> string" where
  "state_name UNUSED = ''unused''"
| "state_name EMBRYO = ''embryo''"
| "state_name SLEEPING = ''sleep ''"
| "state_name RUNNABLE = ''runble''"
| "state_name RUNNING = ''run   ''"
| "state_name ZOMBIE = ''zombie''"

definition procdump :: "(nat \<Rightarrow> proc) \<Rightarrow> (console, unit) km" where
  "procdump pt =
    kfor [0..<NPROC] (\<lambda>i.
      let p = pt i in
      if pstate p = UNUSED then kret ()
      else
        kthen (cprintf (Some (bytes ''%d %s %s''))
                 [AWord (word_of_int (pid p)), AStr (Some (bytes (state_name (pstate p)))), AStr (Some (cstrn (chars (pname p)) 16))])
       (kthen (kwhen (pstate p = SLEEPING)
                 (kfor (takeWhile (\<lambda>pc. pc \<noteq> 0) getcallerpcs) (\<lambda>pc. cprintf (Some (bytes '' %p'')) [AWord pc])))
              (cprintf (Some [10]) [])))"

end
