(* ===== verification/Exec.thy ===== *)
theory Exec
  imports Proc
begin

text \<open>
  \<open>exec\<close> (\<open>src/exec.c\<close>) and the headers of executable files (\<open>src/elf.h\<close>). Strings are byte lists without the NUL.
\<close>

section \<open>Executable files\<close>

abbreviation (input) ELF_MAGIC :: u32 where "ELF_MAGIC \<equiv> 0x7F454C46"
abbreviation (input) ELF_PROG_LOAD :: u32 where "ELF_PROG_LOAD \<equiv> 1"

record elfhdr =
  magic :: u32
  entry :: u32
  phoff :: u32
  phnum :: u16

record proghdr =
  ptype :: u32
  poff :: u32
  vaddr :: u32
  filesz :: u32
  memsz :: u32

definition get_elfhdr :: "u8 list \<Rightarrow> elfhdr" where
  "get_elfhdr d = \<lparr> magic = get32 d 0, entry = get32 d 24, phoff = get32 d 28, phnum = get16 d 44 \<rparr>"

definition get_proghdr :: "u8 list \<Rightarrow> proghdr" where
  "get_proghdr d = \<lparr> ptype = get32 d 0, poff = get32 d 4, vaddr = get32 d 8, filesz = get32 d 16, memsz = get32 d 20 \<rparr>"

section \<open>exec\<close>

definition exec_bad :: "u32 \<Rightarrow> nat option \<Rightarrow> (kst, int) km" where
  "exec_bad pgd ip =
    kbind (kget kend) (\<lambda>kend.
    kthen (kwhen (pgd \<noteq> 0) (on_mem (freevm kend pgd)))
   (kthen (case ip of None \<Rightarrow> kret () | Some ip \<Rightarrow> iunlockput ip)
          (kret (- 1))))"

text \<open>Load the segments; \<open>n\<close> headers are left. The result is the size of the process, or \<open>None\<close> for \<open>goto bad\<close>.\<close>

primrec exec_load :: "u32 \<Rightarrow> nat \<Rightarrow> nat \<Rightarrow> u32 \<Rightarrow> u32 \<Rightarrow> (kst, u32 option) km" where
  "exec_load pgd ip 0 off sz = kret (Some sz)"
| "exec_load pgd ip (Suc n) off sz =
    kbind (readi kdevsw ip off 32) (\<lambda>(r, bs).
    if r \<noteq> 32 then kret None
    else
      (let ph = get_proghdr bs in
       if ptype ph \<noteq> ELF_PROG_LOAD then exec_load pgd ip n (off + 32) sz
       else if memsz ph < filesz ph then kret None
       else
         kbind (allocuvm pgd sz (vaddr ph + memsz ph)) (\<lambda>sz'.
         if sz' = 0 then kret None
         else
           kbind (loaduvm kdevsw pgd (vaddr ph) ip (poff ph) (filesz ph)) (\<lambda>r.
           if r < 0 then kret None else exec_load pgd ip n (off + 32) sz'))))"

text \<open>Push the argument strings; \<open>us\<close> are the addresses pushed so far.\<close>

fun exec_args :: "u32 \<Rightarrow> u8 list list \<Rightarrow> u32 \<Rightarrow> u32 list \<Rightarrow> (kst, (u32 \<times> u32 list) option) km" where
  "exec_args pgd [] st us = kret (Some (st, us))"
| "exec_args pgd (a # argv) st us =
    (if length us \<ge> MAXARG then kret None
     else
       (let st = (st - word_of_nat (length a + 1)) AND NOT 3 in
        kbind (on_mem (copyout pgd st (a @ [0]))) (\<lambda>r.
        if r < 0 then kret None else exec_args pgd argv st (us @ [st]))))"

fun basename :: "u8 list \<Rightarrow> u8 list \<Rightarrow> u8 list" where
  "basename l [] = l"
| "basename l (c # s) = basename (if c = asc CHR ''/'' then s else l) s"

definition exec_commit :: "u32 \<Rightarrow> u32 \<Rightarrow> u32 \<Rightarrow> u32 \<Rightarrow> u8 list \<Rightarrow> (kst, int) km" where
  "exec_commit pgd sz st en path =
    kthen (set_myproc (\<lambda>p. p \<lparr> pname := set_name (basename path path) (pname p) \<rparr>))
   (kbind (myproc pgdir) (\<lambda>oldpgdir.
    kthen (set_myproc (\<lambda>p. p \<lparr> psz := sz, pgdir := pgd, tf := (tf p) \<lparr> ppcr := en, uspr := st \<rparr> \<rparr>))
   (kbind (kget (\<lambda>s. (self s, kend s))) (\<lambda>(p, kend).
    kthen (switchuvm p)
   (kthen (on_mem (freevm kend oldpgdir))
          (kret 0))))))"

definition exec_stack :: "u32 \<Rightarrow> u32 \<Rightarrow> u32 \<Rightarrow> u8 list \<Rightarrow> u8 list list \<Rightarrow> (kst, int) km" where
  "exec_stack pgd sz en path argv =
    (let sz = PGROUNDUP sz in
     kbind (allocuvm pgd sz (sz + 2 * PGSIZE)) (\<lambda>sz.
     if sz = 0 then exec_bad pgd None
     else
       kthen (on_mem (clearpteu pgd (sz - 2 * PGSIZE)))
      (kbind (exec_args pgd argv sz []) (\<lambda>r.
       case r of
         None \<Rightarrow> exec_bad pgd None
       | Some (st, us) \<Rightarrow>
           (let argc = word_of_nat (length us); ustk = st - (argc + 1) * 4 in
            kthen (set_myproc (\<lambda>p. p \<lparr> tf := (tf p) \<lparr> rret := 0xffffffff, tr1 := argc, tr2 := ustk \<rparr> \<rparr>))
           (kbind (on_mem (copyout pgd ustk (concat (map be32 (us @ [0]))))) (\<lambda>r.
            if r < 0 then exec_bad pgd None
            else exec_commit pgd sz ustk en path)))))))"

text \<open>\<open>junk\<close> is what the stack variable \<open>elf\<close> holds before the file is read: the comparison of the number of bytes
  read with \<open>sizeof(elf)\<close> is unsigned, so that a failed read is not noticed.\<close>

definition exec :: "u8 list \<Rightarrow> u8 list \<Rightarrow> u8 list list \<Rightarrow> (kst, int) km" where
  "exec junk path argv =
    kbind (myproc cwd) (\<lambda>c.
    kbind (namei kdevsw (the c) path) (\<lambda>r.
    case r of
      None \<Rightarrow> kret (- 1)
    | Some ip \<Rightarrow>
        kthen (ilock ip)
       (kbind (readi kdevsw ip 0 52) (\<lambda>(r, bs).
        let elf = get_elfhdr (bs @ drop (length bs) junk) in
        if (word_of_int r :: u32) < 52 then exec_bad 0 (Some ip)
        else if magic elf \<noteq> ELF_MAGIC then exec_bad 0 (Some ip)
        else
          kbind (kget kdata) (\<lambda>data.
          kbind (on_mem (setupkvm data)) (\<lambda>pgd.
          if pgd = 0 then exec_bad 0 (Some ip)
          else
            kbind (exec_load pgd ip (unat (phnum elf)) (phoff elf) 0) (\<lambda>r.
            case r of
              None \<Rightarrow> exec_bad pgd (Some ip)
            | Some sz \<Rightarrow> kthen (iunlockput ip) (exec_stack pgd sz (entry elf) path argv)))))))) "

end
