(* ===== verification/Sysfile.thy ===== *)
theory Sysfile
  imports Exec
begin

text \<open>
  System call arguments (\<open>src/syscall.c\<close>) and the file system calls (\<open>src/sysfile.c\<close>). An argument function gives
  \<open>None\<close> where the code returns -1. Strings are fetched as byte lists.
\<close>

section \<open>Arguments\<close>

definition fetchint :: "u32 \<Rightarrow> (kst, u32 option) km" where
  "fetchint addr =
    kbind (myproc psz) (\<lambda>sz.
    if addr \<ge> sz \<or> addr + 4 > sz then kret None
    else kbind (ubytes addr 4) (\<lambda>bs. kret (Some (get32 bs 0))))"

text \<open>The scan for the NUL; \<open>k\<close> bytes are left before the end of the process.\<close>

primrec fetchstr_loop :: "u32 \<Rightarrow> nat \<Rightarrow> (kst, u8 list option) km" where
  "fetchstr_loop a 0 = kret None"
| "fetchstr_loop a (Suc k) =
    kbind (ubyte a) (\<lambda>b.
    if b = 0 then kret (Some [])
    else kbind (fetchstr_loop (a + 1) k) (\<lambda>r. kret (map_option ((#) b) r)))"

definition fetchstr :: "u32 \<Rightarrow> (kst, u8 list option) km" where
  "fetchstr addr =
    kbind (myproc psz) (\<lambda>sz.
    if addr \<ge> sz then kret None else fetchstr_loop addr (unat sz - unat addr))"

definition argint :: "nat \<Rightarrow> (kst, u32 option) km" where
  "argint n =
    kbind (myproc tf) (\<lambda>t.
    if n = 0 then kret (Some (tr1 t))
    else if n = 1 then kret (Some (tr2 t))
    else if n = 2 then kret (Some (tr3 t))
    else if n = 3 then kret (Some (tr4 t))
    else if n = 4 then kret (Some (tr5 t))
    else if n = 5 then kret (Some (tr6 t))
    else kthen (on_cons (cprintf (Some (bytes ''argint: fail'' @ [10])) [])) (kret None))"

definition argptr :: "nat \<Rightarrow> u32 \<Rightarrow> (kst, u32 option) km" where
  "argptr n sz =
    kbind (argint n) (\<lambda>r.
    case r of
      None \<Rightarrow> kret None
    | Some i \<Rightarrow>
        kbind (myproc psz) (\<lambda>psz.
        if i \<ge> psz \<or> i + sz > psz then kret None else kret (Some i)))"

definition argstr :: "nat \<Rightarrow> (kst, u8 list option) km" where
  "argstr n = kbind (argint n) (\<lambda>r. case r of None \<Rightarrow> kret None | Some addr \<Rightarrow> fetchstr addr)"

text \<open>\<open>if(arg(...) < 0) return -1\<close>.\<close>

definition karg :: "(kst, 'a option) km \<Rightarrow> ('a \<Rightarrow> (kst, int) km) \<Rightarrow> (kst, int) km" where
  "karg m f = kbind m (\<lambda>r. case r of None \<Rightarrow> kret (- 1) | Some x \<Rightarrow> f x)"

definition argfd :: "nat \<Rightarrow> (kst, (nat \<times> nat) option) km" where
  "argfd n =
    kbind (argint n) (\<lambda>r.
    case r of
      None \<Rightarrow> kret None
    | Some w \<Rightarrow>
        (let fd = sint w in
         if fd < 0 \<or> fd \<ge> int NOFILE then kret None
         else kbind (myproc (\<lambda>p. ofile p (nat fd))) (\<lambda>f. kret (map_option (\<lambda>f. (nat fd, f)) f))))"

definition fdalloc :: "nat \<Rightarrow> (kst, nat option) km" where
  "fdalloc f =
    kbind (myproc ofile) (\<lambda>ft.
    case find (\<lambda>fd. ft fd = None) [0..<NOFILE] of
      None \<Rightarrow> kret None
    | Some fd \<Rightarrow> kthen (set_myproc (\<lambda>p. p \<lparr> ofile := (ofile p)(fd := Some f) \<rparr>)) (kret (Some fd)))"

section \<open>Calls on descriptors\<close>

definition sys_dup :: "(kst, int) km" where
  "sys_dup =
    karg (argfd 0) (\<lambda>(_, f).
    karg (fdalloc f) (\<lambda>fd.
    kthen (filedup f) (kret (int fd))))"

definition sys_read :: "(kst, int) km" where
  "sys_read =
    karg (argfd 0) (\<lambda>(_, f).
    karg (argint 2) (\<lambda>n.
    karg (argptr 1 n) (\<lambda>p.
    kbind (fileread f (sint n)) (\<lambda>(r, bs).
    kthen (ustore p bs) (kret r)))))"

definition sys_write :: "(kst, int) km" where
  "sys_write =
    karg (argfd 0) (\<lambda>(_, f).
    karg (argint 2) (\<lambda>n.
    karg (argptr 1 n) (\<lambda>p.
    filewrite f (ubytes p (nat (sint n))) (sint n))))"

definition sys_close :: "(kst, int) km" where
  "sys_close =
    karg (argfd 0) (\<lambda>(fd, f).
    kthen (set_myproc (\<lambda>p. p \<lparr> ofile := (ofile p)(fd := None) \<rparr>))
   (kthen (fileclose f) (kret 0)))"

text \<open>The bytes of \<open>struct stat\<close>, with the two bytes of padding after each \<open>short\<close> left as they are.\<close>

definition stat_fields :: "stat \<Rightarrow> (nat \<times> u8 list) list" where
  "stat_fields st = [(0, be16 (st_type st)), (4, be32 (st_dev st)), (8, be32 (st_ino st)), (12, be16 (st_nlink st)), (16, be32 (st_size st))]"

definition sys_fstat :: "(kst, int) km" where
  "sys_fstat =
    karg (argfd 0) (\<lambda>(_, f).
    karg (argptr 1 20) (\<lambda>st.
    kbind (filestat f) (\<lambda>(r, x).
    kthen (case x of None \<Rightarrow> kret () | Some x \<Rightarrow> kfor (stat_fields x) (\<lambda>(o', bs). ustore (st + word_of_nat o') bs))
          (kret r))))"

section \<open>Calls on paths\<close>

text \<open>\<open>namei\<close> and \<open>nameiparent\<close> from the directory of the running process; the array \<open>name\<close> has some contents \<open>nm\<close>.\<close>

definition p_namei :: "u8 list \<Rightarrow> (kst, nat option) km" where
  "p_namei path = kbind (myproc cwd) (\<lambda>c. namei kdevsw (the c) path)"

definition p_nameiparent :: "u8 list \<Rightarrow> (kst, (nat \<times> u8 list) option) km" where
  "p_nameiparent path = kbind (myproc cwd) (\<lambda>c. nameiparent kdevsw (the c) path (replicate DIRSIZ 0))"

definition commit_return :: "int \<Rightarrow> (kst, int) km" where
  "commit_return r = kthen commit_trans (kret r)"

definition link_bad :: "nat \<Rightarrow> (kst, int) km" where
  "link_bad ip =
    kthen (ilock ip)
   (kthen (kmod (upd_di ip (di_nlink_update (\<lambda>n. n - 1))))
   (kthen (iupdate ip)
   (kthen (iunlockput ip)
          (commit_return (- 1)))))"

definition sys_link :: "(kst, int) km" where
  "sys_link =
    karg (argstr 0) (\<lambda>old.
    karg (argstr 1) (\<lambda>new.
    karg (p_namei old) (\<lambda>ip.
    kthen begin_trans
   (kthen (ilock ip)
   (kbind (kget (\<lambda>s. di_type (idi (inodes s ip)))) (\<lambda>type.
    if type = T_DIR then kthen (iunlockput ip) (commit_return (- 1))
    else
      kthen (kmod (upd_di ip (di_nlink_update (\<lambda>n. n + 1))))
     (kthen (iupdate ip)
     (kthen (iunlock ip)
     (kbind (p_nameiparent new) (\<lambda>r.
      case r of
        None \<Rightarrow> link_bad ip
      | Some (dp, name) \<Rightarrow>
          kthen (ilock dp)
         (kbind (kget (\<lambda>s. (idev (inodes s dp), idev (inodes s ip), inum (inodes s ip)))) (\<lambda>(ddev, dev, i).
          kbind (if ddev \<noteq> dev then kret (- 1) else dirlink kdevsw dp name i) (\<lambda>r.
          if r < 0 then kthen (iunlockput dp) (link_bad ip)
          else
            kthen (iunlockput dp)
           (kthen (iput ip)
                  (commit_return 0)))))))))))))))"

fun isdirempty_loop :: "nat \<Rightarrow> nat list \<Rightarrow> (kst, bool) km" where
  "isdirempty_loop dp [] = kret True"
| "isdirempty_loop dp (off # offs) =
    kbind (readi kdevsw dp (word_of_nat off) 16) (\<lambda>(r, bs).
    if r \<noteq> 16 then kpanic ''isdirempty: readi''
    else if de_inum (dirent_of bs) \<noteq> 0 then kret False
    else isdirempty_loop dp offs)"

definition isdirempty :: "nat \<Rightarrow> (kst, bool) km" where
  "isdirempty dp = kbind (kget (\<lambda>s. di_size (idi (inodes s dp)))) (\<lambda>sz. isdirempty_loop dp (drop 2 (dir_offsets sz)))"

definition unlink_bad :: "nat \<Rightarrow> (kst, int) km" where
  "unlink_bad dp = kthen (iunlockput dp) (commit_return (- 1))"

definition unlink_entry :: "nat \<Rightarrow> nat \<Rightarrow> nat \<Rightarrow> (kst, int) km" where
  "unlink_entry dp ip off =
    kbind (writei kdevsw dp (replicate 16 0) (word_of_nat off) 16) (\<lambda>r.
    if r \<noteq> 16 then kpanic ''unlink: writei''
    else
      kbind (kget (\<lambda>s. di_type (idi (inodes s ip)))) (\<lambda>type.
      kthen (kwhen (type = T_DIR) (kthen (kmod (upd_di dp (di_nlink_update (\<lambda>n. n - 1)))) (iupdate dp)))
     (kthen (iunlockput dp)
     (kthen (kmod (upd_di ip (di_nlink_update (\<lambda>n. n - 1))))
     (kthen (iupdate ip)
     (kthen (iunlockput ip)
            (commit_return 0)))))))"

definition sys_unlink :: "(kst, int) km" where
  "sys_unlink =
    karg (argstr 0) (\<lambda>path.
    karg (p_nameiparent path) (\<lambda>(dp, name).
    kthen begin_trans
   (kthen (ilock dp)
   (if namecmp name (bytes ''.'') = 0 \<or> namecmp name (bytes ''..'') = 0 then unlink_bad dp
    else
      kbind (dirlookup kdevsw dp name) (\<lambda>r.
      case r of
        None \<Rightarrow> unlink_bad dp
      | Some (ip, off) \<Rightarrow>
          kthen (ilock ip)
         (kbind (kget (\<lambda>s. idi (inodes s ip))) (\<lambda>di.
          if sint (di_nlink di) < 1 then kpanic ''unlink: nlink < 1''
          else
            kbind (if di_type di = T_DIR then isdirempty ip else kret True) (\<lambda>ok.
            if \<not> ok then kthen (iunlockput ip) (unlink_bad dp)
            else unlink_entry dp ip off)))))))) "

definition create_new :: "nat \<Rightarrow> u8 list \<Rightarrow> u16 \<Rightarrow> u16 \<Rightarrow> u16 \<Rightarrow> (kst, nat option) km" where
  "create_new dp name type major minor =
    kbind (kget (\<lambda>s. idev (inodes s dp))) (\<lambda>dev.
    kbind (ialloc dev type) (\<lambda>ip.
    kthen (ilock ip)
   (kthen (kmod (upd_di ip (\<lambda>di. di \<lparr> di_major := major, di_minor := minor, di_nlink := 1 \<rparr>)))
   (kthen (iupdate ip)
   (kbind (kget (\<lambda>s. (inum (inodes s ip), inum (inodes s dp)))) (\<lambda>(i, di).
    kthen (if type = T_DIR then
             kthen (kmod (upd_di dp (di_nlink_update (\<lambda>n. n + 1))))
            (kthen (iupdate dp)
            (kbind (dirlink kdevsw ip (bytes ''.'') i) (\<lambda>r.
             if r < 0 then kpanic ''create dots''
             else
               kbind (dirlink kdevsw ip (bytes ''..'') di) (\<lambda>r.
               if r < 0 then kpanic ''create dots'' else kret ()))))
           else kret ())
   (kbind (dirlink kdevsw dp name i) (\<lambda>r.
    if r < 0 then kpanic ''create: dirlink''
    else kthen (iunlockput dp) (kret (Some ip))))))))))"

definition create :: "u8 list \<Rightarrow> u16 \<Rightarrow> u16 \<Rightarrow> u16 \<Rightarrow> (kst, nat option) km" where
  "create path type major minor =
    kbind (p_nameiparent path) (\<lambda>r.
    case r of
      None \<Rightarrow> kret None
    | Some (dp, name) \<Rightarrow>
        kthen (ilock dp)
       (kbind (dirlookup kdevsw dp name) (\<lambda>r.
        case r of
          Some (ip, _) \<Rightarrow>
            kthen (iunlockput dp)
           (kthen (ilock ip)
           (kbind (kget (\<lambda>s. di_type (idi (inodes s ip)))) (\<lambda>t.
            if type = T_FILE \<and> t = T_FILE then kret (Some ip)
            else kthen (iunlockput ip) (kret None))))
        | None \<Rightarrow> create_new dp name type major minor)))"

abbreviation (input) O_WRONLY :: u32 where "O_WRONLY \<equiv> 1"
abbreviation (input) O_RDWR :: u32 where "O_RDWR \<equiv> 2"
abbreviation (input) O_CREATE :: u32 where "O_CREATE \<equiv> 0x200"

definition open_inode :: "u8 list \<Rightarrow> u32 \<Rightarrow> (kst, nat option) km" where
  "open_inode path omode =
    (if omode AND O_CREATE \<noteq> 0 then
       kthen begin_trans (kbind (create path T_FILE 0 0) (\<lambda>r. kthen commit_trans (kret r)))
     else
       kbind (p_namei path) (\<lambda>r.
       case r of
         None \<Rightarrow> kret None
       | Some ip \<Rightarrow>
           kthen (ilock ip)
          (kbind (kget (\<lambda>s. di_type (idi (inodes s ip)))) (\<lambda>t.
           if t = T_DIR \<and> omode \<noteq> 0 then kthen (iunlockput ip) (kret None) else kret (Some ip)))))"

definition sys_open :: "(kst, int) km" where
  "sys_open =
    karg (argstr 0) (\<lambda>path.
    karg (argint 1) (\<lambda>omode.
    karg (open_inode path omode) (\<lambda>ip.
    kbind filealloc (\<lambda>r.
    case r of
      None \<Rightarrow> kthen (iunlockput ip) (kret (- 1))
    | Some f \<Rightarrow>
        kbind (fdalloc f) (\<lambda>r.
        case r of
          None \<Rightarrow> kthen (fileclose f) (kthen (iunlockput ip) (kret (- 1)))
        | Some fd \<Rightarrow>
            kthen (iunlock ip)
           (kthen (kmod (upd_file f (\<lambda>x. x \<lparr> ftype := FD_INODE, readable := (omode AND O_WRONLY = 0),
                      writable := (omode AND O_WRONLY \<noteq> 0 \<or> omode AND O_RDWR \<noteq> 0), fip := ip, foff := 0 \<rparr>)))
                  (kret (int fd))))))))"

definition make_node :: "u8 list \<Rightarrow> u16 \<Rightarrow> u16 \<Rightarrow> u16 \<Rightarrow> (kst, int) km" where
  "make_node path type major minor =
    kbind (create path type major minor) (\<lambda>r.
    case r of
      None \<Rightarrow> commit_return (- 1)
    | Some ip \<Rightarrow> kthen (iunlockput ip) (commit_return 0))"

definition sys_mkdir :: "(kst, int) km" where
  "sys_mkdir =
    kthen begin_trans
   (kbind (argstr 0) (\<lambda>r.
    case r of None \<Rightarrow> commit_return (- 1) | Some path \<Rightarrow> make_node path T_DIR 0 0))"

definition sys_mknod :: "(kst, int) km" where
  "sys_mknod =
    kthen begin_trans
   (kbind (argstr 0) (\<lambda>r.
    case r of
      None \<Rightarrow> commit_return (- 1)
    | Some path \<Rightarrow>
        kbind (argint 1) (\<lambda>r1.
        case r1 of
          None \<Rightarrow> commit_return (- 1)
        | Some major \<Rightarrow>
            kbind (argint 2) (\<lambda>r2.
            case r2 of
              None \<Rightarrow> commit_return (- 1)
            | Some minor \<Rightarrow> make_node path T_DEV (ucast major) (ucast minor)))))"

definition sys_chdir :: "(kst, int) km" where
  "sys_chdir =
    karg (argstr 0) (\<lambda>path.
    karg (p_namei path) (\<lambda>ip.
    kthen (ilock ip)
   (kbind (kget (\<lambda>s. di_type (idi (inodes s ip)))) (\<lambda>t.
    if t \<noteq> T_DIR then kthen (iunlockput ip) (kret (- 1))
    else
      kthen (iunlock ip)
     (kbind (myproc cwd) (\<lambda>c.
      kthen (iput (the c))
     (kthen (set_myproc (cwd_update (\<lambda>_. Some ip)))
            (kret 0))))))))"

text \<open>The loop of \<open>sys_exec\<close> over the argument pointers, \<open>k\<close> slots of \<open>argv\<close> are left.\<close>

primrec exec_argv :: "u32 \<Rightarrow> nat \<Rightarrow> (kst, u8 list list option) km" where
  "exec_argv u 0 = kret None"
| "exec_argv u (Suc k) =
    kbind (fetchint u) (\<lambda>r.
    case r of
      None \<Rightarrow> kret None
    | Some uarg \<Rightarrow>
        if uarg = 0 then kret (Some [])
        else
          kbind (fetchstr uarg) (\<lambda>r.
          case r of
            None \<Rightarrow> kret None
          | Some a \<Rightarrow> kbind (exec_argv (u + 4) k) (\<lambda>r. kret (map_option ((#) a) r))))"

definition sys_exec :: "u8 list \<Rightarrow> (kst, int) km" where
  "sys_exec junk =
    karg (argstr 0) (\<lambda>path.
    karg (argint 1) (\<lambda>uargv.
    karg (exec_argv uargv MAXARG) (\<lambda>argv.
    exec junk path argv)))"

definition sys_pipe :: "(kst, int) km" where
  "sys_pipe =
    karg (argptr 0 8) (\<lambda>fd.
    karg pipealloc (\<lambda>(rfile, wfile).
    kbind (fdalloc rfile) (\<lambda>r.
    case r of
      None \<Rightarrow> kthen (fileclose rfile) (kthen (fileclose wfile) (kret (- 1)))
    | Some fd0 \<Rightarrow>
        kbind (fdalloc wfile) (\<lambda>r.
        case r of
          None \<Rightarrow>
            kthen (set_myproc (\<lambda>p. p \<lparr> ofile := (ofile p)(fd0 := None) \<rparr>))
           (kthen (fileclose rfile) (kthen (fileclose wfile) (kret (- 1))))
        | Some fd1 \<Rightarrow>
            kthen (ustore fd (be32 (word_of_nat fd0)))
           (kthen (ustore (fd + 4) (be32 (word_of_nat fd1)))
                  (kret 0))))))"

end
