(* ===== verification/Trap.thy ===== *)
theory Trap
  imports Sysfile
begin

text \<open>
  The process system calls (\<open>src/sysproc.c\<close>), the dispatch of system calls (\<open>syscall\<close>) and of traps
  (\<open>src/trap.c\<close>), and the interrupt vector table.
\<close>

section \<open>Process calls\<close>

definition sys_fork :: "(kst, int) km" where
  "sys_fork = fork"

definition sys_exit :: "(kst, int) km" where
  "sys_exit = kthen exit (kret 0)"

definition sys_wait :: "(kst, int) km" where
  "sys_wait = wait"

definition sys_kill :: "(kst, int) km" where
  "sys_kill = karg (argint 0) (\<lambda>pid. kill (sint pid))"

definition sys_getpid :: "(kst, int) km" where
  "sys_getpid = myproc pid"

definition sys_sbrk :: "(kst, int) km" where
  "sys_sbrk =
    karg (argint 0) (\<lambda>n.
    kbind (myproc psz) (\<lambda>addr.
    kbind (growproc (sint n)) (\<lambda>r.
    if r < 0 then kret (- 1) else kret (sint addr))))"

text \<open>One turn of the loop of \<open>sys_sleep\<close> that started at \<open>ticks0\<close>. The comparison is unsigned.\<close>

definition sleep_turn :: "u32 \<Rightarrow> u32 \<Rightarrow> (kst, int) km" where
  "sleep_turn ticks0 n =
    kbind (kget ticks) (\<lambda>t.
    kbind (myproc killed) (\<lambda>k.
    if t - ticks0 < n then (if k then kret (- 1) else kstop (Sleep Chan_ticks)) else kret 0))"

definition sys_sleep :: "(kst, int) km" where
  "sys_sleep = karg (argint 0) (\<lambda>n. kbind (kget ticks) (\<lambda>ticks0. sleep_turn ticks0 n))"

definition sys_uptime :: "(kst, int) km" where
  "sys_uptime = kget (\<lambda>s. sint (ticks s))"

section \<open>Dispatch\<close>

definition syscalls :: "u8 list \<Rightarrow> int \<Rightarrow> (kst, int) km option" where
  "syscalls junk num =
    (if num = 1 then Some sys_fork
     else if num = 2 then Some sys_exit
     else if num = 3 then Some sys_wait
     else if num = 4 then Some sys_pipe
     else if num = 5 then Some sys_read
     else if num = 6 then Some sys_kill
     else if num = 7 then Some (sys_exec junk)
     else if num = 8 then Some sys_fstat
     else if num = 9 then Some sys_chdir
     else if num = 10 then Some sys_dup
     else if num = 11 then Some sys_getpid
     else if num = 12 then Some sys_sbrk
     else if num = 13 then Some sys_sleep
     else if num = 14 then Some sys_uptime
     else if num = 15 then Some sys_open
     else if num = 16 then Some sys_write
     else if num = 17 then Some sys_mknod
     else if num = 18 then Some sys_unlink
     else if num = 19 then Some sys_link
     else if num = 20 then Some sys_mkdir
     else if num = 21 then Some sys_close
     else None)"

text \<open>\<open>proc()\<close> is read before and after the call; \<open>exit\<close> does not come back.\<close>

definition syscall :: "u8 list \<Rightarrow> (kst, unit) km" where
  "syscall junk =
    kbind (myproc id) (\<lambda>p.
    let num = sint (tr0 (tf p)) in
    case syscalls junk num of
      Some f \<Rightarrow>
        kbind f (\<lambda>r.
        kbind (kget cur) (\<lambda>c.
        kwhen (c \<noteq> None) (set_myproc (\<lambda>p. p \<lparr> tf := (tf p) \<lparr> tr0 := word_of_int r \<rparr> \<rparr>))))
    | None \<Rightarrow>
        kthen (on_cons (cprintf (Some (bytes ''%d %s: unknown sys call %d'' @ [10]))
                 [AWord (word_of_int (pid p)), AStr (Some (cstrn (chars (pname p)) 16)), AWord (word_of_int num)]))
              (set_myproc (\<lambda>p. p \<lparr> tf := (tf p) \<lparr> tr0 := - 1 \<rparr> \<rparr>)))"

section \<open>Traps\<close>

abbreviation (input) T_SYSCALL :: u32 where "T_SYSCALL \<equiv> 64"
abbreviation (input) IRQ_KMC :: u32 where "IRQ_KMC \<equiv> 5"
abbreviation (input) IRQ_TIMER :: u32 where "IRQ_TIMER \<equiv> 36"
abbreviation (input) IRQ_DPSLS :: u32 where "IRQ_DPSLS \<equiv> 37"
abbreviation (input) PSR_CMOD_USER :: u32 where "PSR_CMOD_USER \<equiv> 0x60"

definition trap_syscall :: "u8 list \<Rightarrow> trapframe \<Rightarrow> (kst, unit) km" where
  "trap_syscall junk t =
    kbind (myproc killed) (\<lambda>k.
    if k then exit
    else
      kthen (set_myproc (tf_update (\<lambda>_. t)))
     (kthen (syscall junk)
     (kbind (kget cur) (\<lambda>c.
      if c = None then kret ()
      else kbind (myproc killed) (\<lambda>k. kwhen k exit)))))"

text \<open>\<open>rxds\<close> are the words that the serial port delivers, \<open>fi0r\<close> is the fault register, \<open>cpuid\<close> the number of this CPU.
  The keyboard driver never has a character.\<close>

definition trap_irq :: "u32 \<Rightarrow> u32 list \<Rightarrow> u32 \<Rightarrow> trapframe \<Rightarrow> (kst, unit) km" where
  "trap_irq cpuid rxds fi0r t =
    (if trapno t = IRQ_TIMER then
       kwhen (cpuid = 0) (kthen (kmod (ticks_update (\<lambda>x. x + 1))) (pwakeup Chan_ticks))
     else if trapno t = IRQ_KMC then
       kbind (kget procs) (\<lambda>pt. on_cons (consoleintr (procdump pt) [- 1]))
     else if trapno t = IRQ_DPSLS then
       kbind (kget procs) (\<lambda>pt. on_cons (uartintr (procdump pt) rxds))
     else
       kbind (kget cur) (\<lambda>c.
       if c = None \<or> ppsr t AND PSR_CMOD_USER = 0 then
         kthen (on_cons (cprintf (Some (bytes ''unexpected trap %d from cpu %d pc %x (fi0r=0x%x)'' @ [10]))
                  [AWord (trapno t), AWord cpuid, AWord (ppcr t), AWord fi0r]))
               (kpanic ''trap'')
       else
         kbind (myproc id) (\<lambda>p.
         kthen (on_cons (cprintf (Some (bytes ''pid %d %s: trap %d on cpu %d pc 0x%x addr 0x%x--kill proc'' @ [10]))
                  [AWord (word_of_int (pid p)), AStr (Some (cstrn (chars (pname p)) 16)), AWord (trapno t), AWord cpuid,
                   AWord (ppcr t), AWord fi0r]))
               (set_myproc (killed_update (\<lambda>_. True))))))"

text \<open>The exit checks around the yield. \<open>trap_end\<close> is what follows once the process runs again.\<close>

definition trap_end :: "trapframe \<Rightarrow> (kst, unit) km" where
  "trap_end t =
    kbind (kget cur) (\<lambda>c.
    if c = None then kret ()
    else kbind (myproc killed) (\<lambda>k. kwhen (k \<and> ppsr t AND PSR_CMOD_USER \<noteq> 0) exit))"

definition trap :: "u8 list \<Rightarrow> u32 \<Rightarrow> u32 list \<Rightarrow> u32 \<Rightarrow> trapframe \<Rightarrow> (kst, unit) km" where
  "trap junk cpuid rxds fi0r t =
    (if trapno t = T_SYSCALL then trap_syscall junk t
     else
       kthen (trap_irq cpuid rxds fi0r t)
      (kbind (kget cur) (\<lambda>c.
       if c = None then kret ()
       else
         kbind (myproc id) (\<lambda>p.
         if killed p \<and> ppsr t AND PSR_CMOD_USER \<noteq> 0 then exit
         else if pstate p = RUNNING \<and> trapno t = IRQ_TIMER then yield
         else trap_end t))))"

section \<open>The vector table\<close>

record idt_entry =
  iflags :: u32
  handler :: u32

definition SETINTVEC :: "nat \<Rightarrow> u32 \<Rightarrow> bool \<Rightarrow> bool \<Rightarrow> idt_entry list \<Rightarrow> idt_entry list" where
  "SETINTVEC irq f v e t = t[irq := \<lparr> iflags = (if v then 1 else 0) OR (if e then 2 else 0), handler = f \<rparr>]"

definition tvinit :: "u32 list \<Rightarrow> idt_entry list \<Rightarrow> idt_entry list" where
  "tvinit vectors idt =
    (let t1 = fold (\<lambda>i t. SETINTVEC i (vectors ! i) True (iflags (t ! i) AND 2 \<noteq> 0) t) [0..<38] idt;
         t2 = fold (\<lambda>i t. SETINTVEC i (vectors ! i) True True t) [38..<64] t1
     in SETINTVEC 64 (vectors ! 64) True True t2)"

definition idtenable :: "nat \<Rightarrow> idt_entry list \<Rightarrow> idt_entry list" where
  "idtenable irq t = t[irq := (t ! irq) \<lparr> iflags := iflags (t ! irq) OR 2 \<rparr>]"

end
