(* ===== verification/Sh.thy ===== *)
theory Sh
  imports Xv6_Prelude "HOL-Library.Sublist"
begin

text \<open>
  The command parser of the shell (\<open>src/sh.c\<close>). A pointer into the command line is the rest of the line from
  there, up to the NUL. A word is the pair of pointers \<open>q\<close>, \<open>eq\<close> to its start and behind its end. The four parsing
  functions that call each other have a bound on the depth of calls, which \<open>parsecmd\<close> chooses large
  enough (property on termination below).
\<close>

section \<open>Commands\<close>

type_synonym ptr = "u8 list"

datatype 'w cmd =
    EXEC "'w list"
  | REDIR "'w cmd" 'w int int
  | PIPE "'w cmd" "'w cmd"
  | LIST "'w cmd" "'w cmd"
  | BACK "'w cmd"

type_synonym pcmd = "(ptr \<times> ptr) cmd"

abbreviation (input) MAXARGS :: nat where "MAXARGS \<equiv> 10"

section \<open>Tokens\<close>

definition ws :: "u8 \<Rightarrow> bool" where
  "ws c \<longleftrightarrow> c \<in> set [32, 9, 13, 10, 11]"

definition symbol :: "u8 \<Rightarrow> bool" where
  "symbol c \<longleftrightarrow> c \<in> set (bytes ''<|>&;()'')"

definition ordinary :: "u8 \<Rightarrow> bool" where
  "ordinary c \<longleftrightarrow> \<not> ws c \<and> \<not> symbol c"

text \<open>The token that starts at \<open>s\<close>, and the pointer behind it.\<close>

fun scantok :: "ptr \<Rightarrow> u8 \<times> ptr" where
  "scantok [] = (0, [])"
| "scantok (c # r) =
    (if c \<in> set (bytes ''|();&<'') then (c, r)
     else if c = asc CHR ''>'' then
       (if r \<noteq> [] \<and> hd r = asc CHR ''>'' then (asc CHR ''+'', tl r) else (c, r))
     else (asc CHR ''a'', dropWhile ordinary (c # r)))"

text \<open>The token, the pointers \<open>q\<close> and \<open>eq\<close>, and the new value of \<open>*ps\<close>.\<close>

definition gettoken :: "ptr \<Rightarrow> u8 \<times> ptr \<times> ptr \<times> ptr" where
  "gettoken s = (let q = dropWhile ws s; (ret, e) = scantok q in (ret, q, e, dropWhile ws e))"

definition peek :: "string \<Rightarrow> ptr \<Rightarrow> bool \<times> ptr" where
  "peek toks s = (let s = dropWhile ws s in (s \<noteq> [] \<and> hd s \<in> set (bytes toks), s))"

abbreviation skiptoken :: "ptr \<Rightarrow> ptr" where
  "skiptoken s \<equiv> snd (snd (snd (gettoken s)))"

lemma scantok_shorter:
  assumes "\<not> ws c"
  shows "length (snd (scantok (c # r))) < length (c # r)"
  using assms length_dropWhile_le [of ordinary r]
  by (cases r) (auto simp: ordinary_def symbol_def le_imp_less_Suc)

lemma gettoken_parts:
  assumes "gettoken s = (t, q, e, s')"
  shows "q = dropWhile ws s" "(t, e) = scantok q" "s' = dropWhile ws e"
  using assms by (auto simp: gettoken_def Let_def split: prod.splits)

lemma gettoken_length:
  assumes "gettoken s = (t, q, e, s')"
  shows "length s' \<le> length s" "t \<noteq> 0 \<Longrightarrow> length s' < length s"
proof -
  note g = gettoken_parts [OF assms]
  have "length q \<le> length s" "length s' \<le> length e" unfolding g(1,3) by (rule length_dropWhile_le)+
  moreover have "length e < length q \<or> t = 0 \<and> e = q"
  proof (cases q)
    case (Cons c r)
    then have "\<not> ws c" using hd_dropWhile [of ws s] g(1) by (metis list.distinct(1) list.sel(1))
    then show ?thesis using scantok_shorter [of c r] g(2) Cons by (metis snd_conv)
  qed (use g(2) in simp)
  ultimately show "length s' \<le> length s" "t \<noteq> 0 \<Longrightarrow> length s' < length s" by auto
qed

lemma peek_length: "peek toks s = (b, s') \<Longrightarrow> length s' \<le> length s"
  by (auto simp: peek_def Let_def length_dropWhile_le)

lemma peek_suffix: "(b, s') = peek toks s \<Longrightarrow> suffix s' s"
  by (simp add: peek_def Let_def suffix_dropWhile)

lemma scantok_suffix: "suffix (snd (scantok s)) s"
  by (cases s rule: scantok.cases) (auto simp: suffix_Cons suffix_dropWhile suffix_tl)

lemma gettoken_suffix:
  assumes "(t, q, e, s') = gettoken s"
  shows "suffix q s" "suffix s' s"
proof -
  note g = gettoken_parts [OF assms [symmetric]]
  show "suffix q s" unfolding g(1) by (rule suffix_dropWhile)
  moreover have "suffix e q" using scantok_suffix [of q] g(2) [symmetric] by simp
  ultimately show "suffix s' s"
    unfolding g(3) by (meson suffix_dropWhile suffix_order.trans)
qed

lemma skiptoken_suffix: "suffix (skiptoken s) s"
  using gettoken_suffix(2) by (cases "gettoken s") auto

lemma skiptoken_length: "length (skiptoken s) \<le> length s"
  using gettoken_length(1) by (cases "gettoken s") simp

lemma scantok_nonzero: "0 \<noteq> c \<Longrightarrow> fst (scantok (c # r)) \<noteq> 0"
  by auto

lemma peek_skip:
  assumes "(True, s') = peek toks s" "0 \<notin> set (bytes toks)"
  shows "length (skiptoken s') < length s"
proof -
  obtain c r where s': "s' = c # r" "c \<in> set (bytes toks)" "s' = dropWhile ws s"
    using assms(1) unfolding peek_def Let_def prod.inject by (metis list.collapse)
  have "\<not> ws c" using hd_dropWhile [of ws s] s' by (metis list.distinct(1) list.sel(1))
  then have d: "dropWhile ws s' = s'" using s'(1) by simp
  obtain t q e u where g: "gettoken s' = (t, q, e, u)" by (cases "gettoken s'") auto
  have "0 \<noteq> c" using s'(2) assms(2) by auto
  from scantok_nonzero [OF this, of r] have "t \<noteq> 0"
    using gettoken_parts(1,2) [OF g] d s'(1) by (metis fst_conv)
  from gettoken_length(2) [OF g this] have "length (skiptoken s') < length s'" using g by simp
  also have "\<dots> \<le> length s" unfolding s'(3) by (rule length_dropWhile_le)
  finally show ?thesis .
qed

lemma redirection_shorter:
  assumes "(True, s1) = peek ''<>'' s" "(tok, q, e, s2) = gettoken s1" "(t, q', e', s3) = gettoken s2"
  shows "length s3 < length s"
proof -
  have "length s2 < length s" using peek_skip [OF assms(1)] assms(2) [symmetric] by simp
  moreover have "length s3 \<le> length s2" by (rule gettoken_length(1) [OF assms(3) [symmetric]])
  ultimately show ?thesis by simp
qed

section \<open>The parser\<close>

text \<open>Out of calls, a call of \<open>panic\<close>, or a value with the new \<open>*ps\<close>.\<close>

datatype 'a pr = Fuel | Perr string | Pok 'a ptr

definition pbind :: "'a pr \<Rightarrow> ('a \<Rightarrow> ptr \<Rightarrow> 'b pr) \<Rightarrow> 'b pr" where
  "pbind m f = (case m of Fuel \<Rightarrow> Fuel | Perr e \<Rightarrow> Perr e | Pok x s \<Rightarrow> f x s)"

function parseredirs :: "pcmd \<Rightarrow> ptr \<Rightarrow> pcmd pr" where
  "parseredirs cmd s =
    (let (more, s) = peek ''<>'' s in
     if \<not> more then Pok cmd s
     else
       let (tok, _, _, s) = gettoken s;
           (t, q, e, s) = gettoken s in
       if t \<noteq> asc CHR ''a'' then Perr ''missing file for redirection''
       else if tok = asc CHR ''<'' then parseredirs (REDIR cmd (q, e) 0 0) s
       else parseredirs (REDIR cmd (q, e) 0x201 1) s)"
  by pat_completeness auto
termination
  by (relation "measure (\<lambda>(cmd, s). length s)") (auto intro: redirection_shorter)

text \<open>The arguments of the command that is parsed: the \<open>execcmd\<close> below its redirections is filled in
  through the pointer \<open>cmd\<close>.\<close>

fun add_arg :: "'w cmd \<Rightarrow> 'w \<Rightarrow> 'w cmd" where
  "add_arg (EXEC as) a = EXEC (as @ [a])"
| "add_arg (REDIR c w m fd) a = REDIR (add_arg c a) w m fd"
| "add_arg c a = c"

function parseargs :: "nat \<Rightarrow> pcmd \<Rightarrow> ptr \<Rightarrow> pcmd pr" where
  "parseargs argc ret s =
    (let (stop, s) = peek ''|)&;'' s in
     if stop then Pok ret s
     else
       let (tok, q, e, s) = gettoken s in
       if tok = 0 then Pok ret s
       else if tok \<noteq> asc CHR ''a'' then Perr ''syntax''
       else if Suc argc \<ge> MAXARGS then Perr ''too many args''
       else pbind (parseredirs (add_arg ret (q, e)) s) (parseargs (Suc argc)))"
  by pat_completeness auto
termination
  by (relation "measure (\<lambda>(argc, ret, s). MAXARGS - argc)") auto

function parseback :: "pcmd \<Rightarrow> ptr \<Rightarrow> pcmd pr" where
  "parseback cmd s =
    (let (more, s) = peek ''&'' s in
     if more then parseback (BACK cmd) (skiptoken s) else Pok cmd s)"
  by pat_completeness auto
termination
  by (relation "measure (\<lambda>(cmd, s). length s)") (auto intro: peek_skip)

fun parseline :: "nat \<Rightarrow> ptr \<Rightarrow> pcmd pr"
  and parsepipe :: "nat \<Rightarrow> ptr \<Rightarrow> pcmd pr"
  and parseexec :: "nat \<Rightarrow> ptr \<Rightarrow> pcmd pr"
  and parseblock :: "nat \<Rightarrow> ptr \<Rightarrow> pcmd pr" where
  "parseline 0 s = Fuel"
| "parseline (Suc n) s =
    pbind (parsepipe n s) (\<lambda>cmd s.
    pbind (parseback cmd s) (\<lambda>cmd s.
      let (more, s) = peek '';'' s in
      if more then pbind (parseline n (skiptoken s)) (\<lambda>r. Pok (LIST cmd r)) else Pok cmd s))"
| "parsepipe 0 s = Fuel"
| "parsepipe (Suc n) s =
    pbind (parseexec n s) (\<lambda>cmd s.
      let (more, s) = peek ''|'' s in
      if more then pbind (parsepipe n (skiptoken s)) (\<lambda>r. Pok (PIPE cmd r)) else Pok cmd s)"
| "parseexec 0 s = Fuel"
| "parseexec (Suc n) s =
    (let (block, s) = peek ''('' s in
     if block then parseblock n s else pbind (parseredirs (EXEC []) s) (parseargs 0))"
| "parseblock 0 s = Fuel"
| "parseblock (Suc n) s =
    (let (opened, s) = peek ''('' s in
     if \<not> opened then Perr ''parseblock''
     else pbind (parseline n (skiptoken s)) (\<lambda>cmd s.
       let (closed, s) = peek '')'' s in
       if \<not> closed then Perr ''syntax - missing )'' else parseredirs cmd (skiptoken s)))"

text \<open>\<open>nulterminate\<close> writes into the line, of which \<open>len\<close> bytes precede the NUL: a pointer with
  \<open>k\<close> bytes left is the index \<open>len - k\<close>.\<close>

definition ptr_ix :: "nat \<Rightarrow> ptr \<Rightarrow> nat" where
  "ptr_ix len p = len - length p"

fun nulterminate :: "nat \<Rightarrow> pcmd \<Rightarrow> u8 list \<Rightarrow> u8 list" where
  "nulterminate len (EXEC as) buf = fold (\<lambda>(q, e) buf. buf[ptr_ix len e := 0]) as buf"
| "nulterminate len (REDIR c (q, e) m fd) buf = (nulterminate len c buf)[ptr_ix len e := 0]"
| "nulterminate len (PIPE l r) buf = nulterminate len r (nulterminate len l buf)"
| "nulterminate len (LIST l r) buf = nulterminate len r (nulterminate len l buf)"
| "nulterminate len (BACK c) buf = nulterminate len c buf"

text \<open>The tree, and the buffer with its words terminated. The depth of calls is bounded by four for each
  byte of the line.\<close>

definition parsecmd :: "u8 list \<Rightarrow> (pcmd \<times> u8 list) pr" where
  "parsecmd buf =
    (let s = takeWhile (\<lambda>c. c \<noteq> 0) buf in
     pbind (parseline (4 * length s + 4) s) (\<lambda>cmd s'.
       let s' = snd (peek [] s') in
       if s' \<noteq> [] then Perr ''syntax'' else Pok (cmd, nulterminate (length s) cmd buf) s'))"

section \<open>What a successful parse consists of\<close>

lemma pbind_simps [simp]:
  "pbind Fuel f = Fuel" "pbind (Perr e) f = Perr e" "pbind (Pok x s) f = f x s"
  by (simp_all add: pbind_def)

lemma pbind_Pok: "pbind m f = Pok y s \<longleftrightarrow> (\<exists>x s'. m = Pok x s' \<and> f x s' = Pok y s)"
  by (cases m) auto

lemma pbind_Fuel: "pbind m f = Fuel \<longleftrightarrow> m = Fuel \<or> (\<exists>x s'. m = Pok x s' \<and> f x s' = Fuel)"
  by (cases m) auto

declare parseredirs.simps [simp del] parseargs.simps [simp del] parseback.simps [simp del]

lemma parseredirs_stop:
  assumes "(False, s1) = peek ''<>'' s"
  shows "parseredirs cmd s = Pok cmd s1"
  by (simp add: parseredirs.simps [of cmd s] assms [symmetric])

lemma parseredirs_more:
  assumes "(True, s1) = peek ''<>'' s" "(tok, q0, e0, s2) = gettoken s1" "(t, q, e, s3) = gettoken s2"
  shows "parseredirs cmd s =
    (if t \<noteq> asc CHR ''a'' then Perr ''missing file for redirection''
     else if tok = asc CHR ''<'' then parseredirs (REDIR cmd (q, e) 0 0) s3
     else parseredirs (REDIR cmd (q, e) 0x201 1) s3)"
  by (simp add: parseredirs.simps [of cmd s] assms [symmetric])

lemma parseredirs_ind [consumes 1, case_names stop more]:
  assumes "parseredirs cmd s = Pok c s'"
    and "\<And>cmd s s1. (False, s1) = peek ''<>'' s \<Longrightarrow> P cmd s cmd s1"
    and "\<And>cmd s s1 tok q0 e0 s2 q e s3 m fd c s'.
      (True, s1) = peek ''<>'' s \<Longrightarrow> (tok, q0, e0, s2) = gettoken s1
      \<Longrightarrow> (asc CHR ''a'', q, e, s3) = gettoken s2 \<Longrightarrow> P (REDIR cmd (q, e) m fd) s3 c s' \<Longrightarrow> P cmd s c s'"
  shows "P cmd s c s'"
  using assms(1)
proof (induction "length s" arbitrary: cmd s rule: less_induct)
  case less
  obtain b s1 where p: "(b, s1) = peek ''<>'' s" by (cases "peek ''<>'' s") auto
  obtain tok q0 e0 s2 where g: "(tok, q0, e0, s2) = gettoken s1" by (cases "gettoken s1") auto
  obtain t q e s3 where h: "(t, q, e, s3) = gettoken s2" by (cases "gettoken s2") auto
  show ?case
  proof (cases b)
    case False
    then show ?thesis using less.prems parseredirs_stop [of s1 s cmd] p assms(2) [of s1 s cmd] by simp
  next
    case True
    then have p: "(True, s1) = peek ''<>'' s" using p by simp
    have t: "t = asc CHR ''a''" using less.prems parseredirs_more [OF p g h, of cmd]
      by (auto split: if_splits)
    then obtain m fd where r: "parseredirs (REDIR cmd (q, e) m fd) s3 = Pok c s'"
      using less.prems parseredirs_more [OF p g h, of cmd] by (auto split: if_splits)
    show ?thesis
      by (rule assms(3) [OF p g h [unfolded t] less.hyps [OF redirection_shorter [OF p g h] r]])
  qed
qed

lemma parseredirs_ends: "parseredirs cmd s \<noteq> Fuel"
proof (induction "length s" arbitrary: cmd s rule: less_induct)
  case less
  obtain b s1 where p: "(b, s1) = peek ''<>'' s" by (cases "peek ''<>'' s") auto
  obtain tok q0 e0 s2 where g: "(tok, q0, e0, s2) = gettoken s1" by (cases "gettoken s1") auto
  obtain t q e s3 where h: "(t, q, e, s3) = gettoken s2" by (cases "gettoken s2") auto
  show ?case
  proof (cases b)
    case False
    then show ?thesis using parseredirs_stop [of s1 s cmd] p by simp
  next
    case True
    then have p: "(True, s1) = peek ''<>'' s" using p by simp
    show ?thesis
      using parseredirs_more [OF p g h, of cmd] less.hyps [OF redirection_shorter [OF p g h]] by simp
  qed
qed

lemma parseback_step:
  assumes "(b, s1) = peek ''&'' s"
  shows "parseback cmd s = (if b then parseback (BACK cmd) (skiptoken s1) else Pok cmd s1)"
  by (simp add: parseback.simps [of cmd s] assms [symmetric])

lemma parseback_ok: "\<exists>k s'. parseback cmd s = Pok ((BACK ^^ k) cmd) s' \<and> suffix s' s"
proof (induction "length s" arbitrary: cmd s rule: less_induct)
  case less
  obtain b s1 where p: "(b, s1) = peek ''&'' s" by (cases "peek ''&'' s") auto
  show ?case
  proof (cases b)
    case False
    then have "parseback cmd s = Pok ((BACK ^^ 0) cmd) s1" using parseback_step [OF p] by simp
    then show ?thesis using peek_suffix [OF p] by blast
  next
    case True
    then have p: "(True, s1) = peek ''&'' s" using p by simp
    have "length (skiptoken s1) < length s" by (rule peek_skip [OF p]) simp
    from less [OF this, of "BACK cmd"] obtain k s' where
      "parseback cmd s = Pok ((BACK ^^ k) (BACK cmd)) s'" "suffix s' (skiptoken s1)"
      using parseback_step [OF p] by auto
    moreover have "(BACK ^^ k) (BACK cmd) = (BACK ^^ Suc k) cmd" by (simp add: funpow_swap1)
    ultimately show ?thesis
      using suffix_order.trans [OF _ suffix_order.trans [OF skiptoken_suffix peek_suffix [OF p]]] by metis
  qed
qed

lemma parseargs_step:
  assumes "(b, s1) = peek ''|)&;'' s" "(t, q, e, s2) = gettoken s1"
  shows "parseargs argc ret s =
    (if b then Pok ret s1
     else if t = 0 then Pok ret s2
     else if t \<noteq> asc CHR ''a'' then Perr ''syntax''
     else if MAXARGS \<le> Suc argc then Perr ''too many args''
     else pbind (parseredirs (add_arg ret (q, e)) s2) (parseargs (Suc argc)))"
  by (simp add: parseargs.simps [of argc ret s] assms [symmetric])

lemma parseargs_ends: "parseargs argc ret s \<noteq> Fuel"
  by (induction argc ret s rule: parseargs.induct)
    (auto simp: parseargs.simps pbind_Fuel parseredirs_ends split: prod.split bool.split)

section \<open>The words of a command\<close>

text \<open>The pairs of pointers that enclose a maximal run of ordinary bytes of \<open>s\<close>.\<close>

definition words :: "ptr \<Rightarrow> (ptr \<times> ptr) set" where
  "words s = {(q, e). suffix q s \<and> (\<exists>w. q = w @ e \<and> w \<noteq> [] \<and> list_all ordinary w)
     \<and> (e = [] \<or> \<not> ordinary (hd e))}"

lemma words_mono: "suffix s' s \<Longrightarrow> words s' \<subseteq> words s"
  by (auto simp: words_def)

lemma scantok_word:
  assumes "scantok (c # r) = (asc CHR ''a'', e)" "\<not> ws c"
  shows "ordinary c" "e = dropWhile ordinary (c # r)"
  using assms by (auto simp: ordinary_def symbol_def split: if_splits)

lemma gettoken_word:
  assumes "(asc CHR ''a'', q, e, s') = gettoken s"
  shows "(q, e) \<in> words s"
proof -
  note g = gettoken_parts [OF assms [symmetric]]
  obtain c r where q: "q = c # r" using g(2) by (cases q) auto
  have "\<not> ws c" using hd_dropWhile [of ws s] g(1) q by (metis list.distinct(1) list.sel(1))
  from scantok_word [OF _ this, of r e] have e: "ordinary c" "e = dropWhile ordinary q"
    using g(2) [symmetric] q by auto
  have "q = takeWhile ordinary q @ e" unfolding e(2) by simp
  moreover have "takeWhile ordinary q \<noteq> []" using e(1) q by simp
  moreover have "list_all ordinary (takeWhile ordinary q)" by (auto simp: list_all_iff dest: set_takeWhileD)
  moreover have "e = [] \<or> \<not> ordinary (hd e)" using hd_dropWhile [of ordinary q] e(2) by metis
  ultimately show ?thesis using gettoken_suffix(1) [OF assms] unfolding words_def by blast
qed

definition parsed :: "ptr \<Rightarrow> pcmd \<Rightarrow> pcmd \<Rightarrow> ptr \<Rightarrow> bool" where
  "parsed s cmd c s' \<longleftrightarrow> suffix s' s \<and> set_cmd c \<subseteq> set_cmd cmd \<union> words s"

lemma parsed_weaken:
  assumes "parsed s1 cmd1 c s'" "suffix s1 s" "set_cmd cmd1 \<subseteq> set_cmd cmd \<union> words s"
  shows "parsed s cmd c s'"
  using assms words_mono [of s1 s] unfolding parsed_def by (meson Un_least Un_upper2 order_trans suffix_order.trans)

lemma parsed_trans:
  assumes "parsed s cmd c1 s1" "parsed s1 c1 c s'"
  shows "parsed s cmd c s'"
  by (rule parsed_weaken [OF assms(2)]) (use assms(1) in \<open>auto simp: parsed_def\<close>)

lemma parseredirs_parsed: "parseredirs cmd s = Pok c s' \<Longrightarrow> parsed s cmd c s'"
proof (induction rule: parseredirs_ind)
  case (stop cmd s s1)
  then show ?case by (auto simp: parsed_def peek_suffix)
next
  case (more cmd s s1 tok q0 e0 s2 q e s3 m fd c s')
  have "suffix s2 s" using gettoken_suffix(2) [OF more(2)] peek_suffix [OF more(1)] by simp
  moreover have "(q, e) \<in> words s" using gettoken_word [OF more(3)] words_mono \<open>suffix s2 s\<close> by blast
  ultimately show ?case
    using parsed_weaken [OF more(4), of s cmd] gettoken_suffix(2) [OF more(3)] by auto
qed

lemma set_add_arg: "set_cmd (add_arg c a) \<subseteq> insert a (set_cmd c)"
  by (induction c a rule: add_arg.induct) auto

lemma parseargs_parsed: "parseargs argc ret s = Pok c s' \<Longrightarrow> parsed s ret c s'"
proof (induction argc ret s rule: parseargs.induct)
  case (1 argc ret s)
  obtain b s1 where p: "(b, s1) = peek ''|)&;'' s" by (cases "peek ''|)&;'' s") auto
  obtain t q e s2 where g: "(t, q, e, s2) = gettoken s1" by (cases "gettoken s1") auto
  note su = peek_suffix [OF p] gettoken_suffix(2) [OF g]
  show ?case
  proof (cases "b \<or> t = 0")
    case True
    then show ?thesis using "1.prems" su unfolding parsed_def parseargs_step [OF p g]
      by (auto split: if_splits)
  next
    case False
    then have r: "pbind (parseredirs (add_arg ret (q, e)) s2) (parseargs (Suc argc)) = Pok c s'"
      and t: "t = asc CHR ''a''" "\<not> MAXARGS \<le> Suc argc"
      using "1.prems" unfolding parseargs_step [OF p g] by (simp_all split: if_splits)
    then obtain c1 s3 where c1: "parseredirs (add_arg ret (q, e)) s2 = Pok c1 s3"
      and c2: "parseargs (Suc argc) c1 s3 = Pok c s'" by (auto simp: pbind_Pok)
    have "parsed s3 c1 c s'" using "1.IH" p g False t c2 by fastforce
    moreover have "(q, e) \<in> words s" using gettoken_word g t(1) words_mono [OF su(1)] by blast
    then have "parsed s ret c1 s3"
      using set_add_arg [of ret "(q, e)"] su
      by (intro parsed_weaken [OF parseredirs_parsed [OF c1]]) auto
    ultimately show ?thesis using parsed_trans by blast
  qed
qed

lemma parseback_parsed: "parseback cmd s = Pok c s' \<Longrightarrow> parsed s cmd c s'"
proof -
  have "set_cmd ((BACK ^^ k) cmd) = set_cmd cmd" for k by (induction k) auto
  then show "parseback cmd s = Pok c s' \<Longrightarrow> parsed s cmd c s'"
    using parseback_ok [of cmd s] by (auto simp: parsed_def)
qed

abbreviation none :: pcmd where "none \<equiv> EXEC []"

lemma parsed_skip:
  assumes "parsed s0 cmd c s"
  shows "parsed s0 cmd c (snd (peek toks s))" "parsed s0 cmd c (skiptoken (snd (peek toks s)))"
  using assms peek_suffix [of _ "snd (peek toks s)" toks s] skiptoken_suffix [of "snd (peek toks s)"]
  unfolding parsed_def by (metis prod.collapse suffix_order.trans)+

lemma parsed_start: "parsed s cmd cmd s"
  by (simp add: parsed_def)

lemma parsed_pair:
  assumes "parsed s none l s1" "parsed s1 none r s'"
  shows "parsed s none (LIST l r) s'" "parsed s none (PIPE l r) s'"
  using assms words_mono [of s1 s] unfolding parsed_def by auto

lemmas parse_unfold = pbind_Pok Let_def case_prod_beta

lemma parseline_cases:
  assumes "parseline (Suc n) s = Pok c s'"
  obtains c1 s1 c2 s2 where "parsepipe n s = Pok c1 s1" "parseback c1 s1 = Pok c2 s2"
    "\<not> fst (peek '';'' s2)" "c = c2" "s' = snd (peek '';'' s2)"
  | c1 s1 c2 s2 r where "parsepipe n s = Pok c1 s1" "parseback c1 s1 = Pok c2 s2"
    "parseline n (skiptoken (snd (peek '';'' s2))) = Pok r s'" "fst (peek '';'' s2)" "c = LIST c2 r"
  using assms by (auto simp: parse_unfold split: if_splits)

lemma parsepipe_cases:
  assumes "parsepipe (Suc n) s = Pok c s'"
  obtains s1 where "parseexec n s = Pok c s1" "\<not> fst (peek ''|'' s1)" "s' = snd (peek ''|'' s1)"
  | c1 s1 r where "parseexec n s = Pok c1 s1" "parsepipe n (skiptoken (snd (peek ''|'' s1))) = Pok r s'"
    "fst (peek ''|'' s1)" "c = PIPE c1 r"
  using assms by (auto simp: parse_unfold split: if_splits)

lemma parseexec_cases:
  assumes "parseexec (Suc n) s = Pok c s'"
  obtains "fst (peek ''('' s)" "parseblock n (snd (peek ''('' s)) = Pok c s'"
  | c1 s1 where "\<not> fst (peek ''('' s)" "parseredirs none (snd (peek ''('' s)) = Pok c1 s1"
    "parseargs 0 c1 s1 = Pok c s'"
  using assms by (auto simp: parse_unfold split: if_splits)

lemma parseblock_cases:
  assumes "parseblock (Suc n) s = Pok c s'"
  obtains c1 s1 where "fst (peek ''('' s)" "parseline n (skiptoken (snd (peek ''('' s))) = Pok c1 s1"
    "fst (peek '')'' s1)" "parseredirs c1 (skiptoken (snd (peek '')'' s1))) = Pok c s'"
  using assms by (auto simp: parse_unfold split: if_splits)

lemma parse_parsed:
  "(parseline n s = Pok c s' \<longrightarrow> parsed s none c s') \<and> (parsepipe n s = Pok c s' \<longrightarrow> parsed s none c s')
   \<and> (parseexec n s = Pok c s' \<longrightarrow> parsed s none c s') \<and> (parseblock n s = Pok c s' \<longrightarrow> parsed s none c s')"
proof (induction n arbitrary: s c s')
  case (Suc n)
  have IH: "parseline n s = Pok c s' \<Longrightarrow> parsed s none c s'" "parsepipe n s = Pok c s' \<Longrightarrow> parsed s none c s'"
    "parseexec n s = Pok c s' \<Longrightarrow> parsed s none c s'" "parseblock n s = Pok c s' \<Longrightarrow> parsed s none c s'"
    for s c s' using Suc by simp_all
  have l: "parsed s none c s'" if "parseline (Suc n) s = Pok c s'"
    using that
  proof (cases rule: parseline_cases)
    case (1 c1 s1 c2 s2)
    show ?thesis unfolding 1(4,5)
      by (rule parsed_skip(1) [OF parsed_trans [OF IH(2) [OF 1(1)] parseback_parsed [OF 1(2)]]])
  next
    case (2 c1 s1 c2 s2 r)
    show ?thesis unfolding 2(5)
      by (rule parsed_pair(1) [OF parsed_skip(2) [OF parsed_trans [OF IH(2) [OF 2(1)]
            parseback_parsed [OF 2(2)]]] IH(1) [OF 2(3)]])
  qed
  have p: "parsed s none c s'" if "parsepipe (Suc n) s = Pok c s'"
    using that
  proof (cases rule: parsepipe_cases)
    case (1 s1)
    show ?thesis unfolding 1(3) by (rule parsed_skip(1) [OF IH(3) [OF 1(1)]])
  next
    case (2 c1 s1 r)
    show ?thesis unfolding 2(4)
      by (rule parsed_pair(2) [OF parsed_skip(2) [OF IH(3) [OF 2(1)]] IH(2) [OF 2(2)]])
  qed
  note start = parsed_skip [OF parsed_start [of s none], of "''(''"]
  have e: "parsed s none c s'" if "parseexec (Suc n) s = Pok c s'"
    using that
  proof (cases rule: parseexec_cases)
    case 1
    show ?thesis by (rule parsed_trans [OF start(1) IH(4) [OF 1(2)]])
  next
    case (2 c1 s1)
    show ?thesis
      by (rule parsed_trans [OF start(1) parsed_trans [OF parseredirs_parsed [OF 2(2)] parseargs_parsed [OF 2(3)]]])
  qed
  have b: "parsed s none c s'" if "parseblock (Suc n) s = Pok c s'"
    using that
  proof (cases rule: parseblock_cases)
    case (1 c1 s1)
    show ?thesis
      by (rule parsed_trans [OF parsed_skip(2) [OF parsed_trans [OF start(2) IH(1) [OF 1(2)]]]
          parseredirs_parsed [OF 1(4)]])
  qed
  show ?case using l p e b by blast
qed simp

section \<open>Parsing ends\<close>

lemma parsed_length: "parsed s cmd c s' \<Longrightarrow> length s' \<le> length s"
  by (simp add: parsed_def suffix_length_le)

lemma token_shorter:
  assumes "parsed s cmd c s'" "fst (peek toks s')" "0 \<notin> set (bytes toks)"
  shows "length (skiptoken (snd (peek toks s'))) < length s"
proof -
  have "(True, snd (peek toks s')) = peek toks s'" using assms(2) by (cases "peek toks s'") simp
  from peek_skip [OF this assms(3)] parsed_length [OF assms(1)] show ?thesis by linarith
qed

lemma parseline_Fuel:
  assumes "parseline (Suc n) s = Fuel"
  obtains "parsepipe n s = Fuel"
  | c1 s1 where "parsed s none c1 s1" "fst (peek '';'' s1)" "parseline n (skiptoken (snd (peek '';'' s1))) = Fuel"
proof (cases "parsepipe n s")
  case (Pok c1 s1)
  obtain c2 s2 where b: "parseback c1 s1 = Pok c2 s2" using parseback_ok [of c1 s1] by blast
  have "parsed s none c1 s1" using parse_parsed [of n s c1 s1] Pok by blast
  from parsed_trans [OF this parseback_parsed [OF b]] that(2) assms Pok b show ?thesis
    by (simp add: Let_def case_prod_beta pbind_Fuel split: if_splits)
qed (use assms that in simp_all)

lemma parsepipe_Fuel:
  assumes "parsepipe (Suc n) s = Fuel"
  obtains "parseexec n s = Fuel"
  | c1 s1 where "parsed s none c1 s1" "fst (peek ''|'' s1)" "parsepipe n (skiptoken (snd (peek ''|'' s1))) = Fuel"
proof (cases "parseexec n s")
  case (Pok c1 s1)
  have "parsed s none c1 s1" using parse_parsed [of n s c1 s1] Pok by blast
  then show ?thesis using that(2) assms Pok
    by (simp add: Let_def case_prod_beta pbind_Fuel split: if_splits)
qed (use assms that in simp_all)

lemma parse_ends:
  "(4 * length s + 4 \<le> n \<longrightarrow> parseline n s \<noteq> Fuel) \<and> (4 * length s + 3 \<le> n \<longrightarrow> parsepipe n s \<noteq> Fuel)
   \<and> (4 * length s + 2 \<le> n \<longrightarrow> parseexec n s \<noteq> Fuel) \<and> (4 * length s + 1 \<le> n \<longrightarrow> parseblock n s \<noteq> Fuel)"
proof (induction n arbitrary: s)
  case (Suc n)
  have IH: "4 * length s + 4 \<le> n \<Longrightarrow> parseline n s \<noteq> Fuel" "4 * length s + 3 \<le> n \<Longrightarrow> parsepipe n s \<noteq> Fuel"
    "4 * length s + 2 \<le> n \<Longrightarrow> parseexec n s \<noteq> Fuel" "4 * length s + 1 \<le> n \<Longrightarrow> parseblock n s \<noteq> Fuel"
    for s using Suc by simp_all
  have l: False if "parseline (Suc n) s = Fuel" and n: "4 * length s + 4 \<le> Suc n"
    using that(1)
  proof (cases rule: parseline_Fuel)
    case (2 c1 s1)
    then show ?thesis using token_shorter [OF 2(1,2)] IH(1) n by fastforce
  qed (use IH(2) n in simp)
  have p: False if "parsepipe (Suc n) s = Fuel" and n: "4 * length s + 3 \<le> Suc n"
    using that(1)
  proof (cases rule: parsepipe_Fuel)
    case (2 c1 s1)
    then show ?thesis using token_shorter [OF 2(1,2)] IH(2) n by fastforce
  qed (use IH(3) n in simp)
  have e: False if "parseexec (Suc n) s = Fuel" and n: "4 * length s + 2 \<le> Suc n"
    using that(1) IH(4) [of "snd (peek ''('' s)"] n peek_length [of "''(''" s]
    by (simp add: Let_def case_prod_beta pbind_Fuel parseredirs_ends parseargs_ends split: if_splits)
      (metis Suc_le_mono le_add1 mult_le_mono2 order_trans prod.collapse add_Suc_right)
  have b: False if "parseblock (Suc n) s = Fuel" and n: "4 * length s + 1 \<le> Suc n"
    using that(1) IH(1) [of "skiptoken (snd (peek ''('' s))"] n token_shorter [OF parsed_start, of "''(''" s]
    by (simp add: Let_def case_prod_beta pbind_Fuel parseredirs_ends split: if_splits)
  show ?case using l p e b by blast
qed simp

end
