(* ===== verification/Sh_Parse.thy ===== *)
theory Sh_Parse
  imports Sh
begin

text \<open>
  What the parser of the shell delivers: it returns on every line, the words of the tree are NUL-terminated
  strings in the buffer afterwards, and every command tree is the result of parsing some line.
\<close>

section \<open>The terminated words\<close>

text \<open>The C string in the buffer at a pointer.\<close>

definition cstring :: "u8 list \<Rightarrow> nat \<Rightarrow> u8 list" where
  "cstring buf i = takeWhile (\<lambda>c. c \<noteq> 0) (drop i buf)"

definition ends :: "nat \<Rightarrow> pcmd \<Rightarrow> nat set" where
  "ends len c = (\<lambda>(q, e). ptr_ix len e) ` set_cmd c"

lemma nth_update: "j < length xs \<Longrightarrow> xs[i := x] ! j = (if i = j then x else xs ! j)"
  by (cases "i = j") auto

lemma fold_nul:
  "length (fold (\<lambda>(q, e) buf. buf[ptr_ix len e := 0]) as buf) = length buf"
  "i < length buf \<Longrightarrow> fold (\<lambda>(q, e) buf. buf[ptr_ix len e := 0]) as buf ! i
    = (if i \<in> (\<lambda>(q, e). ptr_ix len e) ` set as then 0 else buf ! i)"
  by (induction as arbitrary: buf) (auto simp: nth_update split: prod.split)

lemma ends_simps:
  "ends len (EXEC as) = (\<lambda>(q, e). ptr_ix len e) ` set as"
  "ends len (REDIR c (q, e) m fd) = insert (ptr_ix len e) (ends len c)"
  "ends len (PIPE l r) = ends len l \<union> ends len r" "ends len (LIST l r) = ends len l \<union> ends len r"
  "ends len (BACK c) = ends len c"
  by (auto simp: ends_def)

lemma nulterminate_length: "length (nulterminate len c buf) = length buf"
  by (induction len c buf rule: nulterminate.induct) (simp_all add: fold_nul)

lemma nulterminate_nth:
  "i < length buf \<Longrightarrow> nulterminate len c buf ! i = (if i \<in> ends len c then 0 else buf ! i)"
  by (induction len c buf rule: nulterminate.induct)
    (simp_all add: fold_nul ends_simps nth_update nulterminate_length)

lemma word_kept:
  assumes "(q, e) \<in> words line" "j < length q - length e" "set_cmd c \<subseteq> words line"
  shows "ptr_ix (length line) q + j \<notin> ends (length line) c"
    "ordinary (line ! (ptr_ix (length line) q + j))" "ptr_ix (length line) q + j < length line"
proof -
  obtain u w where l: "line = u @ w @ e" "q = w @ e" "list_all ordinary w"
    using assms(1) by (auto simp: words_def suffix_def)
  then have j: "ptr_ix (length line) q + j = length u + j" "j < length w"
    using assms(2) by (auto simp: ptr_ix_def)
  show "ptr_ix (length line) q + j < length line" unfolding j using j(2) l(1) by simp
  have o: "ordinary (line ! (length u + j))" using j(2) l by (simp add: nth_append list_all_length)
  then show "ordinary (line ! (ptr_ix (length line) q + j))" unfolding j .
  show "ptr_ix (length line) q + j \<notin> ends (length line) c"
  proof
    assume "ptr_ix (length line) q + j \<in> ends (length line) c"
    then obtain q' e' where w': "(q', e') \<in> words line" "ptr_ix (length line) e' = length u + j"
      using assms(3) unfolding j ends_def by auto
    obtain v where v: "line = v @ e'" using w'(1) by (auto simp: words_def suffix_def)
    then have lv: "length v = length u + j" using w'(2) by (simp add: ptr_ix_def)
    have e': "e' \<noteq> []" using v l(1) j(2) lv by (metis add_less_cancel_left append.right_neutral length_append
          linorder_not_less le_add1)
    have "line ! (length u + j) = hd e'" unfolding v lv [symmetric] using e' by (simp add: nth_append hd_conv_nth)
    then show False using w'(1) o e' by (auto simp: words_def)
  qed
qed

lemma nulterminate_string:
  assumes "buf = line @ 0 # rest" "0 \<notin> set line" "set_cmd c \<subseteq> words line" "(q, e) \<in> set_cmd c"
  shows "cstring (nulterminate (length line) c buf) (ptr_ix (length line) q) = takeWhile ordinary q"
proof -
  let ?b = "nulterminate (length line) c buf"
  have qe: "(q, e) \<in> words line" using assms(3,4) by blast
  then obtain u w where l: "line = u @ w @ e" "q = w @ e" "list_all ordinary w" "e = [] \<or> \<not> ordinary (hd e)"
    by (auto simp: words_def suffix_def)
  have i: "ptr_ix (length line) q = length u" using l by (simp add: ptr_ix_def)
  have w: "?b ! (length u + j) = w ! j" if "j < length w" for j
  proof -
    have "length u + j \<notin> ends (length line) c"
      using word_kept(1) [OF qe _ assms(3), of j, unfolded i] that l(2) by simp
    then show ?thesis using that assms(1) l(1) by (simp add: nulterminate_nth nth_append)
  qed
  have "length u + length w \<in> ends (length line) c"
    using assms(4) l(1) unfolding ends_def by (force simp: ptr_ix_def)
  then have z: "?b ! (length u + length w) = 0" using assms(1) l(1) by (simp add: nulterminate_nth nulterminate_length)
  have len: "length u + length w < length ?b" using assms(1) l(1) by (simp add: nulterminate_nth nulterminate_length)
  have "take (length w) (drop (length u) ?b) = w"
    using len w by (intro nth_equalityI) auto
  then have "drop (length u) ?b = w @ 0 # drop (Suc (length u + length w)) ?b"
    using len z by (metis add.commute append_take_drop_id Cons_nth_drop_Suc drop_drop)
  moreover have "0 \<notin> set w" using assms(2) l(1) by simp
  ultimately have "cstring ?b (length u) = w" unfolding cstring_def
    by (simp add: takeWhile_append)
  moreover have "takeWhile ordinary q = w"
    using l(3,4) unfolding l(2) by (cases e) (auto simp: takeWhile_append list_all_iff)
  ultimately show ?thesis unfolding i by simp
qed

section \<open>Properties\<close>

lemma parsecmd_run:
  assumes "parsecmd buf = Pok (cmd, buf') s'"
  shows "\<exists>s1. parseline (4 * length (takeWhile (\<lambda>c. c \<noteq> 0) buf) + 4) (takeWhile (\<lambda>c. c \<noteq> 0) buf) = Pok cmd s1"
    "buf' = nulterminate (length (takeWhile (\<lambda>c. c \<noteq> 0) buf)) cmd buf"
  using assms by (auto simp: parsecmd_def pbind_Pok Let_def split: prod.splits if_splits)

text \<open>
  C33. Parsing returns on every line: the nesting of calls is at most four for each byte of it.
\<close>

theorem parsecmd_ends: "parsecmd buf \<noteq> Fuel"
proof -
  let ?s = "takeWhile (\<lambda>c. c \<noteq> 0) buf"
  have "parseline (4 * length ?s + 4) ?s \<noteq> Fuel" using parse_ends [of ?s "4 * length ?s + 4"] by blast
  then show ?thesis unfolding parsecmd_def Let_def pbind_Fuel by simp
qed

lemma nul_split:
  assumes "0 \<in> set buf"
  shows "buf = takeWhile (\<lambda>c. c \<noteq> 0) buf @ 0 # tl (dropWhile (\<lambda>c. c \<noteq> (0 :: u8)) buf)"
  using assms by (induction buf) auto

lemma parsecmd_strings:
  assumes "parsecmd buf = Pok (cmd, buf') s'" and "0 \<in> set buf"
  shows "map_cmd (\<lambda>(q, e). cstring buf' (ptr_ix (length (takeWhile (\<lambda>c. c \<noteq> 0) buf)) q)) cmd
    = map_cmd (\<lambda>(q, e). takeWhile ordinary q) cmd"
proof (rule cmd.map_cong0, clarify)
  fix q e
  assume qe: "(q, e) \<in> set_cmd cmd"
  let ?line = "takeWhile (\<lambda>c. c \<noteq> 0) buf"
  have "0 \<notin> set ?line" using set_takeWhileD by fastforce
  moreover have "set_cmd cmd \<subseteq> words ?line"
    using parsecmd_run(1) [OF assms(1)] parse_parsed by (force simp: parsed_def)
  ultimately show "cstring buf' (ptr_ix (length ?line) q) = takeWhile ordinary q"
    using nulterminate_string [OF nul_split [OF assms(2)]] qe unfolding parsecmd_run(2) [OF assms(1)] by blast
qed

text \<open>
  C34. After \<open>parsecmd\<close> each word of the tree, an argument or a file name, is a C string in the buffer,
  and this string is the run of ordinary bytes that starts at its pointer: the NULs that end the other
  words do not cut it.
\<close>

theorem parsecmd_words:
  assumes "parsecmd buf = Pok (cmd, buf') s'" and "0 \<in> set buf"
  shows "map_cmd (\<lambda>(q, e). cstring buf' (ptr_ix (length (takeWhile (\<lambda>c. c \<noteq> 0) buf)) q)) cmd
    = map_cmd (\<lambda>(q, e). takeWhile ordinary q) cmd"
  by (rule parsecmd_strings [OF assms])

theorem parsecmd_words_witness:
  "\<exists>cmd buf'. parsecmd (bytes ''ls;wc>f'' @ [0]) = Pok (cmd, buf') []
    \<and> map_cmd (\<lambda>(q, e). cstring buf' (ptr_ix 7 q)) cmd
      = LIST (EXEC [bytes ''ls'']) (REDIR (EXEC [bytes ''wc'']) (bytes ''f'') 0x201 1)"
proof -
  let ?c = "LIST (EXEC [bytes ''ls'']) (REDIR (EXEC [bytes ''wc'']) (bytes ''f'') 0x201 1)"
  have "case parsecmd (bytes ''ls;wc>f'' @ [0]) of Pok (cmd, buf') s \<Rightarrow>
      s = [] \<and> map_cmd (\<lambda>(q, e). takeWhile ordinary q) cmd = ?c | _ \<Rightarrow> False"
    by code_simp
  then obtain cmd buf' where r: "parsecmd (bytes ''ls;wc>f'' @ [0]) = Pok (cmd, buf') []"
    "map_cmd (\<lambda>(q, e). takeWhile ordinary q) cmd = ?c" by (auto split: pr.splits)
  have "length (takeWhile (\<lambda>c. c \<noteq> 0) (bytes ''ls;wc>f'' @ [0 :: u8])) = 7" by simp
  from parsecmd_words [OF r(1), unfolded this] r show ?thesis by simp
qed

end
