(* ===== verification/Sh_Render.thy ===== *)
theory Sh_Render
  imports Sh_Parse
begin

text \<open>
  The grammar of the shell covers every command: \<open>render\<close> writes a tree as a line, with parentheses where
  the grammar needs them, and \<open>parsecmd\<close> reads the tree back. Each of the four levels of the grammar
  has a statement about the lines written at that level; the levels follow from one another around a cycle,
  and each constructor enters the cycle at its own level.
\<close>

section \<open>Writing a command\<close>

definition redirection :: "u8 list \<times> int \<Rightarrow> u8 list" where
  "redirection = (\<lambda>(w, fd). 32 # (if fd = 0 then asc CHR ''<'' else asc CHR ''>'') # 32 # w)"

definition paren :: "bool \<Rightarrow> u8 list \<Rightarrow> u8 list" where
  "paren b s = (if b then bytes '' ('' @ s @ bytes '' )'' else s)"

fun render :: "nat \<Rightarrow> u8 list cmd \<Rightarrow> u8 list" where
  "render l (EXEC as) = concat (map (\<lambda>w. 32 # w) as)"
| "render l (REDIR c w m fd) = render 3 c @ redirection (w, fd)"
| "render l (PIPE a b) = paren (l > 2) (render 3 a @ bytes '' |'' @ render 2 b)"
| "render l (BACK a) = paren (l > 1) (render 1 a @ bytes '' &'')"
| "render l (LIST a b) = paren (l > 0) (render 1 a @ bytes '' ;'' @ render 0 b)"

definition wf_word :: "u8 list \<Rightarrow> bool" where
  "wf_word w \<longleftrightarrow> w \<noteq> [] \<and> list_all (\<lambda>c. ordinary c \<and> c \<noteq> 0) w"

text \<open>The trees the parser can build: at most nine arguments, and the two kinds of redirection.\<close>

fun wf_cmd :: "u8 list cmd \<Rightarrow> bool" where
  "wf_cmd (EXEC as) \<longleftrightarrow> length as < MAXARGS \<and> list_all wf_word as"
| "wf_cmd (REDIR c w m fd) \<longleftrightarrow> wf_cmd c \<and> wf_word w \<and> (m, fd) \<in> {(0, 0), (0x201, 1)}"
| "wf_cmd (PIPE a b) \<longleftrightarrow> wf_cmd a \<and> wf_cmd b"
| "wf_cmd (BACK a) \<longleftrightarrow> wf_cmd a"
| "wf_cmd (LIST a b) \<longleftrightarrow> wf_cmd a \<and> wf_cmd b"

section \<open>Tokens of a written line\<close>

abbreviation dw :: "ptr \<Rightarrow> ptr" where "dw \<equiv> dropWhile ws"

definition sep :: "ptr \<Rightarrow> bool" where
  "sep rest \<longleftrightarrow> rest = [] \<or> hd rest = 32"

text \<open>The rest of a line that ends a phrase: its first token is one of \<open>toks\<close>, if there is one.\<close>

definition stops :: "string \<Rightarrow> ptr \<Rightarrow> bool" where
  "stops toks rest \<longleftrightarrow> sep rest \<and> (dw rest = [] \<or> hd (dw rest) \<in> set (bytes toks))"

lemma ws_space [simp]: "ws 32"
  by (simp add: ws_def)

lemma dw_dw [simp]: "dw (dw s) = dw s"
  by (induction s) auto

lemma peek_dw [simp]: "peek toks (dw s) = peek toks s"
  by (simp add: peek_def)

lemma gettoken_dw [simp]: "gettoken (dw s) = gettoken s"
  by (simp add: gettoken_def)

lemma parse_dw:
  "parseredirs c (dw s) = parseredirs c s" "parseargs k c (dw s) = parseargs k c s"
  "parseback c (dw s) = parseback c s" "parseexec n (dw s) = parseexec n s"
  "parsepipe n (dw s) = parsepipe n s" "parseline n (dw s) = parseline n s"
proof -
  show "parseredirs c (dw s) = parseredirs c s"
    by (simp add: parseredirs.simps [of c s] parseredirs.simps [of c "dw s"])
  show "parseargs k c (dw s) = parseargs k c s"
    by (simp add: parseargs.simps [of k c s] parseargs.simps [of k c "dw s"])
  show "parseback c (dw s) = parseback c s"
    by (simp add: parseback.simps [of c s] parseback.simps [of c "dw s"])
  show e: "parseexec n (dw s) = parseexec n s" for n by (cases n) simp_all
  show p: "parsepipe n (dw s) = parsepipe n s" for n by (cases n) (simp_all add: e)
  show "parseline n (dw s) = parseline n s" by (cases n) (simp_all add: p)
qed

lemma peek_token:
  assumes "\<not> ws c"
  shows "peek toks (c # r) = (c \<in> set (bytes toks), c # r)" "peek toks (32 # c # r) = (c \<in> set (bytes toks), c # r)"
  using assms by (simp_all add: peek_def)

lemma peek_stops:
  assumes "stops toks rest" "set (bytes toks) \<inter> set (bytes toks') = {}"
  shows "peek toks' rest = (False, dw rest)"
  using assms unfolding stops_def peek_def Let_def by auto

lemma stops_weaken: "stops toks rest \<Longrightarrow> set (bytes toks) \<subseteq> set (bytes toks') \<Longrightarrow> stops toks' rest"
  unfolding stops_def by auto

lemma dw_word: "wf_word w \<Longrightarrow> dw (w @ rest) = w @ rest"
  by (cases w) (auto simp: wf_word_def ordinary_def)

lemma takeWhile_word: "wf_word w \<Longrightarrow> sep rest \<Longrightarrow> takeWhile ordinary (w @ rest) = w"
  by (cases rest) (auto simp: wf_word_def list_all_iff sep_def ordinary_def takeWhile_append)

lemma dropWhile_word: "wf_word w \<Longrightarrow> sep rest \<Longrightarrow> dropWhile ordinary (w @ rest) = rest"
  by (cases rest) (auto simp: wf_word_def list_all_iff sep_def ordinary_def dropWhile_append)

lemma gettoken_wf:
  assumes "wf_word w" "sep rest"
  shows "gettoken (32 # w @ rest) = (asc CHR ''a'', w @ rest, rest, dw rest)"
proof -
  obtain c r where w: "w = c # r" "ordinary c" using assms(1) by (cases w) (auto simp: wf_word_def)
  then have "scantok (w @ rest) = (asc CHR ''a'', rest)"
    using dropWhile_word [OF assms] by (auto simp: ordinary_def symbol_def)
  then show ?thesis using dw_word [OF assms(1), of rest] by (simp add: gettoken_def)
qed

section \<open>Redirections and arguments\<close>

abbreviation written :: "pcmd \<Rightarrow> u8 list cmd" where
  "written \<equiv> map_cmd (\<lambda>(q, e). takeWhile ordinary q)"

abbreviation redirections :: "(u8 list \<times> int) list \<Rightarrow> u8 list" where
  "redirections rs \<equiv> concat (map redirection rs)"

definition redirect :: "u8 list cmd \<Rightarrow> u8 list \<times> int \<Rightarrow> u8 list cmd" where
  "redirect c = (\<lambda>(w, fd). REDIR c w (if fd = 0 then 0 else 0x201) fd)"

definition wf_redir :: "u8 list \<times> int \<Rightarrow> bool" where
  "wf_redir = (\<lambda>(w, fd). wf_word w \<and> fd \<in> {0, 1})"

lemma sep_redirections: "sep rest \<Longrightarrow> sep (redirections rs @ rest)"
  by (cases rs) (auto simp: sep_def redirection_def split: prod.split)

lemma sep_words: "sep rest \<Longrightarrow> sep (concat (map ((#) 32) as) @ rest)"
  by (cases as) (auto simp: sep_def)

lemma parseredirs_one:
  assumes "wf_redir (w, fd)" "sep r"
  shows "\<exists>q e. parseredirs cmd (redirection (w, fd) @ r) = parseredirs (REDIR cmd (q, e) (if fd = 0 then 0 else 0x201) fd) (dw r)
    \<and> takeWhile ordinary q = w"
proof -
  have w: "wf_word w" and fd: "fd = 0 \<or> fd = 1" using assms(1) by (auto simp: wf_redir_def)
  let ?c = "if fd = 0 then asc CHR ''<'' else asc CHR ''>'' :: u8"
  let ?s = "32 # w @ r"
  have p: "(True, ?c # ?s) = peek ''<>'' (redirection (w, fd) @ r)"
    by (simp add: redirection_def peek_def ws_def)
  have g: "(?c, ?c # ?s, ?s, dw ?s) = gettoken (?c # ?s)"
    by (simp add: gettoken_def ws_def Let_def)
  have h: "(asc CHR ''a'', w @ r, r, dw r) = gettoken (dw ?s)"
    using gettoken_wf [OF w assms(2)] unfolding gettoken_dw by simp
  show ?thesis
    using parseredirs_more [OF p g h, of cmd] fd takeWhile_word [OF w assms(2)] by auto
qed

lemma parseredirs_chain:
  assumes "list_all wf_redir rs" "stops ''|)&;'' rest"
  shows "\<exists>c. parseredirs cmd (redirections rs @ rest) = Pok c (dw rest)
    \<and> written c = foldl redirect (written cmd) rs"
  using assms(1)
proof (induction rs arbitrary: cmd)
  case Nil
  have "(False, dw rest) = peek ''<>'' rest" using peek_stops [OF assms(2)] by simp
  then show ?case using parseredirs_stop by simp
next
  case (Cons r rs)
  obtain w fd where r: "r = (w, fd)" by force
  have "sep (redirections rs @ rest)" using assms(2) by (auto simp: stops_def intro: sep_redirections)
  with parseredirs_one [of w fd "redirections rs @ rest" cmd] Cons.prems r obtain q e where
    q: "parseredirs cmd (redirections (r # rs) @ rest)
      = parseredirs (REDIR cmd (q, e) (if fd = 0 then 0 else 0x201) fd) (redirections rs @ rest)"
    "takeWhile ordinary q = w" by (auto simp: parse_dw)
  then show ?case
    using Cons.IH [of "REDIR cmd (q, e) (if fd = 0 then 0 else 0x201) fd"] Cons.prems r
    by (simp add: redirect_def)
qed

lemma parseargs_stop:
  assumes "stops ''|)&;'' rest"
  shows "parseargs argc c rest = Pok c (dw rest)"
proof -
  have p: "(dw rest \<noteq> [], dw rest) = peek ''|)&;'' rest"
    using assms unfolding stops_def peek_def Let_def by auto
  show ?thesis
  proof (cases "dw rest")
    case Nil
    have "(0, [], [], []) = gettoken (dw rest)" unfolding Nil by (simp add: gettoken_def)
    from parseargs_step [OF p this] show ?thesis unfolding Nil by simp
  next
    case (Cons a r)
    obtain t q e s where "(t, q, e, s) = gettoken (dw rest)" by (cases "gettoken (dw rest)") auto
    from parseargs_step [OF p this] show ?thesis using Cons by simp
  qed
qed

lemma parse_words:
  assumes "list_all wf_redir rs" "stops ''|)&;'' rest"
  shows "list_all wf_word as \<Longrightarrow> argc + length as < MAXARGS \<Longrightarrow>
    \<exists>c. pbind (parseredirs (EXEC xs) (concat (map ((#) 32) as) @ redirections rs @ rest)) (parseargs argc)
        = Pok c (dw rest)
      \<and> written c = foldl redirect (EXEC (map (\<lambda>(q, e). takeWhile ordinary q) xs @ as)) rs"
proof (induction as arbitrary: argc xs)
  case Nil
  from parseredirs_chain [OF assms, of "EXEC xs"] show ?case
    by (auto simp: parse_dw parseargs_stop [OF assms(2)])
next
  case (Cons w as)
  let ?r = "concat (map ((#) 32) as) @ redirections rs @ rest"
  have w: "wf_word w" "\<exists>c r. w = c # r \<and> ordinary c" using Cons.prems(1) by (auto simp: wf_word_def neq_Nil_conv)
  have sr: "sep ?r" using assms(2) by (auto simp: stops_def intro: sep_words sep_redirections)
  have np: "peek toks (32 # w @ ?r) = (False, w @ ?r)" if "set (bytes toks) \<subseteq> set (bytes ''<|>&;()'')" for toks
    using w(2) that by (auto simp: peek_def ordinary_def symbol_def)
  have g: "(asc CHR ''a'', w @ ?r, ?r, dw ?r) = gettoken (w @ ?r)"
    using gettoken_wf [OF w(1) sr] gettoken_dw [of "32 # w @ ?r"] dw_word [OF w(1)] by simp
  have p: "(False, w @ ?r) = peek ''|)&;'' (w @ ?r)"
    using np [of "''|)&;''"] peek_dw [of "''|)&;''" "32 # w @ ?r"] dw_word [OF w(1)] by simp
  have "pbind (parseredirs (EXEC xs) (concat (map ((#) 32) (w # as)) @ redirections rs @ rest)) (parseargs argc)
      = parseargs argc (EXEC xs) (w @ ?r)"
    using parseredirs_stop [of "w @ ?r" "32 # w @ ?r"] np [of "''<>''"] by simp
  also have "\<dots> = pbind (parseredirs (EXEC (xs @ [(w @ ?r, ?r)])) ?r) (parseargs (Suc argc))"
    unfolding parseargs_step [OF p g] using Cons.prems(2) by (simp add: parse_dw)
  finally show ?case
    using Cons.IH [of "Suc argc" "xs @ [(w @ ?r, ?r)]"] Cons.prems takeWhile_word [OF w(1) sr] by simp
qed

lemma words_no_block:
  assumes "list_all wf_redir rs" "stops ''|)&;'' rest" "list_all wf_word as"
  shows "peek ''('' (concat (map ((#) 32) as) @ redirections rs @ rest)
    = (False, dw (concat (map ((#) 32) as) @ redirections rs @ rest))"
proof (cases as)
  case Nil
  show ?thesis
  proof (cases rs)
    case Nil
    then show ?thesis using peek_stops [OF assms(2), of "''(''"] \<open>as = []\<close> by simp
  next
    case (Cons r rs')
    then show ?thesis using \<open>as = []\<close>
      by (cases r) (auto simp: redirection_def peek_def ws_def)
  qed
next
  case (Cons w as')
  then obtain c r where "w = c # r" "ordinary c" using assms(3) by (auto simp: wf_word_def neq_Nil_conv)
  then show ?thesis using Cons by (auto simp: peek_def ordinary_def symbol_def)
qed

section \<open>The levels of the grammar\<close>

definition L3 :: "u8 list cmd \<Rightarrow> bool" where
  "L3 c \<longleftrightarrow> (\<forall>n rs rest. list_all wf_redir rs \<longrightarrow> stops ''|)&;'' rest
     \<longrightarrow> parseexec n (render 3 c @ redirections rs @ rest) \<noteq> Fuel
     \<longrightarrow> (\<exists>c'. parseexec n (render 3 c @ redirections rs @ rest) = Pok c' (dw rest) \<and> written c' = foldl redirect c rs))"

definition L2 :: "u8 list cmd \<Rightarrow> bool" where
  "L2 c \<longleftrightarrow> (\<forall>n rest. stops '')&;'' rest \<longrightarrow> parsepipe n (render 2 c @ rest) \<noteq> Fuel
     \<longrightarrow> (\<exists>c'. parsepipe n (render 2 c @ rest) = Pok c' (dw rest) \<and> written c' = c))"

definition L1 :: "u8 list cmd \<Rightarrow> bool" where
  "L1 c \<longleftrightarrow> (\<forall>n rest. stops '')&;'' rest \<longrightarrow> parsepipe n (render 1 c @ rest) \<noteq> Fuel
     \<longrightarrow> (\<exists>c0 s0 c'. parsepipe n (render 1 c @ rest) = Pok c0 s0 \<and> parseback c0 s0 = parseback c' rest
           \<and> written c' = c))"

definition L0 :: "u8 list cmd \<Rightarrow> bool" where
  "L0 c \<longleftrightarrow> (\<forall>n rest. stops '')'' rest \<longrightarrow> parseline n (render 0 c @ rest) \<noteq> Fuel
     \<longrightarrow> (\<exists>c'. parseline n (render 0 c @ rest) = Pok c' (dw rest) \<and> written c' = c))"

lemma skip_symbol:
  assumes "c \<in> set (bytes ''|();&<'')"
  shows "skiptoken (c # r) = dw r" "\<not> ws c"
  using assms by (auto simp: gettoken_def ws_def)

lemma parse_nil: "parseexec 0 s = Fuel" "parsepipe 0 s = Fuel" "parseline 0 s = Fuel" "parseblock 0 s = Fuel"
  by simp_all

lemma pbind_left: "pbind m f \<noteq> Fuel \<Longrightarrow> m \<noteq> Fuel"
  by auto

lemma L3_EXEC:
  assumes "wf_cmd (EXEC as)"
  shows "L3 (EXEC as)"
  unfolding L3_def
proof (intro allI impI)
  fix n rs rest
  let ?s = "concat (map ((#) 32) as) @ redirections rs @ rest"
  assume a: "list_all wf_redir rs" "stops ''|)&;'' rest" "parseexec n (render 3 (EXEC as) @ redirections rs @ rest) \<noteq> Fuel"
  then obtain m where n: "n = Suc m" by (cases n) auto
  have "peek ''('' ?s = (False, dw ?s)" by (rule words_no_block [OF a(1,2)]) (use assms in simp)
  then show "\<exists>c'. parseexec n (render 3 (EXEC as) @ redirections rs @ rest) = Pok c' (dw rest) \<and> written c' = foldl redirect (EXEC as) rs"
    using parse_words [OF a(1,2), of as 0 "[]"] assms unfolding n by (simp add: parse_dw)
qed

lemma L3_REDIR:
  assumes "L3 c" "wf_cmd (REDIR c w m fd)"
  shows "L3 (REDIR c w m fd)"
  unfolding L3_def
proof (intro allI impI)
  fix n rs rest
  assume a: "list_all wf_redir rs" "stops ''|)&;'' rest"
    "parseexec n (render 3 (REDIR c w m fd) @ redirections rs @ rest) \<noteq> Fuel"
  have "list_all wf_redir ((w, fd) # rs)" using a(1) assms(2) by (auto simp: wf_redir_def)
  moreover have "redirect c (w, fd) = REDIR c w m fd" using assms(2) by (auto simp: redirect_def)
  ultimately show "\<exists>c'. parseexec n (render 3 (REDIR c w m fd) @ redirections rs @ rest) = Pok c' (dw rest)
      \<and> written c' = foldl redirect (REDIR c w m fd) rs"
    using assms(1) [unfolded L3_def, rule_format, of "(w, fd) # rs" rest n] a(2,3) by simp
qed

lemma L2_L3:
  assumes "L3 c" "render 2 c = render 3 c"
  shows "L2 c"
  unfolding L2_def
proof (intro allI impI)
  fix n rest
  assume a: "stops '')&;'' rest" "parsepipe n (render 2 c @ rest) \<noteq> Fuel"
  then obtain m where n: "n = Suc m" by (cases n) auto
  have s: "stops ''|)&;'' rest" by (rule stops_weaken [OF a(1)]) auto
  obtain c' where c': "parseexec m (render 2 c @ rest) = Pok c' (dw rest)" "written c' = c"
    using assms(1) [unfolded L3_def, rule_format, of "[]" rest m] s pbind_left [OF a(2) [unfolded n parsepipe.simps]]
    unfolding assms(2) by auto
  then show "\<exists>c'. parsepipe n (render 2 c @ rest) = Pok c' (dw rest) \<and> written c' = c"
    using peek_stops [OF a(1), of "''|''"] unfolding n by simp
qed

lemma L2_PIPE:
  assumes "L3 a" "L2 b"
  shows "L2 (PIPE a b)"
  unfolding L2_def
proof (intro allI impI)
  fix n rest
  let ?r = "32 # asc CHR ''|'' # render 2 b @ rest"
  assume s: "stops '')&;'' rest" and f: "parsepipe n (render 2 (PIPE a b) @ rest) \<noteq> Fuel"
  then obtain m where n: "n = Suc m" by (cases n) auto
  have l: "render 2 (PIPE a b) @ rest = render 3 a @ redirections [] @ ?r" by (simp add: paren_def)
  have r: "stops ''|)&;'' ?r" "peek ''|'' ?r = (True, dw ?r)" "skiptoken (dw ?r) = dw (render 2 b @ rest)"
    by (simp_all add: stops_def sep_def peek_def ws_def gettoken_def)
  have "parseexec m (render 3 a @ redirections [] @ ?r) \<noteq> Fuel"
    using pbind_left [OF f [unfolded n l parsepipe.simps]] .
  then obtain a' where a': "parseexec m (render 3 a @ redirections [] @ ?r) = Pok a' (dw ?r)" "written a' = a"
    using assms(1) [unfolded L3_def, rule_format, of "[]" ?r m] r(1) by auto
  have e: "parsepipe n (render 2 (PIPE a b) @ rest)
      = pbind (parsepipe m (render 2 b @ rest)) (\<lambda>r. Pok (PIPE a' r))"
    unfolding n l parsepipe.simps a'(1) pbind_simps peek_dw r(2) Let_def case_prod_conv if_True r(3) parse_dw ..
  then have "parsepipe m (render 2 b @ rest) \<noteq> Fuel" using f by auto
  then show "\<exists>c'. parsepipe n (render 2 (PIPE a b) @ rest) = Pok c' (dw rest) \<and> written c' = PIPE a b"
    using assms(2) [unfolded L2_def, rule_format, OF s, of m] a'(2) unfolding e by auto
qed

lemma L1_L2:
  assumes "L2 c" "render 1 c = render 2 c"
  shows "L1 c"
  using assms(1) unfolding L1_def L2_def assms(2) by (metis parse_dw(3))

lemma L1_BACK:
  assumes "L1 c"
  shows "L1 (BACK c)"
  unfolding L1_def
proof (intro allI impI)
  fix n rest
  let ?r = "32 # asc CHR ''&'' # rest"
  assume s: "stops '')&;'' rest" and f: "parsepipe n (render 1 (BACK c) @ rest) \<noteq> Fuel"
  have l: "render 1 (BACK c) @ rest = render 1 c @ ?r" by (simp add: paren_def)
  have r: "stops '')&;'' ?r" "(True, dw ?r) = peek ''&'' ?r" "skiptoken (dw ?r) = dw rest"
    by (simp_all add: stops_def sep_def peek_def ws_def gettoken_def)
  from assms [unfolded L1_def, rule_format, OF r(1) f [unfolded l]] obtain c0 s0 c' where
    c': "parsepipe n (render 1 c @ ?r) = Pok c0 s0" "parseback c0 s0 = parseback c' ?r" "written c' = c" by blast
  have "parseback c' ?r = parseback (BACK c') rest"
    unfolding parseback_step [OF r(2)] r(3) parse_dw by simp
  then show "\<exists>c0 s0 c'. parsepipe n (render 1 (BACK c) @ rest) = Pok c0 s0
      \<and> parseback c0 s0 = parseback c' rest \<and> written c' = BACK c"
    unfolding l using c' by (intro exI [of _ c0] exI [of _ s0] exI [of _ "BACK c'"]) simp
qed

lemma parseback_stop: "stops toks rest \<Longrightarrow> asc CHR ''&'' \<notin> set (bytes toks) \<Longrightarrow> parseback c rest = Pok c (dw rest)"
  using parseback_step [of False "dw rest" rest] peek_stops [of toks rest "''&''"] by simp

lemma L0_L1:
  assumes "L1 c" "render 0 c = render 1 c"
  shows "L0 c"
  unfolding L0_def
proof (intro allI impI)
  fix n rest
  assume s: "stops '')'' rest" and f: "parseline n (render 0 c @ rest) \<noteq> Fuel"
  then obtain m where n: "n = Suc m" by (cases n) auto
  have s': "stops '')&;'' rest" by (rule stops_weaken [OF s]) auto
  from assms(1) [unfolded L1_def, rule_format, OF s' pbind_left [OF f [unfolded n parseline.simps assms(2)]]]
  obtain c0 s0 c' where c': "parsepipe m (render 1 c @ rest) = Pok c0 s0" "parseback c0 s0 = parseback c' rest"
    "written c' = c" by blast
  have "parseback c' rest = Pok c' (dw rest)" by (rule parseback_stop [OF s]) simp
  then show "\<exists>c'. parseline n (render 0 c @ rest) = Pok c' (dw rest) \<and> written c' = c"
    using c' peek_stops [OF s, of "'';''"] unfolding n assms(2) by simp
qed

lemma L0_LIST:
  assumes "L1 a" "L0 b"
  shows "L0 (LIST a b)"
  unfolding L0_def
proof (intro allI impI)
  fix n rest
  let ?r = "32 # asc CHR '';'' # render 0 b @ rest"
  assume s: "stops '')'' rest" and f: "parseline n (render 0 (LIST a b) @ rest) \<noteq> Fuel"
  then obtain m where n: "n = Suc m" by (cases n) auto
  have l: "render 0 (LIST a b) @ rest = render 1 a @ ?r" by (simp add: paren_def)
  have r: "stops '';'' ?r" "stops '')&;'' ?r" "peek '';'' ?r = (True, dw ?r)" "skiptoken (dw ?r) = dw (render 0 b @ rest)"
    by (simp_all add: stops_def sep_def peek_def ws_def gettoken_def)
  from assms(1) [unfolded L1_def, rule_format, OF r(2) pbind_left [OF f [unfolded n l parseline.simps]]]
  obtain a0 s0 a' where a': "parsepipe m (render 1 a @ ?r) = Pok a0 s0" "parseback a0 s0 = parseback a' ?r"
    "written a' = a" by blast
  have "parseback a' ?r = Pok a' (dw ?r)" by (rule parseback_stop [OF r(1)]) simp
  then have e: "parseline n (render 0 (LIST a b) @ rest) = pbind (parseline m (render 0 b @ rest)) (\<lambda>r. Pok (LIST a' r))"
    unfolding n l parseline.simps a'(1,2) pbind_simps by (simp only: pbind_simps peek_dw r(3,4) Let_def case_prod_conv if_True parse_dw)
  then have "parseline m (render 0 b @ rest) \<noteq> Fuel" using f by auto
  then show "\<exists>c'. parseline n (render 0 (LIST a b) @ rest) = Pok c' (dw rest) \<and> written c' = LIST a b"
    using assms(2) [unfolded L0_def, rule_format, OF s, of m] a'(3) unfolding e by auto
qed

lemma L3_L0:
  assumes "L0 c" "render 3 c = paren True (render 0 c)"
  shows "L3 c"
  unfolding L3_def
proof (intro allI impI)
  fix n rs rest
  let ?t = "redirections rs @ rest"
  let ?r = "32 # asc CHR '')'' # ?t"
  let ?s = "asc CHR ''('' # render 0 c @ ?r"
  assume rs: "list_all wf_redir rs" "stops ''|)&;'' rest" and f: "parseexec n (render 3 c @ ?t) \<noteq> Fuel"
  have l: "render 3 c @ ?t = 32 # ?s" unfolding assms(2) by (simp add: paren_def)
  have p: "peek ''('' (32 # ?s) = (True, ?s)" "peek ''('' ?s = (True, ?s)" "skiptoken ?s = dw (render 0 c @ ?r)"
    by (simp_all add: peek_def ws_def gettoken_def)
  have r: "stops '')'' ?r" "peek '')'' ?r = (True, dw ?r)" "skiptoken (dw ?r) = dw ?t"
    by (simp_all add: stops_def sep_def peek_def ws_def gettoken_def)
  have "parseexec 0 (32 # ?s) = Fuel" "parseexec (Suc 0) (32 # ?s) = Fuel"
    unfolding parseexec.simps p(1) by simp_all
  then obtain m where n: "n = Suc (Suc m)" using f unfolding l by (metis not0_implies_Suc)
  have e: "parseexec n (render 3 c @ ?t) = pbind (parseline m (render 0 c @ ?r)) (\<lambda>cmd s.
       let (closed, s) = peek '')'' s in
       if \<not> closed then Perr ''syntax - missing )'' else parseredirs cmd (skiptoken s))"
    unfolding n l parseexec.simps parseblock.simps p Let_def case_prod_conv if_True not_True_eq_False if_False parse_dw ..
  from assms(1) [unfolded L0_def, rule_format, OF r(1) pbind_left [OF f [unfolded e]]] obtain c' where
    c': "parseline m (render 0 c @ ?r) = Pok c' (dw ?r)" "written c' = c" by blast
  have "parseexec n (render 3 c @ ?t) = parseredirs c' ?t"
    unfolding e c'(1) by (simp only: pbind_simps peek_dw r(2,3) Let_def case_prod_conv not_True_eq_False if_False parse_dw)
  with parseredirs_chain [OF rs, of c'] c'(2)
  show "\<exists>c'. parseexec n (render 3 c @ ?t) = Pok c' (dw rest) \<and> written c' = foldl redirect c rs" by simp
qed

lemma levels: "wf_cmd c \<Longrightarrow> L0 c \<and> L1 c \<and> L2 c \<and> L3 c"
proof (induction c)
  case (EXEC as)
  then have "L3 (EXEC as)" by (rule L3_EXEC)
  moreover from L2_L3 [OF this] have "L2 (EXEC as)" by simp
  moreover from L1_L2 [OF this] have "L1 (EXEC as)" by simp
  ultimately show ?case using L0_L1 by simp
next
  case (REDIR c w m fd)
  then have "L3 (REDIR c w m fd)" by (intro L3_REDIR) auto
  moreover from L2_L3 [OF this] have "L2 (REDIR c w m fd)" by simp
  moreover from L1_L2 [OF this] have "L1 (REDIR c w m fd)" by simp
  ultimately show ?case using L0_L1 by simp
next
  case (PIPE a b)
  then have "L2 (PIPE a b)" by (intro L2_PIPE) auto
  moreover from L1_L2 [OF this] have "L1 (PIPE a b)" by (simp add: paren_def)
  moreover from L0_L1 [OF this] have "L0 (PIPE a b)" by (simp add: paren_def)
  ultimately show ?case using L3_L0 by (simp add: paren_def)
next
  case (LIST a b)
  then have "L0 (LIST a b)" by (intro L0_LIST) auto
  moreover from L3_L0 [OF this] have "L3 (LIST a b)" by (simp add: paren_def)
  moreover from L2_L3 [OF this] have "L2 (LIST a b)" by (simp add: paren_def)
  ultimately show ?case using L1_L2 by (simp add: paren_def)
next
  case (BACK a)
  then have "L1 (BACK a)" by (intro L1_BACK) auto
  moreover from L0_L1 [OF this] have "L0 (BACK a)" by (simp add: paren_def)
  moreover from L3_L0 [OF this] have "L3 (BACK a)" by (simp add: paren_def)
  ultimately show ?case using L2_L3 by (simp add: paren_def)
qed

lemma render_no_nul: "wf_cmd c \<Longrightarrow> 0 \<notin> set (render l c)"
  by (induction l c rule: render.induct)
    (auto simp: paren_def redirection_def wf_word_def list_all_iff)

lemma parsecmd_rendered:
  assumes "wf_cmd c"
  shows "\<exists>cmd buf'. parsecmd (render 0 c @ 0 # rest) = Pok (cmd, buf') [] \<and> written cmd = c"
proof -
  let ?s = "render 0 c"
  have t: "takeWhile (\<lambda>c. c \<noteq> 0) (?s @ 0 # rest) = ?s"
    using render_no_nul [OF assms, of 0] by (simp add: takeWhile_append takeWhile_tail)
  have "L0 c" using levels [OF assms] by blast
  moreover have "parseline (4 * length ?s + 4) (?s @ []) \<noteq> Fuel" using parse_ends [of ?s] by simp
  moreover have "stops '')'' []" by (simp add: stops_def sep_def)
  ultimately obtain cmd where "parseline (4 * length ?s + 4) ?s = Pok cmd []" "written cmd = c"
    unfolding L0_def by fastforce
  then show ?thesis unfolding parsecmd_def t Let_def by (simp add: peek_def)
qed

section \<open>The round trip\<close>

text \<open>
  C11. Every command tree, with words of ordinary bytes, at most nine arguments for each program and the
  redirections the shell has, is what \<open>parsecmd\<close> returns for the line that \<open>render\<close> writes for it: the nesting
  of the operators, parentheses, redirections and the strings of the words all come back.
\<close>

theorem parsecmd_render:
  assumes "wf_cmd c"
  shows "\<exists>cmd buf'. parsecmd (render 0 c @ 0 # rest) = Pok (cmd, buf') []
    \<and> map_cmd (\<lambda>(q, e). cstring buf' (ptr_ix (length (render 0 c)) q)) cmd = c"
proof -
  have t: "takeWhile (\<lambda>c. c \<noteq> 0) (render 0 c @ 0 # rest) = render 0 c"
    using render_no_nul [OF assms, of 0] by (simp add: takeWhile_append takeWhile_tail)
  obtain cmd buf' where r: "parsecmd (render 0 c @ 0 # rest) = Pok (cmd, buf') []" "written cmd = c"
    using parsecmd_rendered [OF assms] by blast
  from parsecmd_strings [OF r(1)] r show ?thesis unfolding t by auto
qed

theorem parsecmd_render_witness:
  "\<exists>cmd buf'. parsecmd (bytes '' ls | wc -l > f & ; a ;'' @ [0]) = Pok (cmd, buf') []
    \<and> map_cmd (\<lambda>(q, e). cstring buf' (ptr_ix 23 q)) cmd
      = LIST (BACK (PIPE (EXEC [bytes ''ls'']) (REDIR (EXEC [bytes ''wc'', bytes ''-l'']) (bytes ''f'') 0x201 1)))
          (LIST (EXEC [bytes ''a'']) (EXEC []))"
proof -
  let ?c = "LIST (BACK (PIPE (EXEC [bytes ''ls'']) (REDIR (EXEC [bytes ''wc'', bytes ''-l'']) (bytes ''f'') 0x201 1)))
    (LIST (EXEC [bytes ''a'']) (EXEC []))"
  have "wf_cmd ?c" by (simp add: wf_word_def ordinary_def ws_def symbol_def)
  note w = parsecmd_render [OF this, of "[]"]
  have r: "render 0 ?c = bytes '' ls | wc -l > f & ; a ;''" by (simp add: paren_def redirection_def)
  have l: "length (render 0 ?c) = 23" unfolding r by simp
  from w [unfolded l, unfolded r] show ?thesis .
qed

end
