(* ===== verification/Vm_Map.thy ===== *)
theory Vm_Map
  imports Vm
begin

text \<open>
  What the page table code of \<open>src/vm.c\<close> does to address translation: \<open>walkpgdir\<close> finds or creates the entry of
  an address without changing any mapping, and \<open>mappages\<close> maps exactly the pages of its range. The
  page directory and its tables stay disjoint pages that are not on the free list.
\<close>

section \<open>Indices\<close>

lemma unat_PDX: "unat (PDX va) = unat va div 2 ^ 22"
proof -
  have "(0x3FF :: u32) = mask 10" by (simp add: mask_eq_exp_minus_1)
  then have "PDX va = take_bit 10 (drop_bit 22 va)" by (simp add: PDX_def take_bit_eq_mask)
  also have "\<dots> = drop_bit 22 va" by (rule bit_word_eqI) (auto simp: bit_simps dest: bit_imp_le_length)
  finally show ?thesis by (simp add: drop_bit_eq_div unat_div_distrib)
qed

lemma unat_PTX: "unat (PTX va) = unat va div 4096 mod 1024"
proof -
  have "(0x3FF :: u32) = mask 10" by (simp add: mask_eq_exp_minus_1)
  then have "PTX va = take_bit 10 (drop_bit 12 va)" by (simp add: PTX_def take_bit_eq_mask)
  then show ?thesis by (simp add: take_bit_eq_mod drop_bit_eq_div unat_mod unat_div_distrib)
qed

lemma index_less: "PDX va < 1024" "PTX va < 1024"
proof -
  have "unat va div 2 ^ 22 < 1024" using unat_u32_bound [of va] by simp
  then show "PDX va < 1024" unfolding word_less_nat_alt unat_PDX by simp
  show "PTX va < 1024" unfolding word_less_nat_alt unat_PTX by simp
qed

text \<open>The number of the page that an address lies in.\<close>

definition vpn :: "u32 \<Rightarrow> nat" where
  "vpn va = unat va div 4096"

lemma same_index: "PDX a = PDX b \<and> PTX a = PTX b \<longleftrightarrow> vpn a = vpn b"
proof -
  have "unat a div 2 ^ 22 = unat a div 4096 div 1024" for a :: u32 by (simp add: div_mult2_eq [symmetric])
  then have e: "vpn a = unat (PDX a) * 1024 + unat (PTX a)" for a
    unfolding vpn_def unat_PDX unat_PTX by (simp only: div_mult_mod_eq)
  have l: "unat (PTX a) < 1024" for a using index_less(2) [of a] by (simp add: word_less_nat_alt)
  have d: "vpn a div 1024 = unat (PDX a)" "vpn a mod 1024 = unat (PTX a)" for a
    unfolding e using l [of a] by simp_all
  show ?thesis unfolding word_unat_eq_iff d [symmetric] by (metis div_mult_mod_eq)
qed

section \<open>Words in memory\<close>

lemma aligned_word:
  assumes "a mod 4 = (0 :: u32)" "j < 4"
  shows "unat (a + word_of_nat j) div 4 = unat a div 4"
proof -
  have "unat a mod 4 = 0" using assms(1) unat_mod [of a 4] by simp
  then obtain q where q: "unat a = 4 * q" by blast
  then have "q < 1073741824" using unat_u32_bound [of a] by simp
  then have "unat (a + word_of_nat j) = 4 * q + j" using assms(2) q by (simp add: unat_word_ariths unat_of_nat)
  then show ?thesis using assms(2) q by simp
qed

lemma aligned_apart:
  assumes "a mod 4 = (0 :: u32)" "b mod 4 = 0" "a \<noteq> b" "j < 4" "k < 4"
  shows "a + word_of_nat j \<noteq> b + word_of_nat k"
proof
  assume "a + word_of_nat j = b + word_of_nat k"
  then have "unat a div 4 = unat b div 4" using aligned_word assms by metis
  moreover have "unat a mod 4 = 0" "unat b mod 4 = 0" using assms(1,2) unat_mod [of a 4] unat_mod [of b 4] by simp_all
  ultimately have "unat a = unat b" by (metis div_mult_mod_eq)
  then show False using assms(3) by (simp add: word_unat_eq_iff)
qed

lemma load32_store32_other:
  assumes "a mod 4 = 0" "b mod 4 = 0" "a \<noteq> b"
  shows "load32 (store32 m a v) b = load32 m b"
proof -
  have "b + word_of_nat k \<notin> {a, a + 1, a + 2, a + 3}" if "k < 4" for k
    using aligned_apart [OF assms, of 0 k] aligned_apart [OF assms, of 1 k] aligned_apart [OF assms, of 2 k]
      aligned_apart [OF assms, of 3 k] that by auto
  from this [of 0] this [of 1] this [of 2] this [of 3]
  show ?thesis by (simp add: load32_def store32_def)
qed

text \<open>The entry \<open>i\<close> of a table in the page \<open>p\<close>.\<close>

lemma entry_address:
  assumes "p mod PGSIZE = 0" "i < (1024 :: u32)"
  shows "(p + 4 * i) mod 4 = 0" "\<And>j. j < 4 \<Longrightarrow> in_page p (p + 4 * i + word_of_nat j)"
    "\<And>k. k < (1024 :: u32) \<Longrightarrow> p + 4 * i = p + 4 * k \<longleftrightarrow> i = k"
proof -
  have i: "unat i < 1024" using assms(2) by (simp add: word_less_nat_alt)
  then have u: "unat (4 * i) = 4 * unat i" by (simp add: unat_word_ariths)
  have p: "unat p mod 4096 = 0" using assms(1) unat_mod [of p 4096] by simp
  then obtain q where q: "unat p = 4096 * q" by blast
  then have "q < 1048576" using unat_u32_bound [of p] by simp
  then have "unat (p + 4 * i) = 4 * (1024 * q + unat i)" using u i q by (simp add: unat_word_ariths)
  then have "unat ((p + 4 * i) mod 4) = 0" unfolding unat_mod by simp
  then show "(p + 4 * i) mod 4 = 0" by (simp add: unat_eq_zero)
  show "in_page p (p + 4 * i + word_of_nat j)" if "j < 4" for j
  proof -
    have "unat (4 * i + word_of_nat j :: u32) = 4 * unat i + j" using u i that by (simp add: unat_word_ariths unat_of_nat)
    then have "4 * i + word_of_nat j < (4096 :: u32)" using i that by (simp add: word_less_nat_alt)
    then show ?thesis by (simp add: in_page_def)
  qed
  show "p + 4 * i = p + 4 * k \<longleftrightarrow> i = k" if "k < (1024 :: u32)" for k
  proof
    assume "p + 4 * i = p + 4 * k"
    then have "unat (4 * i) = unat (4 * k)" by simp
    moreover have "unat k < 1024" using that by (simp add: word_less_nat_alt)
    then have "unat (4 * k) = 4 * unat k" by (simp add: unat_word_ariths)
    ultimately show "i = k" using u by (simp add: word_unat_eq_iff)
  qed simp
qed

section \<open>Page tables\<close>

abbreviation present :: "u32 \<Rightarrow> bool" where "present e \<equiv> e AND PTE_V \<noteq> 0"

definition pde :: "mem \<Rightarrow> u32 \<Rightarrow> u32 \<Rightarrow> u32" where
  "pde m pgdir i = load32 m (pgdir + 4 * i)"

definition table :: "u32 \<Rightarrow> u32" where
  "table e = p2v (PTE_ADDR e)"

text \<open>The page table entry with the two indices, zero when its table does not exist.\<close>

definition pte :: "mem \<Rightarrow> u32 \<Rightarrow> u32 \<Rightarrow> u32 \<Rightarrow> u32" where
  "pte m pgdir i j = (if present (pde m pgdir i) then load32 m (table (pde m pgdir i) + 4 * j) else 0)"

abbreviation mapping :: "mem \<Rightarrow> u32 \<Rightarrow> u32 \<Rightarrow> u32" where
  "mapping m pgdir va \<equiv> pte m pgdir (PDX va) (PTX va)"

text \<open>A page directory whose tables are distinct pages that nobody else owns; \<open>ps\<close> is the free list.\<close>

definition tables_ok :: "u32 \<Rightarrow> mem \<Rightarrow> u32 \<Rightarrow> u32 list \<Rightarrow> bool" where
  "tables_ok kend m pgdir ps \<longleftrightarrow> page_ok kend pgdir \<and> pgdir \<notin> set ps \<and>
    (\<forall>i < 1024. present (pde m pgdir i) \<longrightarrow>
      page_ok kend (table (pde m pgdir i)) \<and> table (pde m pgdir i) \<notin> insert pgdir (set ps)) \<and>
    (\<forall>i < 1024. \<forall>k < 1024. present (pde m pgdir i) \<longrightarrow> present (pde m pgdir k) \<longrightarrow>
      table (pde m pgdir i) = table (pde m pgdir k) \<longrightarrow> i = k)"

lemma tables_okD:
  assumes "tables_ok kend m pgdir ps"
  shows "page_ok kend pgdir" "pgdir \<notin> set ps" "pgdir mod PGSIZE = 0"
    "\<And>i. i < 1024 \<Longrightarrow> present (pde m pgdir i) \<Longrightarrow> page_ok kend (table (pde m pgdir i)) \<and> table (pde m pgdir i) mod PGSIZE = 0 \<and>
      table (pde m pgdir i) \<noteq> pgdir \<and> table (pde m pgdir i) \<notin> set ps"
    "\<And>i k. i < 1024 \<Longrightarrow> k < 1024 \<Longrightarrow> present (pde m pgdir i) \<Longrightarrow> present (pde m pgdir k) \<Longrightarrow>
      table (pde m pgdir i) = table (pde m pgdir k) \<Longrightarrow> i = k"
  using assms page_ok_aligned by (auto simp: tables_ok_def)

lemma entry_cong:
  assumes "p mod PGSIZE = 0" "i < 1024" "\<And>a. in_page p a \<Longrightarrow> m' a = m a"
  shows "load32 m' (p + 4 * i) = load32 m (p + 4 * i)"
  using entry_address(2) [OF assms(1,2), of 0] entry_address(2) [OF assms(1,2), of 1] entry_address(2) [OF assms(1,2), of 2]
    entry_address(2) [OF assms(1,2), of 3] assms(3) by (simp add: load32_def)

lemma rep_write:
  assumes "kmem_rep kend s ps" "page_ok kend v" "v \<notin> set ps" "\<And>a. \<not> in_page v a \<Longrightarrow> m' a = memory s a"
  shows "kmem_rep kend (s \<lparr> memory := m' \<rparr>) ps"
proof -
  have "runs m' (freelist s) ps = runs (memory s) (freelist s) ps"
    by (rule runs_memory_other [OF _ assms(2,3,4)]) (use assms(1) in \<open>auto simp: kmem_rep_def\<close>)
  then show ?thesis using assms(1) by (simp add: kmem_rep_def klock_ok_def)
qed

lemma store_outside:
  assumes "p mod PGSIZE = 0" "i < 1024" "\<not> in_page p a"
  shows "store32 m (p + 4 * i) v a = m a"
  using entry_address(2) [OF assms(1,2), of 0] entry_address(2) [OF assms(1,2), of 1] entry_address(2) [OF assms(1,2), of 2]
    entry_address(2) [OF assms(1,2), of 3] assms(3) by (auto simp: store32_def)

section \<open>Storing an entry\<close>

lemma store_pte:
  fixes v :: u32
  assumes ok: "tables_ok kend m pgdir ps" and ij: "i < 1024" "j < 1024" and pr: "present (pde m pgdir i)"
  defines "m' \<equiv> store32 m (table (pde m pgdir i) + 4 * j) v"
  shows "\<And>k. k < 1024 \<Longrightarrow> pde m' pgdir k = pde m pgdir k" "tables_ok kend m' pgdir ps"
    "\<And>k l. k < 1024 \<Longrightarrow> l < 1024 \<Longrightarrow> pte m' pgdir k l = (if k = i \<and> l = j then v else pte m pgdir k l)"
proof -
  note d = tables_okD [OF ok]
  let ?t = "table (pde m pgdir i)"
  have t: "?t mod PGSIZE = 0" "?t \<noteq> pgdir" using d(4) [OF ij(1) pr] by auto
  have out: "m' a = m a" if "\<not> in_page ?t a" for a unfolding m'_def by (rule store_outside [OF t(1) ij(2) that])
  show p: "pde m' pgdir k = pde m pgdir k" if "k < 1024" for k
    unfolding pde_def by (rule entry_cong [OF d(3) that]) (rule out [OF pages_apart [OF d(3) t(1) t(2) [symmetric]]])
  then show "tables_ok kend m' pgdir ps" using ok by (simp add: tables_ok_def)
  fix k l :: u32
  assume kl: "k < 1024" "l < 1024"
  show "pte m' pgdir k l = (if k = i \<and> l = j then v else pte m pgdir k l)"
  proof (cases "present (pde m pgdir k)")
    case False
    then show ?thesis using p [OF kl(1)] pr by (auto simp: pte_def)
  next
    case True
    show ?thesis
    proof (cases "k = i")
      case k: True
      have "load32 m' (?t + 4 * l) = (if l = j then v else load32 m (?t + 4 * l))"
        using load32_store32_other [OF entry_address(1) [OF t(1) ij(2)] entry_address(1) [OF t(1) kl(2)]]
          entry_address(3) [OF t(1) ij(2) kl(2)] by (auto simp: m'_def)
      then show ?thesis using p [OF ij(1)] pr k by (auto simp: pte_def)
    next
      case False
      have tk: "table (pde m pgdir k) mod PGSIZE = 0" "table (pde m pgdir k) \<noteq> ?t"
        using d(4) [OF kl(1) True] d(5) [OF kl(1) ij(1) True pr] False by auto
      have "load32 m' (table (pde m pgdir k) + 4 * l) = load32 m (table (pde m pgdir k) + 4 * l)"
        by (rule entry_cong [OF tk(1) kl(2)]) (rule out [OF pages_apart [OF tk(1) t(1) tk(2)]])
      then show ?thesis using p [OF kl(1)] True False by (simp add: pte_def)
    qed
  qed
qed

section \<open>Adding a table\<close>

lemma PTE_ADDR_flags:
  assumes "a mod PGSIZE = 0" "f AND NOT 0xFFF = 0"
  shows "PTE_ADDR (a OR f) = a"
proof -
  have "PTE_ADDR (a OR f) = PGROUNDDOWN a OR (f AND NOT 0xFFF)"
    by (simp add: PTE_ADDR_def PGROUNDDOWN_def bit.conj_disj_distrib2)
  then show ?thesis using assms by (simp add: PGROUNDDOWN_minus)
qed

definition table_entry :: "u32 \<Rightarrow> u32" where
  "table_entry t = v2p t OR PTE_V OR PTE_PP_RWRW OR PTE_EX"

lemma table_entry:
  assumes "t mod PGSIZE = 0"
  shows "table (table_entry t) = t" "present (table_entry t)"
proof -
  have "unat (t - 0x80000000) = (if 0x80000000 \<le> unat t then unat t - 0x80000000 else unat t + 0x80000000)"
    by (simp add: unat_sub_if_size word_size)
  moreover have "4096 dvd unat t" using assms by (simp only: page_aligned_unat)
  moreover have "(4096 :: nat) dvd 0x80000000" by simp
  ultimately have "4096 dvd unat (v2p t)" unfolding v2p_def by (metis dvd_add dvd_diff_nat)
  then have "v2p t mod PGSIZE = 0" by (simp only: page_aligned_unat)
  then have "PTE_ADDR (table_entry t) = v2p t" unfolding table_entry_def by (rule PTE_ADDR_flags) simp
  then show "table (table_entry t) = t" by (simp add: table_def p2v_def v2p_def)
  show "present (table_entry t)" by (simp add: table_entry_def and_one_eq even_or_iff odd_iff_mod_2_eq_one [symmetric])
qed

lemma add_table:
  assumes ok: "tables_ok kend m pgdir (t # ps)" and t: "page_ok kend t" "t \<notin> set ps"
    and i: "i < 1024" and abs: "\<not> present (pde m pgdir i)"
  defines "m' \<equiv> store32 (memset m t 0 PGSIZE) (pgdir + 4 * i) (table_entry t)"
  shows "\<And>k. k < 1024 \<Longrightarrow> pde m' pgdir k = (if k = i then table_entry t else pde m pgdir k)"
    "tables_ok kend m' pgdir ps"
    "\<And>k l. k < 1024 \<Longrightarrow> l < 1024 \<Longrightarrow> pte m' pgdir k l = pte m pgdir k l"
proof -
  note d = tables_okD [OF ok]
  have t': "t mod PGSIZE = 0" "t \<noteq> pgdir" using t d(2) page_ok_aligned by auto
  have zero: "memset m t 0 PGSIZE a = (if in_page t a then 0 else m a)" for a by (simp add: memset_fill in_page_def)
  show p: "pde m' pgdir k = (if k = i then table_entry t else pde m pgdir k)" if "k < 1024" for k
  proof (cases "k = i")
    case False
    have "pde m' pgdir k = load32 (memset m t 0 PGSIZE) (pgdir + 4 * k)" unfolding pde_def m'_def
      by (rule load32_store32_other [OF entry_address(1) [OF d(3) i] entry_address(1) [OF d(3) that]])
        (use entry_address(3) [OF d(3) i that] False in simp)
    also have "\<dots> = pde m pgdir k" unfolding pde_def
      by (rule entry_cong [OF d(3) that]) (use zero pages_apart [OF d(3) t'(1) t'(2) [symmetric]] in simp)
    finally show ?thesis using False by simp
  qed (simp add: pde_def m'_def)
  note e = table_entry [OF t'(1)]
  show "tables_ok kend m' pgdir ps" unfolding tables_ok_def
  proof (intro conjI allI impI)
    show "page_ok kend pgdir" "pgdir \<notin> set ps" using d(1,2) by auto
  next
    fix k assume k: "k < 1024" "present (pde m' pgdir k)"
    show "page_ok kend (table (pde m' pgdir k))" using p [OF k(1)] k e t d(4) [OF k(1)] by (simp split: if_splits)
    show "table (pde m' pgdir k) \<notin> insert pgdir (set ps)"
      using p [OF k(1)] k e t t' d(4) [OF k(1)] by (simp split: if_splits)
  next
    fix k l assume kl: "k < 1024" "l < 1024" "present (pde m' pgdir k)" "present (pde m' pgdir l)"
      "table (pde m' pgdir k) = table (pde m' pgdir l)"
    show "k = l" using p [OF kl(1)] p [OF kl(2)] kl e d(4) [OF kl(1)] d(4) [OF kl(2)] d(5) [OF kl(1,2)]
      by (auto split: if_splits)
  qed
  have out: "m' a = m a" if "\<not> in_page t a" "\<not> in_page pgdir a" for a
    using store_outside [OF d(3) i that(2)] that(1) zero by (simp add: m'_def)
  fix k l :: u32
  assume kl: "k < 1024" "l < 1024"
  show "pte m' pgdir k l = pte m pgdir k l"
  proof (cases "k = i")
    case True
    have "load32 m' (t + 4 * l) = load32 (\<lambda>_. 0) (t + 4 * l)"
    proof (rule entry_cong [OF t'(1) kl(2)])
      fix a assume "in_page t a"
      then show "m' a = 0" using store_outside [OF d(3) i pages_apart [OF t'(1) d(3) t'(2)]] zero by (simp add: m'_def)
    qed
    then have "load32 m' (t + 4 * l) = 0" by (simp add: load32_def)
    then show ?thesis using True p [OF kl(1)] e abs by (simp add: pte_def)
  next
    case False
    note q = d(4) [OF kl(1)]
    have "load32 m' (table (pde m pgdir k) + 4 * l) = load32 m (table (pde m pgdir k) + 4 * l)" if "present (pde m pgdir k)"
    proof (rule entry_cong [OF _ kl(2)])
      show z: "table (pde m pgdir k) mod PGSIZE = 0" using q [OF that] by simp
      fix a assume "in_page (table (pde m pgdir k)) a"
      then show "m' a = m a" using q [OF that] by (intro out pages_apart [OF z _ _, of _ a] t'(1) d(3)) auto
    qed
    then show ?thesis using False p [OF kl(1)] by (simp add: pte_def)
  qed
qed

section \<open>Walking and mapping\<close>

definition grown :: "u32 \<Rightarrow> u32 \<Rightarrow> kmem \<Rightarrow> u32 list \<Rightarrow> kmem \<Rightarrow> u32 list \<Rightarrow> bool" where
  "grown kend pgdir s ps s' ps' \<longleftrightarrow> kmem_rep kend s' ps' \<and> tables_ok kend (memory s') pgdir ps' \<and>
    (\<exists>us. ps = us @ ps' \<and> length us \<le> 1) \<and>
    (\<forall>k < 1024. \<forall>l < 1024. pte (memory s') pgdir k l = pte (memory s) pgdir k l)"

lemma walkpgdir_run:
  assumes rep: "kmem_rep kend s ps" and ok: "tables_ok kend (memory s) pgdir ps"
  shows "\<exists>s' ps'. grown kend pgdir s ps s' ps' \<and>
    (walkpgdir pgdir va True s = Inr (None, s') \<and> ps = [] \<or>
     walkpgdir pgdir va True s = Inr (Some (table (pde (memory s') pgdir (PDX va)) + 4 * PTX va), s') \<and>
     present (pde (memory s') pgdir (PDX va)))"
proof (cases "present (pde (memory s) pgdir (PDX va))")
  case True
  then have "walkpgdir pgdir va True s = Inr (Some (table (pde (memory s) pgdir (PDX va)) + 4 * PTX va), s)"
    by (simp add: walkpgdir_def Let_def km_defs kload_def pde_def table_def)
  then show ?thesis using True rep ok by (intro exI [of _ s] exI [of _ ps]) (simp add: grown_def)
next
  case abs: False
  show ?thesis
  proof (cases ps)
    case Nil
    then obtain s' where s': "kalloc s = Inr (0, s')" "kmem_rep kend s' []" "memory s' = memory s"
      using kalloc_empty rep by blast
    then have "walkpgdir pgdir va True s = Inr (None, s')" using abs by (simp add: walkpgdir_def Let_def km_defs kload_def pde_def)
    then show ?thesis using s' ok Nil by (intro exI [of _ s'] exI [of _ ps]) (simp add: grown_def)
  next
    case (Cons t ts)
    then obtain s1 where s1: "kalloc s = Inr (t, s1)" "kmem_rep kend s1 ts" "memory s1 = memory s"
      using kalloc_Cons rep by blast
    have t: "page_ok kend t" "t \<notin> set ts" "t \<noteq> 0" "t mod PGSIZE = 0"
      using rep Cons page_ok_nonzero page_ok_aligned by (auto simp: kmem_rep_def)
    let ?z = "memset (memory s) t 0 PGSIZE"
    let ?m = "store32 ?z (pgdir + 4 * PDX va) (table_entry t)"
    note a = add_table [OF ok [unfolded Cons] t(1,2) index_less(1) [of va] abs]
    have d: "page_ok kend pgdir" "pgdir \<notin> set ts" "pgdir mod PGSIZE = 0" using tables_okD(1-3) [OF ok] Cons by auto
    have "kmem_rep kend (s1 \<lparr> memory := ?z \<rparr>) ts"
      by (rule rep_write [OF s1(2) t(1,2)]) (simp add: memset_fill in_page_def s1(3))
    from rep_write [OF this d(1,2), of ?m] store_outside [OF d(3) index_less(1)]
    have "kmem_rep kend (s1 \<lparr> memory := ?m \<rparr>) ts" by simp
    then have "grown kend pgdir s ps (s1 \<lparr> memory := ?m \<rparr>) ts" using a(2,3) Cons by (simp add: grown_def)
    moreover have "walkpgdir pgdir va True s = Inr (Some (t + 4 * PTX va), s1 \<lparr> memory := ?m \<rparr>)"
      using abs s1 t(3) by (simp add: walkpgdir_def Let_def km_defs kload_def kstore_def kzero_def pde_def table_entry_def)
    ultimately show ?thesis using a(1) [OF index_less(1)] table_entry [OF t(4)]
      by (intro exI [of _ "s1 \<lparr> memory := ?m \<rparr>"] exI [of _ ts]) simp
  qed
qed

text \<open>The address that a page \<open>n\<close> of a mapping of \<open>pa\<close> from page \<open>v\<close> is mapped to, and the mapping of the
  first \<open>j\<close> pages.\<close>

definition mapped_entry :: "u32 \<Rightarrow> u32 \<Rightarrow> nat \<Rightarrow> u32" where
  "mapped_entry pa perm n = (pa + 4096 * word_of_nat n) OR perm OR PTE_V"

definition maps :: "mem \<Rightarrow> u32 \<Rightarrow> nat \<Rightarrow> nat \<Rightarrow> u32 \<Rightarrow> u32 \<Rightarrow> mem \<Rightarrow> bool" where
  "maps m pgdir v j pa perm m' \<longleftrightarrow> (\<forall>va. mapping m' pgdir va =
    (if v \<le> vpn va \<and> vpn va < v + j then mapped_entry pa perm (vpn va - v) else mapping m pgdir va))"

lemma vpn_next: "vpn a + 1 < 2 ^ 20 \<Longrightarrow> vpn (a + PGSIZE) = vpn a + 1"
proof -
  assume "vpn a + 1 < 2 ^ 20"
  then have "unat a + 4096 < 2 ^ 32" unfolding vpn_def by simp
  then have "unat (a + PGSIZE) = unat a + 4096" by (simp add: unat_word_ariths)
  then show ?thesis by (simp add: vpn_def)
qed

lemma maps_Suc:
  assumes "maps m pgdir v 1 pa perm m1" "maps m1 pgdir (v + 1) j (pa + PGSIZE) perm m2"
  shows "maps m pgdir v (Suc j) pa perm m2"
proof -
  have e: "mapped_entry (pa + PGSIZE) perm (n - (v + 1)) = mapped_entry pa perm (n - v)" if "v + 1 \<le> n" for n
  proof -
    have "n - v = Suc (n - (v + 1))" using that by simp
    then show ?thesis by (simp add: mapped_entry_def algebra_simps)
  qed
  show ?thesis unfolding maps_def
  proof
    fix va
    show "mapping m2 pgdir va = (if v \<le> vpn va \<and> vpn va < v + Suc j then mapped_entry pa perm (vpn va - v) else mapping m pgdir va)"
      using assms(1) [unfolded maps_def, rule_format, of va] assms(2) [unfolded maps_def, rule_format, of va] e [of "vpn va"]
      by (cases "vpn va = v") auto
  qed
qed

lemma map_page:
  fixes pa perm :: u32
  assumes rep: "kmem_rep kend s ps" and ok: "tables_ok kend (memory s) pgdir ps" and pr: "present (pde (memory s) pgdir (PDX a))"
  defines "m' \<equiv> store32 (memory s) (table (pde (memory s) pgdir (PDX a)) + 4 * PTX a) (pa OR perm OR PTE_V)"
  shows "kmem_rep kend (s \<lparr> memory := m' \<rparr>) ps" "tables_ok kend m' pgdir ps" "maps (memory s) pgdir (vpn a) 1 pa perm m'"
proof -
  note d = tables_okD(4) [OF ok index_less(1) pr]
  note st = store_pte [OF ok index_less(1) index_less(2) pr]
  show "kmem_rep kend (s \<lparr> memory := m' \<rparr>) ps"
    by (rule rep_write [OF rep, of "table (pde (memory s) pgdir (PDX a))"]) (use d store_outside index_less in \<open>auto simp: m'_def\<close>)
  show "tables_ok kend m' pgdir ps" unfolding m'_def by (rule st)
  show "maps (memory s) pgdir (vpn a) 1 pa perm m'"
    unfolding maps_def m'_def using st(3) [OF index_less] same_index by (auto simp: mapped_entry_def)
qed

lemma grown_mapping: "grown kend pgdir s ps s' ps' \<Longrightarrow> mapping (memory s') pgdir va = mapping (memory s) pgdir va"
  using index_less by (simp add: grown_def)

lemma maps_cong: "(\<And>va. mapping m1 pgdir va = mapping m pgdir va) \<Longrightarrow> maps m1 pgdir v j pa perm m' = maps m pgdir v j pa perm m'"
  by (simp add: maps_def)

definition step_post :: "u32 \<Rightarrow> u32 \<Rightarrow> kmem \<Rightarrow> u32 list \<Rightarrow> u32 \<Rightarrow> u32 \<Rightarrow> u32 \<Rightarrow> nat \<Rightarrow> kmem \<Rightarrow> u32 list \<Rightarrow> bool" where
  "step_post kend pgdir s ps a pa perm j s' ps' \<longleftrightarrow> kmem_rep kend s' ps' \<and> tables_ok kend (memory s') pgdir ps' \<and>
    (\<exists>us. ps = us @ ps' \<and> length us \<le> j) \<and> maps (memory s) pgdir (vpn a) j pa perm (memory s')"

declare mappages_loop.simps [simp del]

lemma mappages_loop_step:
  assumes rep: "kmem_rep kend s ps" and ok: "tables_ok kend (memory s) pgdir ps" and free: "\<not> present (mapping (memory s) pgdir a)"
  shows "(\<exists>s'. mappages_loop pgdir a pa perm k s = Inr (- 1, s') \<and> step_post kend pgdir s ps a pa perm 0 s' []) \<or>
    (\<exists>s' ps'. step_post kend pgdir s ps a pa perm 1 s' ps' \<and> mappages_loop pgdir a pa perm k s =
      (case k of 0 \<Rightarrow> kret 0 | Suc k \<Rightarrow> mappages_loop pgdir (a + PGSIZE) (pa + PGSIZE) perm k) s')"
proof -
  obtain s1 ps1 where g: "grown kend pgdir s ps s1 ps1" and w:
    "walkpgdir pgdir a True s = Inr (None, s1) \<and> ps = [] \<or>
     walkpgdir pgdir a True s = Inr (Some (table (pde (memory s1) pgdir (PDX a)) + 4 * PTX a), s1) \<and>
     present (pde (memory s1) pgdir (PDX a))"
    using walkpgdir_run [OF rep ok] by blast
  note gm = grown_mapping [OF g]
  have g': "kmem_rep kend s1 ps1" "tables_ok kend (memory s1) pgdir ps1" "\<exists>us. ps = us @ ps1 \<and> length us \<le> 1"
    using g by (simp_all add: grown_def)
  from w show ?thesis
  proof
    assume n: "walkpgdir pgdir a True s = Inr (None, s1) \<and> ps = []"
    then have "mappages_loop pgdir a pa perm k s = Inr (- 1, s1)"
      by (simp add: mappages_loop.simps [of _ _ _ _ k] kbind_Inr [of "walkpgdir pgdir a True"] kret_def)
    moreover have "step_post kend pgdir s ps a pa perm 0 s1 []" using n g' gm by (auto simp: step_post_def maps_def)
    ultimately show ?thesis by blast
  next
    let ?p = "table (pde (memory s1) pgdir (PDX a)) + 4 * PTX a"
    let ?m = "store32 (memory s1) ?p (pa OR perm OR PTE_V)"
    assume n: "walkpgdir pgdir a True s = Inr (Some ?p, s1) \<and> present (pde (memory s1) pgdir (PDX a))"
    note mp = map_page [OF g'(1,2) conjunct2 [OF n], of pa perm]
    have "load32 (memory s1) ?p = mapping (memory s1) pgdir a" using n by (simp add: pte_def)
    then have "\<not> present (load32 (memory s1) ?p)" using free gm by simp
    then have "mappages_loop pgdir a pa perm k s = (case k of 0 \<Rightarrow> kret 0
        | Suc k \<Rightarrow> mappages_loop pgdir (a + PGSIZE) (pa + PGSIZE) perm k) (s1 \<lparr> memory := ?m \<rparr>)"
      using n by (simp add: mappages_loop.simps [of _ _ _ _ k] kbind_Inr [of "walkpgdir pgdir a True"] kload_def kstore_def
          kbind_kget kbind_kmod)
    moreover have "step_post kend pgdir s ps a pa perm 1 (s1 \<lparr> memory := ?m \<rparr>) ps1"
      using mp g'(3) maps_cong [of "memory s1" pgdir "memory s", OF gm] by (simp add: step_post_def)
    ultimately show ?thesis by blast
  qed
qed

lemma step_post_Suc:
  assumes "step_post kend pgdir s ps a pa perm 1 s1 ps1" "vpn (a + PGSIZE) = vpn a + 1"
    and "step_post kend pgdir s1 ps1 (a + PGSIZE) (pa + PGSIZE) perm j s' ps'"
  shows "step_post kend pgdir s ps a pa perm (Suc j) s' ps'"
proof -
  obtain us us1 where "ps = us @ ps1" "length us \<le> 1" "ps1 = us1 @ ps'" "length us1 \<le> j"
    using assms(1,3) by (auto simp: step_post_def)
  then have "ps = (us @ us1) @ ps'" "length (us @ us1) \<le> Suc j" by auto
  then show ?thesis using assms maps_Suc unfolding step_post_def by metis
qed

lemma mappages_loop_run:
  assumes "kmem_rep kend s ps" "tables_ok kend (memory s) pgdir ps" "vpn a + k < 2 ^ 20"
    and "\<And>va. vpn a \<le> vpn va \<Longrightarrow> vpn va \<le> vpn a + k \<Longrightarrow> \<not> present (mapping (memory s) pgdir va)"
  shows "\<exists>r s' ps' j. mappages_loop pgdir a pa perm k s = Inr (r, s') \<and> step_post kend pgdir s ps a pa perm j s' ps' \<and>
    (r = 0 \<and> j = Suc k \<or> r = - 1 \<and> j \<le> k \<and> ps' = [])"
  using assms
proof (induction k arbitrary: s ps a pa)
  case (0 s ps a pa)
  then have "\<not> present (mapping (memory s) pgdir a)" by simp
  from mappages_loop_step [OF 0(1,2) this, of pa perm 0] show ?case
    by (elim disjE exE conjE) (fastforce simp: kret_def)+
next
  case (Suc k s ps a pa)
  then have free: "\<not> present (mapping (memory s) pgdir a)" by simp
  from mappages_loop_step [OF Suc.prems(1,2) free, of pa perm "Suc k"] show ?case
  proof (elim disjE exE conjE)
    fix s' assume "mappages_loop pgdir a pa perm (Suc k) s = Inr (- 1, s')" "step_post kend pgdir s ps a pa perm 0 s' []"
    then show ?case by blast
  next
    fix s1 ps1
    assume st: "step_post kend pgdir s ps a pa perm 1 s1 ps1" and eq: "mappages_loop pgdir a pa perm (Suc k) s =
      (case Suc k of 0 \<Rightarrow> kret 0 | Suc k \<Rightarrow> mappages_loop pgdir (a + PGSIZE) (pa + PGSIZE) perm k) s1"
    have v: "vpn (a + PGSIZE) = vpn a + 1" using Suc.prems(3) by (intro vpn_next) simp
    have m: "maps (memory s) pgdir (vpn a) 1 pa perm (memory s1)"
      and rep1: "kmem_rep kend s1 ps1" "tables_ok kend (memory s1) pgdir ps1" using st by (simp_all add: step_post_def)
    have free1: "\<not> present (mapping (memory s1) pgdir va)" if "vpn (a + PGSIZE) \<le> vpn va" "vpn va \<le> vpn (a + PGSIZE) + k" for va
      using m [unfolded maps_def, rule_format, of va] Suc.prems(4) [of va] that v by simp
    have "vpn (a + PGSIZE) + k < 2 ^ 20" using Suc.prems(3) v by simp
    from Suc.IH [OF rep1 this free1] obtain r s' ps' j where "mappages_loop pgdir (a + PGSIZE) (pa + PGSIZE) perm k s1 = Inr (r, s')"
      "step_post kend pgdir s1 ps1 (a + PGSIZE) (pa + PGSIZE) perm j s' ps'" "r = 0 \<and> j = Suc k \<or> r = - 1 \<and> j \<le> k \<and> ps' = []"
      by blast
    then show ?case using eq step_post_Suc [OF st v] by (intro exI [of _ r] exI [of _ s'] exI [of _ ps'] exI [of _ "Suc j"]) simp
  qed
qed

lemma mappages_pages:
  assumes "0 < sz" "unat va + unat sz \<le> 2 ^ 32"
  shows "mappages pgdir va sz pa perm = mappages_loop pgdir (PGROUNDDOWN va) pa perm (vpn (va + sz - 1) - vpn va)"
    "vpn va \<le> vpn (va + sz - 1)"
proof -
  have pos: "0 < unat sz" using assms(1) by (simp add: word_less_nat_alt)
  have e: "va + (sz - 1) = va + sz - 1" by simp
  have "unat (sz - 1) = unat sz - 1" using pos by (intro unat_minus_one) auto
  then have "unat va + unat (sz - 1) < 2 ^ 32" using assms(2) pos by simp
  then have u: "unat (va + sz - 1) = unat va + (unat sz - 1)"
    unfolding e [symmetric] using \<open>unat (sz - 1) = unat sz - 1\<close> by (simp add: unat_word_ariths)
  then show le: "vpn va \<le> vpn (va + sz - 1)" unfolding vpn_def by (simp add: div_le_mono)
  then have "PGROUNDDOWN va \<le> PGROUNDDOWN (va + sz - 1)" unfolding word_le_nat_alt unat_PGROUNDDOWN vpn_def by simp
  then have "unat (PGROUNDDOWN (va + sz - 1) - PGROUNDDOWN va) = (vpn (va + sz - 1) - vpn va) * 4096"
    by (simp add: unat_sub unat_PGROUNDDOWN vpn_def diff_mult_distrib)
  then have "unat ((PGROUNDDOWN (va + sz - 1) - PGROUNDDOWN va) div PGSIZE) = vpn (va + sz - 1) - vpn va"
    by (simp add: unat_div_distrib)
  then show "mappages pgdir va sz pa perm = mappages_loop pgdir (PGROUNDDOWN va) pa perm (vpn (va + sz - 1) - vpn va)"
    by (simp add: mappages_def Let_def)
qed

text \<open>
  C6. Let \<open>sz > 0\<close> bytes from \<open>va\<close> be a range that does not wrap around and of which no page is mapped, and let
  \<open>n\<close> be the number of its pages. Then \<open>mappages\<close> returns. It maps the first \<open>j\<close> pages of the range, each to
  its page of \<open>pa\<close> with the permissions and the valid bit, and it changes the mapping of no other
  address. It returns 0 when all \<open>n\<close> pages are mapped, and -1 only after it has used up the free list;
  with \<open>n\<close> free pages it returns 0. The directory and its tables stay distinct pages off the free list.
\<close>

theorem mappages_maps:
  assumes "kmem_rep kend s ps" "tables_ok kend (memory s) pgdir ps" "0 < sz" "unat va + unat sz \<le> 2 ^ 32"
    and "\<forall>x. vpn va \<le> vpn x \<and> vpn x \<le> vpn (va + sz - 1) \<longrightarrow> \<not> present (mapping (memory s) pgdir x)"
  defines "n \<equiv> vpn (va + sz - 1) - vpn va + 1"
  shows "\<exists>r s' ps' j. mappages pgdir va sz pa perm s = Inr (r, s') \<and> kmem_rep kend s' ps' \<and>
    tables_ok kend (memory s') pgdir ps' \<and>
    (\<forall>x. mapping (memory s') pgdir x =
      (if vpn va \<le> vpn x \<and> vpn x < vpn va + j then (pa + 4096 * word_of_nat (vpn x - vpn va)) OR perm OR PTE_V
       else mapping (memory s) pgdir x)) \<and>
    (r = 0 \<and> j = n \<or> r = - 1 \<and> j < n \<and> ps' = []) \<and> (n \<le> length ps \<longrightarrow> r = 0)"
proof -
  let ?k = "vpn (va + sz - 1) - vpn va"
  note pg = mappages_pages [OF assms(3,4)]
  have v: "vpn (PGROUNDDOWN va) = vpn va" by (simp add: vpn_def unat_PGROUNDDOWN)
  have "vpn (va + sz - 1) < 2 ^ 20" using unat_u32_bound [of "va + sz - 1"] by (simp add: vpn_def)
  then have "vpn (PGROUNDDOWN va) + ?k < 2 ^ 20" using pg(2) v by simp
  moreover have "\<not> present (mapping (memory s) pgdir x)"
    if "vpn (PGROUNDDOWN va) \<le> vpn x" "vpn x \<le> vpn (PGROUNDDOWN va) + ?k" for x
    using assms(5) [rule_format, of x] that pg(2) unfolding v by simp
  ultimately obtain r s' ps' j where run: "mappages_loop pgdir (PGROUNDDOWN va) pa perm ?k s = Inr (r, s')"
    and st: "step_post kend pgdir s ps (PGROUNDDOWN va) pa perm j s' ps'"
    and r: "r = 0 \<and> j = Suc ?k \<or> r = - 1 \<and> j \<le> ?k \<and> ps' = []"
    using mappages_loop_run [OF assms(1,2), of "PGROUNDDOWN va" ?k pa perm] by blast
  obtain us where us: "ps = us @ ps'" "length us \<le> j" using st by (auto simp: step_post_def)
  show ?thesis
  proof (intro exI conjI)
    show "mappages pgdir va sz pa perm s = Inr (r, s')" using pg(1) run by simp
    show "kmem_rep kend s' ps'" "tables_ok kend (memory s') pgdir ps'" using st by (simp_all add: step_post_def)
    show "\<forall>x. mapping (memory s') pgdir x = (if vpn va \<le> vpn x \<and> vpn x < vpn va + j
        then (pa + 4096 * word_of_nat (vpn x - vpn va)) OR perm OR PTE_V else mapping (memory s) pgdir x)"
      using st v by (simp add: step_post_def maps_def mapped_entry_def)
    show "r = 0 \<and> j = n \<or> r = - 1 \<and> j < n \<and> ps' = []" using r by (auto simp: n_def)
    show "n \<le> length ps \<longrightarrow> r = 0" using r us by (auto simp: n_def)
  qed
qed

definition kmem_one :: kmem where
  "kmem_one = kmem_empty \<lparr> freelist := 0x80200000 \<rparr>"

lemma kmem_one_rep: "kmem_rep 0x80100000 kmem_one [0x80200000]"
  by (simp add: kmem_rep_def kmem_one_def kmem_empty_def klock_ok_def lock_idle_def page_ok_def v2p_def load32_def)

lemma kmem_one_unmapped: "pde (memory kmem_one) pgdir i = 0" "mapping (memory kmem_one) pgdir x = 0"
  by (simp_all add: pte_def pde_def kmem_one_def kmem_empty_def load32_def)

theorem mappages_maps_witness:
  "\<exists>s'. mappages 0x80201000 0x1000 0x1000 0x300000 PTE_PP_RWRW kmem_one = Inr (0, s') \<and>
    mapping (memory s') 0x80201000 0x1234 = 0x300031 \<and> mapping (memory s') 0x80201000 0x2000 = 0"
proof -
  have "tables_ok 0x80100000 (memory kmem_one) 0x80201000 [0x80200000]"
    using kmem_one_unmapped by (simp add: tables_ok_def page_ok_def v2p_def)
  from mappages_maps [OF kmem_one_rep this, of "0x1000" "0x1000" "0x300000" "PTE_PP_RWRW"]
  obtain s' j where "mappages 0x80201000 0x1000 0x1000 0x300000 PTE_PP_RWRW kmem_one = Inr (0, s')" "j = 1"
    "\<forall>x. mapping (memory s') 0x80201000 x = (if 1 \<le> vpn x \<and> vpn x < 1 + j
       then (0x300000 + 4096 * word_of_nat (vpn x - 1)) OR PTE_PP_RWRW OR PTE_V else 0)"
    using kmem_one_unmapped by (auto simp: vpn_def)
  then show ?thesis by (intro exI [of _ s']) (simp add: vpn_def)
qed

end
