(* ===== verification/Grep.thy ===== *)
theory Grep
  imports Xv6_Prelude
begin

text \<open>
  The program \<open>grep\<close> (\<open>src/grep.c\<close>). Its matcher is proved equivalent to a declarative meaning of
  patterns: a pattern is a list of characters, each of which may be starred, with optional anchors, and
  a text matches when a part of it is in the language of the list. The loop over the input rs modelled
  with its 1024-byte buffer; what lies behind the last byte that was read stays in the buffer.
  Strings are byte lists without the NUL.
\<close>

section \<open>The matcher\<close>

fun matchhere :: "u8 list \<Rightarrow> u8 list \<Rightarrow> bool"
  and matchstar :: "u8 \<Rightarrow> u8 list \<Rightarrow> u8 list \<Rightarrow> bool" where
  "matchhere [] text = True"
| "matchhere (c # re) text =
    (if re \<noteq> [] \<and> hd re = asc CHR ''*'' then matchstar c (tl re) text
     else if c = asc CHR ''$'' \<and> re = [] then text = []
     else (case text of [] \<Rightarrow> False
           | x # text \<Rightarrow> if c = asc CHR ''.'' \<or> c = x then matchhere re text else False))"
| "matchstar c re text =
    (if matchhere re text then True
     else (case text of [] \<Rightarrow> False
           | x # text \<Rightarrow> if x = c \<or> c = asc CHR ''.'' then matchstar c re text else False))"

fun match_from :: "u8 list \<Rightarrow> u8 list \<Rightarrow> bool" where
  "match_from re [] = matchhere re []"
| "match_from re (x # text) = (if matchhere re (x # text) then True else match_from re text)"

definition match :: "u8 list \<Rightarrow> u8 list \<Rightarrow> bool" where
  "match re text =
    (if re \<noteq> [] \<and> hd re = asc CHR ''^'' then matchhere (tl re) text else match_from re text)"

declare matchhere.simps(2) [simp del]
declare matchstar.simps [simp del]

section \<open>The loop over the input\<close>

text \<open>The input comes in pieces, as from a pipe or the console; a file is one piece. \<open>read\<close> returns at most
  \<open>k\<close> bytes of the next piece, and nothing at the end.\<close>

fun read_input :: "nat \<Rightarrow> u8 list list \<Rightarrow> u8 list \<times> u8 list list" where
  "read_input k [] = ([], [])"
| "read_input k (c # cs) = (take k c, if drop k c = [] then cs else drop k c # cs)"

text \<open>\<open>strchr\<close> from the index \<open>i\<close> of an array, of which the list is the rest. Going on behind the array
  is a fault.\<close>

fun strchr_scan :: "u8 list \<Rightarrow> u8 \<Rightarrow> nat \<Rightarrow> stop + nat option" where
  "strchr_scan [] c i = Inl Fault"
| "strchr_scan (x # xs) c i = (if x = 0 then Inr None else if x = c then Inr (Some i) else strchr_scan xs c (Suc i))"

lemma strchr_scan_range: "strchr_scan xs c i = Inr (Some q) \<Longrightarrow> i \<le> q \<and> q < i + length xs"
  by (induction xs c i rule: strchr_scan.induct) (auto split: if_splits)

text \<open>The inner loop: the buffer, the pointer \<open>p\<close> as an index, and the output so far. While the line is
  matched its newline is a NUL, which stays when the line does not match.\<close>

function grep_lines :: "u8 list \<Rightarrow> u8 list \<Rightarrow> nat \<Rightarrow> u8 list \<Rightarrow> stop + u8 list \<times> nat \<times> u8 list" where
  "grep_lines pattern buf p out =
    (case strchr_scan (drop p buf) 10 p of
       Inl e \<Rightarrow> Inl e
     | Inr None \<Rightarrow> Inr (buf, p, out)
     | Inr (Some q) \<Rightarrow>
         if match pattern (take (q - p) (drop p buf))
         then grep_lines pattern buf (q + 1) (out @ take (q + 1 - p) (drop p buf))
         else grep_lines pattern (buf[q := 0]) (q + 1) out)"
  by pat_completeness auto
termination
  by (relation "measure (\<lambda>(pattern, buf, p, out). length buf - p)") (auto dest!: strchr_scan_range)

declare grep_lines.simps [simp del]

text \<open>The outer loop; \<open>m\<close> is signed, and a read to an address before the buffer is a fault.\<close>

function grep_loop :: "u8 list \<Rightarrow> u8 list \<Rightarrow> int \<Rightarrow> u8 list list \<Rightarrow> u8 list \<Rightarrow> stop + u8 list \<times> u8 list" where
  "grep_loop pattern buf m input out =
    (case read_input (nat (1024 - m)) input of (d, input') \<Rightarrow>
     if d = [] then Inr (buf, out)
     else if m < 0 then Inl Fault
     else
       let buf = take (nat m) buf @ d @ drop (nat m + length d) buf; m = m + int (length d) in
       case grep_lines pattern buf 0 out of
         Inl e \<Rightarrow> Inl e
       | Inr (buf, p, out) \<Rightarrow>
           let m = (if p = 0 then 0 else m) in
           if m > 0 then
             grep_loop pattern (take (nat (m - int p)) (drop p buf) @ drop (nat (m - int p)) buf) (m - int p) input' out
           else grep_loop pattern buf m input' out)"
  by pat_completeness auto
termination
proof (relation "measure (\<lambda>(pattern, buf, m, input, out). length (concat input))", goal_cases)
  case (2 pattern buf m input out d input')
  then show ?case by (cases input) (auto split: if_splits)
next
  case (3 pattern buf m input out d input')
  then show ?case by (cases input) (auto split: if_splits)
qed simp

declare grep_loop.simps [simp del]

text \<open>The buffer is static: a call finds in it what the call before has left.\<close>

definition grep :: "u8 list \<Rightarrow> u8 list list \<Rightarrow> u8 list \<Rightarrow> stop + u8 list \<times> u8 list" where
  "grep pattern input buf = grep_loop pattern buf 0 input []"

text \<open>\<open>main\<close>: \<open>files\<close> is what \<open>open\<close> finds; the result is what is written to the descriptors 1 and 2.\<close>

fun grep_files :: "(u8 list \<Rightarrow> u8 list list option) \<Rightarrow> u8 list \<Rightarrow> u8 list list \<Rightarrow> u8 list \<Rightarrow> stop + (nat \<times> u8 list) list" where
  "grep_files files pattern [] buf = Inr []"
| "grep_files files pattern (name # names) buf =
    (case files name of
       None \<Rightarrow> Inr [(1, bytes ''grep: cannot open '' @ name @ [10])]
     | Some input \<Rightarrow>
         (case grep pattern input buf of
            Inl e \<Rightarrow> Inl e
          | Inr (buf, out) \<Rightarrow> map_sum id ((#) (1, out)) (grep_files files pattern names buf)))"

definition grep_main :: "(u8 list \<Rightarrow> u8 list list option) \<Rightarrow> u8 list list \<Rightarrow> u8 list list \<Rightarrow> stop + (nat \<times> u8 list) list" where
  "grep_main files stdin argv =
    (case argv of
       _ # pattern # names \<Rightarrow>
         if names = [] then map_sum id (\<lambda>(buf, out). [(1, out)]) (grep pattern stdin (replicate 1024 0))
         else grep_files files pattern names (replicate 1024 0)
     | _ \<Rightarrow> Inr [(2, bytes ''usage: grep pattern [file ...]'' @ [10])])"

section \<open>What patterns mean\<close>

text \<open>The items of a pattern, starred or not, and whether it ends in the anchor.\<close>

fun items :: "u8 list \<Rightarrow> (u8 \<times> bool) list \<times> bool" where
  "items [] = ([], False)"
| "items [c] = (if c = asc CHR ''$'' then ([], True) else ([(c, False)], False))"
| "items (c # d # re) =
    (if d = asc CHR ''*'' then (case items re of (rs, e) \<Rightarrow> ((c, True) # rs, e))
     else (case items (d # re) of (rs, e) \<Rightarrow> ((c, False) # rs, e)))"

definition stands_for :: "u8 \<Rightarrow> u8 \<Rightarrow> bool" where
  "stands_for c x \<longleftrightarrow> c = asc CHR ''.'' \<or> c = x"

fun language :: "(u8 \<times> bool) list \<Rightarrow> u8 list set" where
  "language [] = {[]}"
| "language ((c, False) # rs) = {x # w |x w. stands_for c x \<and> w \<in> language rs}"
| "language ((c, True) # rs) = {u @ w |u w. (\<forall>x \<in> set u. stands_for c x) \<and> w \<in> language rs}"

text \<open>A part of the text is in the language; the anchors force it to the start and to the end.\<close>

definition found :: "bool \<Rightarrow> (u8 \<times> bool) list \<times> bool \<Rightarrow> u8 list \<Rightarrow> bool" where
  "found start p text \<longleftrightarrow>
    (\<exists>l w r. text = l @ w @ r \<and> w \<in> language (fst p) \<and> (if start then l = [] else True) \<and> (if snd p then r = [] else True))"

definition meaning :: "u8 list \<Rightarrow> u8 list \<Rightarrow> bool" where
  "meaning re text =
    (if re \<noteq> [] \<and> hd re = asc CHR ''^'' then found True (items (tl re)) text else found False (items re) text)"

lemma found_Nil: "found True ([], e) text \<longleftrightarrow> (if e then text = [] else True)"
  by (auto simp: found_def)

lemma found_start: "found True (rs, e) text \<longleftrightarrow> (\<exists>w \<in> language rs. \<exists>r. text = w @ r \<and> (if e then r = [] else True))"
  by (auto simp: found_def)

lemma found_one: "found True ((c, False) # rs, e) text \<longleftrightarrow>
    (case text of [] \<Rightarrow> False | x # text \<Rightarrow> stands_for c x \<and> found True (rs, e) text)"
proof (cases "text")
  case (Cons x t)
  have "found True ((c, False) # rs, e) (x # t) \<longleftrightarrow> stands_for c x \<and> found True (rs, e) t"
  proof
    assume "found True ((c, False) # rs, e) (x # t)"
    then obtain w r where "stands_for c x" "w \<in> language rs" "t = w @ r" "if e then r = [] else True"
      unfolding found_start language.simps by auto
    then show "stands_for c x \<and> found True (rs, e) t" unfolding found_start by blast
  next
    assume a: "stands_for c x \<and> found True (rs, e) t"
    then obtain w r where "w \<in> language rs" "t = w @ r" "if e then r = [] else True" unfolding found_start by blast
    moreover from this a have "x # w \<in> language ((c, False) # rs)" by simp
    ultimately show "found True ((c, False) # rs, e) (x # t)" unfolding found_start by (intro bexI [of _ "x # w"] exI [of _ r]) simp_all
  qed
  then show ?thesis using Cons by simp
qed (simp add: found_start)

lemma found_star: "found True ((c, True) # rs, e) text \<longleftrightarrow>
    found True (rs, e) text \<or> (case text of [] \<Rightarrow> False | x # text \<Rightarrow> stands_for c x \<and> found True ((c, True) # rs, e) text)"
    (is "?l \<longleftrightarrow> ?r")
proof
  assume ?l
  then obtain u w r where t: "text = u @ w @ r" "\<forall>x \<in> set u. stands_for c x" "w \<in> language rs" "if e then r = [] else True"
    by (auto simp: found_def)
  then show ?r
  proof (cases u)
    case Nil
    then show ?thesis using t by (auto simp: found_def)
  next
    case (Cons x u')
    then have "u' @ w \<in> language ((c, True) # rs)" using t by auto
    then have "found True ((c, True) # rs, e) (u' @ w @ r)" unfolding found_def using t(4)
      by (intro exI [of _ "[]"] exI [of _ "u' @ w"] exI [of _ r]) simp
    then show ?thesis using t Cons by simp
  qed
next
  assume ?r
  then show ?l
  proof
    assume "found True (rs, e) text"
    then obtain w r where "text = w @ r" "w \<in> language rs" "if e then r = [] else True" by (auto simp: found_def)
    moreover from this have "w \<in> language ((c, True) # rs)" by force
    ultimately show ?l unfolding found_def by (intro exI [of _ "[]"] exI [of _ w] exI [of _ r]) simp
  next
    assume "case text of [] \<Rightarrow> False | x # text \<Rightarrow> stands_for c x \<and> found True ((c, True) # rs, e) text"
    then obtain x u w r where t: "text = x # u @ w @ r" "stands_for c x" "\<forall>x \<in> set u. stands_for c x" "w \<in> language rs"
      "if e then r = [] else True" by (auto simp: found_def split: list.splits)
    then have "\<forall>y \<in> set (x # u). stands_for c y" by simp
    then have "(x # u) @ w \<in> language ((c, True) # rs)" using t(4) unfolding language.simps by blast
    then show ?l unfolding found_def using t(1,5)
      by (intro exI [of _ "[]"] exI [of _ "(x # u) @ w"] exI [of _ r]) simp
  qed
qed

lemma found_later: "found False p text \<longleftrightarrow> (\<exists>l t. text = l @ t \<and> found True p t)"
  by (auto simp: found_def)

lemma items_Cons: "items (c # re) =
    (if re \<noteq> [] \<and> hd re = asc CHR ''*'' then (case items (tl re) of (rs, e) \<Rightarrow> ((c, True) # rs, e))
     else if c = asc CHR ''$'' \<and> re = [] then ([], True)
     else (case items re of (rs, e) \<Rightarrow> ((c, False) # rs, e)))"
  by (cases re) auto

lemma matchhere_found:
  "matchhere re text \<longleftrightarrow> found True (items re) text"
  "matchstar c re text \<longleftrightarrow> found True ((c, True) # fst (items re), snd (items re)) text"
proof (induction re "text" and c re "text" rule: matchhere_matchstar.induct)
  case (1 "text")
  then show ?case by (simp add: found_Nil)
next
  case (2 c re "text")
  obtain rs e rs' e' where r: "items re = (rs, e)" "items (tl re) = (rs', e')" by (metis surj_pair)
  show ?case
  proof (cases "re \<noteq> [] \<and> hd re = asc CHR ''*''")
    case True
    then show ?thesis using 2(1) r by (simp add: matchhere.simps(2) [of c re] items_Cons)
  next
    case False
    then show ?thesis using 2(2) r unfolding matchhere.simps(2) [of c re] items_Cons
      by (cases "text") (auto simp: found_one found_Nil stands_for_def)
  qed
next
  case (3 c re "text")
  then show ?case
    by (subst matchstar.simps, subst found_star) (cases "text"; auto simp: stands_for_def)
qed

lemma match_from_found: "match_from re text \<longleftrightarrow> found False (items re) text"
proof (induction "text")
  case Nil
  then show ?case by (simp add: matchhere_found found_later)
next
  case (Cons x "text")
  have "found False (items re) (x # text) \<longleftrightarrow> found True (items re) (x # text) \<or> found False (items re) text"
    unfolding found_later by (auto simp: Cons_eq_append_conv)
  then show ?case using Cons by (simp add: matchhere_found)
qed

text \<open>
  C9. The matcher of \<open>grep\<close>, with its loops and its backtracking over stars, is equivalent to the declarative
  meaning of the pattern: it answers yes exactly when some part of the text, at its start after a \<open>^\<close> and at
  its end before a last \<open>$\<close>, is in the language of the pattern's items.
\<close>

theorem match_meaning: "match re text \<longleftrightarrow> meaning re text"
  by (simp add: match_def meaning_def matchhere_found match_from_found)

section \<open>The lines that are printed\<close>

text \<open>The lines of a text that end in a newline.\<close>

fun full_lines :: "u8 list \<Rightarrow> u8 list \<Rightarrow> u8 list list" where
  "full_lines l [] = []"
| "full_lines l (c # s) = (if c = 10 then l # full_lines [] s else full_lines (l @ [c]) s)"

definition printed :: "u8 list \<Rightarrow> u8 list \<Rightarrow> u8 list" where
  "printed pattern s = concat (map (\<lambda>l. l @ [10]) (filter (match pattern) (full_lines [] s)))"

lemma full_lines_split:
  "10 \<notin> set s \<Longrightarrow> full_lines k s = []"
  "10 \<notin> set l \<Longrightarrow> full_lines k (l @ 10 # s) = (k @ l) # full_lines [] s"
proof -
  show "10 \<notin> set s \<Longrightarrow> full_lines k s = []" by (induction s arbitrary: k) auto
  show "10 \<notin> set l \<Longrightarrow> full_lines k (l @ 10 # s) = (k @ l) # full_lines [] s" by (induction l arbitrary: k) auto
qed

lemma strchr_scan_line:
  "10 \<notin> set l \<Longrightarrow> 0 \<notin> set l \<Longrightarrow> strchr_scan (l @ 10 # r) 10 i = Inr (Some (i + length l))"
  "10 \<notin> set l \<Longrightarrow> 0 \<notin> set l \<Longrightarrow> strchr_scan (l @ 0 # r) 10 i = Inr None"
  "10 \<notin> set l \<Longrightarrow> 0 \<notin> set l \<Longrightarrow> strchr_scan l 10 i = Inl Fault"
  by (induction l arbitrary: i) auto

lemma grep_lines_step:
  assumes "10 \<notin> set l" "0 \<notin> set l"
  shows "\<exists>pre'. length pre' = length pre + length l + 1 \<and> grep_lines pattern (pre @ l @ 10 # s) (length pre) out =
    grep_lines pattern (pre' @ s) (length pre') (out @ (if match pattern l then l @ [10] else []))"
  using strchr_scan_line(1) [OF assms, of s "length pre"]
  by (intro exI [of _ "if match pattern l then pre @ l @ [10] else pre @ l @ [0]"])
    (subst grep_lines.simps, simp add: list_update_append)

lemma grep_lines_printed:
  assumes "0 \<notin> set s" "rest = [] \<or> hd rest = 0"
  shows "case grep_lines pattern (pre @ s @ rest) (length pre) out of
      Inl e \<Rightarrow> e = Fault \<and> rest = []
    | Inr (_, _, out') \<Rightarrow> rest \<noteq> [] \<and> out' = out @ printed pattern s"
  using assms
proof (induction "length s" arbitrary: s pre out rule: less_induct)
  case (less s pre out)
  show ?case
  proof (cases "10 \<in> set s")
    case False
    then have p: "printed pattern s = []" by (simp add: printed_def full_lines_split)
    show ?thesis
    proof (cases rest)
      case Nil
      then show ?thesis using strchr_scan_line(3) [OF False less.prems(1)] by (subst grep_lines.simps) simp
    next
      case (Cons x r)
      then show ?thesis using strchr_scan_line(2) [OF False less.prems(1)] less.prems(2) p by (subst grep_lines.simps) simp
    qed
  next
    case True
    then obtain l t where l: "s = l @ 10 # t" "10 \<notin> set l" by (meson split_list_first)
    then have z: "0 \<notin> set l" "0 \<notin> set t" "length t < length s" using less.prems(1) by auto
    let ?o = "out @ (if match pattern l then l @ [10] else [])"
    obtain pre' where pre': "grep_lines pattern (pre @ s @ rest) (length pre) out = grep_lines pattern (pre' @ t @ rest) (length pre') ?o"
      using grep_lines_step [OF l(2) z(1), of pre pattern "t @ rest" out] l(1) by auto
    have eq: "out @ printed pattern s = ?o @ printed pattern t" using l by (simp add: printed_def full_lines_split)
    show ?thesis using less.hyps [OF z(3,2) less.prems(2), of ?o pre'] unfolding pre' eq .
  qed
qed

text \<open>
  C35. Reading a file. On an input of one piece without NULs that is shorter than the buffer, \<open>grep\<close> writes
  exactly the lines that match, in order; a last line without a newline is not looked at. When the piece
  fills the buffer, the search for the next newline runs over the end of the buffer.
\<close>

theorem grep_prints:
  assumes "c \<noteq> []" "0 \<notin> set c"
  shows "if length c < 1024 then \<exists>buf'. grep pattern [c] (replicate 1024 0) = Inr (buf', printed pattern c)
    else grep pattern [c] (replicate 1024 0) = Inl Fault"
proof -
  obtain d input where r: "read_input 1024 [c] = (d, input)" and d: "d = take 1024 c" and i: "length c < 1024 \<Longrightarrow> input = []"
    by simp
  let ?z = "replicate (1024 - length d) (0 :: u8)"
  have z: "0 \<notin> set d" "d \<noteq> []" using assms unfolding d by (auto dest: in_set_takeD)
  have "?z = [] \<or> hd ?z = 0" by (cases "1024 - length d") simp_all
  note lines = grep_lines_printed [OF z(1) this, where pattern = pattern and pre = "[]" and out = "[]"]
  have run: "grep pattern [c] (replicate 1024 0) = (case grep_lines pattern (d @ ?z) 0 [] of
       Inl e \<Rightarrow> Inl e
     | Inr (buf, p, out) \<Rightarrow>
         let m = (if p = 0 then 0 else int (length d)) in
         if m > 0 then grep_loop pattern (take (nat (m - int p)) (drop p buf) @ drop (nat (m - int p)) buf) (m - int p) input out
         else grep_loop pattern buf m input out)"
    unfolding grep_def by (subst grep_loop.simps) (use z(2) r in simp)
  show ?thesis
  proof (cases "length c < 1024")
    case True
    then have "\<exists>buf p. grep_lines pattern (d @ ?z) 0 [] = Inr (buf, p, printed pattern c)" using lines d
      by (auto split: sum.splits)
    moreover have "grep_loop pattern b m [] out = Inr (b, out)" for b m out by (subst grep_loop.simps) simp
    ultimately show ?thesis using True i unfolding run by (auto simp: Let_def)
  next
    case False
    then have "length d = 1024" by (simp add: d)
    then show ?thesis using False lines unfolding run by (auto split: sum.splits)
  qed
qed

theorem grep_prints_witness:
  "\<exists>buf'. grep (bytes ''^a.*c$'') [bytes ''abc'' @ [10] @ bytes ''bac'' @ [10] @ bytes ''ac'' @ [10] @ bytes ''a'']
    (replicate 1024 0) = Inr (buf', bytes ''abc'' @ [10] @ bytes ''ac'' @ [10])"
proof -
  let ?c = "bytes ''abc'' @ [10] @ bytes ''bac'' @ [10] @ bytes ''ac'' @ [10] @ bytes ''a''"
  have "printed (bytes ''^a.*c$'') ?c = bytes ''abc'' @ [10] @ bytes ''ac'' @ [10]" by code_simp
  then show ?thesis using grep_prints [of ?c "bytes ''^a.*c$''"] by simp
qed


end
