(* ===== verification/Umalloc.thy ===== *)
theory Umalloc
  imports Xv6_Prelude
begin

text \<open>
  The memory allocator of user programs (\<open>src/umalloc.c\<close>). Addresses count units of eight bytes, the size of a
  header; the header at an address is its entry in \<open>hptr\<close> and \<open>hsize\<close>. Where the code computes with bytes, the
  numbers are 32 bit words. \<open>base\<close> is the address of the static header, which lies below the heap, and the
  null pointer is 0. The circular list of free blocks is proved to be sorted, free of neighbours that
  touch, and disjoint from the blocks that are handed out.
\<close>

section \<open>The allocator\<close>

record heap =
  hptr :: "nat \<Rightarrow> nat"
  hsize :: "nat \<Rightarrow> nat"
  freep :: nat
  brk :: u32

text \<open>The loop of \<open>free\<close>: the header after which the block belongs.\<close>

partial_function (option) free_find :: "heap \<Rightarrow> nat \<Rightarrow> nat \<Rightarrow> nat option" where
  "free_find h bp p =
    (if bp > p \<and> bp < hptr h p then Some p
     else if p \<ge> hptr h p \<and> (bp > p \<or> bp < hptr h p) then Some p
     else free_find h bp (hptr h p))"

definition join_upper :: "nat \<Rightarrow> nat \<Rightarrow> heap \<Rightarrow> heap" where
  "join_upper p bp h =
    (if bp + hsize h bp = hptr h p then
       h \<lparr> hsize := (hsize h)(bp := hsize h bp + hsize h (hptr h p)), hptr := (hptr h)(bp := hptr h (hptr h p)) \<rparr>
     else h \<lparr> hptr := (hptr h)(bp := hptr h p) \<rparr>)"

definition join_lower :: "nat \<Rightarrow> nat \<Rightarrow> heap \<Rightarrow> heap" where
  "join_lower p bp h =
    (if p + hsize h p = bp then
       h \<lparr> hsize := (hsize h)(p := hsize h p + hsize h bp), hptr := (hptr h)(p := hptr h bp) \<rparr>
     else h \<lparr> hptr := (hptr h)(p := bp) \<rparr>)"

text \<open>\<open>None\<close> when the search for the place does not end.\<close>

definition free :: "nat \<Rightarrow> heap \<Rightarrow> heap option" where
  "free ap h =
    (let bp = ap - 1 in
     map_option (\<lambda>p. (join_lower p bp (join_upper p bp h)) \<lparr> freep := p \<rparr>) (free_find h bp (freep h)))"

text \<open>\<open>sbrk\<close> as the kernel does it in \<open>sys_sbrk\<close> and \<open>growproc\<close>: \<open>lim\<close> is the size up to which there is memory for
  the process. The argument is signed; growing over the end of the address space changes nothing.\<close>

definition sbrk :: "nat \<Rightarrow> u32 \<Rightarrow> heap \<Rightarrow> u32 option \<times> heap" where
  "sbrk lim n h =
    (let old = brk h; new = old + n in
     if sint n > 0 then
       if new \<ge> 0x80000000 then (None, h)
       else if new < old then (Some old, h)
       else if unat new \<le> lim then (Some old, h \<lparr> brk := new \<rparr>) else (None, h)
     else if sint n < 0 then
       if new \<ge> old then (Some old, h) else if new = 0 then (None, h) else (Some old, h \<lparr> brk := new \<rparr>)
     else (Some old, h))"

definition morecore :: "nat \<Rightarrow> nat \<Rightarrow> heap \<Rightarrow> (nat \<times> heap) option" where
  "morecore lim nu h =
    (let nu = (if nu < 4096 then 4096 else nu) in
     case sbrk lim (word_of_nat nu * 8) h of
       (None, h) \<Rightarrow> Some (0, h)
     | (Some p, h) \<Rightarrow>
         let hp = unat p div 8 in
         map_option (\<lambda>h. (freep h, h)) (free (hp + 1) (h \<lparr> hsize := (hsize h)(hp := nu) \<rparr>)))"

partial_function (option) malloc_loop :: "nat \<Rightarrow> nat \<Rightarrow> nat \<Rightarrow> nat \<Rightarrow> heap \<Rightarrow> (nat \<times> heap) option" where
  "malloc_loop lim nunits prevp p h =
    (if hsize h p \<ge> nunits then
       if hsize h p = nunits then Some (p + 1, h \<lparr> hptr := (hptr h)(prevp := hptr h p), freep := prevp \<rparr>)
       else
         let q = p + (hsize h p - nunits) in
         Some (q + 1, h \<lparr> hsize := (hsize h)(p := hsize h p - nunits, q := nunits), freep := prevp \<rparr>)
     else if p = freep h then
       (case morecore lim nunits h of
          None \<Rightarrow> None
        | Some (p, h) \<Rightarrow> if p = 0 then Some (0, h) else malloc_loop lim nunits p (hptr h p) h)
     else malloc_loop lim nunits p (hptr h p) h)"

definition units_for :: "u32 \<Rightarrow> u32" where
  "units_for nbytes = (nbytes + 8 - 1) div 8 + 1"

definition malloc :: "nat \<Rightarrow> nat \<Rightarrow> u32 \<Rightarrow> heap \<Rightarrow> (nat \<times> heap) option" where
  "malloc base lim nbytes h =
    (let nunits = unat (units_for nbytes);
         h = (if freep h = 0
              then h \<lparr> hptr := (hptr h)(base := base), freep := base, hsize := (hsize h)(base := 0) \<rparr> else h)
     in malloc_loop lim nunits (freep h) (hptr h (freep h)) h)"

section \<open>The free list\<close>

text \<open>The free blocks \<open>S\<close> in a ring with \<open>base\<close>: each header points to the next higher one, the last one back to \<open>base\<close>.\<close>

definition follows :: "nat \<Rightarrow> nat set \<Rightarrow> nat \<Rightarrow> nat \<Rightarrow> bool" where
  "follows base S x y \<longleftrightarrow> y \<in> S \<and> x < y \<and> (\<forall>z \<in> S. \<not> (x < z \<and> z < y)) \<or> y = base \<and> (\<forall>z \<in> S. z \<le> x)"

definition ring_ok :: "nat \<Rightarrow> nat set \<Rightarrow> (nat \<Rightarrow> nat) \<Rightarrow> bool" where
  "ring_ok base S f \<longleftrightarrow> finite S \<and> (\<forall>x \<in> S. base < x) \<and> (\<forall>x \<in> insert base S. follows base S x (f x))"

lemma ring_okD:
  assumes "ring_ok base S f" "x \<in> insert base S"
  shows "f x \<in> S \<and> x < f x \<and> (\<forall>z \<in> S. \<not> (x < z \<and> z < f x)) \<or> f x = base \<and> (\<forall>z \<in> S. z \<le> x)" "f x \<in> insert base S"
  using assms by (auto simp: ring_ok_def follows_def)

lemma ring_base: "ring_ok base S f \<Longrightarrow> x \<in> S \<Longrightarrow> base < x"
  by (simp add: ring_ok_def)

lemma ring_ge: "ring_ok base S f \<Longrightarrow> x \<in> insert base S \<Longrightarrow> base \<le> x"
  by (auto dest: ring_base intro: less_imp_le)

text \<open>Going round from \<open>p\<close> to the header \<open>f\<close>: the headers on the way.\<close>

definition way :: "nat \<Rightarrow> nat set \<Rightarrow> nat \<Rightarrow> nat \<Rightarrow> nat set" where
  "way base S f p = {x \<in> insert base S. if p \<le> f then p \<le> x \<and> x \<le> f else p \<le> x \<or> x \<le> f}"

lemma ring_gap:
  assumes "ring_ok base S r" "p \<in> insert base S" "x \<in> insert base S"
  shows "if r p = base then x \<le> p else p < r p \<and> (x \<le> p \<or> r p \<le> x)"
  using ring_okD(1) [OF assms(1,2)] ring_base [OF assms(1)] assms(2,3) by fastforce

lemma way_next:
  assumes "ring_ok base S r" "p \<in> insert base S" "f \<in> insert base S" "p \<noteq> f"
  shows "way base S f p = insert p (way base S f (r p))" "p \<notin> way base S f (r p)"
proof -
  note g = ring_gap [OF assms(1,2)]
  note b = ring_ge [OF assms(1)]
  have m: "x \<in> way base S f p \<longleftrightarrow> x = p \<or> x \<in> way base S f (r p)" "p \<notin> way base S f (r p)"
    if "x \<in> insert base S" for x
    using g [OF that] g [OF assms(3)] b [OF that] b [OF assms(3)] b [OF assms(2)] assms(2,4) that
    by (auto simp: way_def split: if_splits)
  show "way base S f p = insert p (way base S f (r p))"
  proof (rule set_eqI)
    fix x
    show "x \<in> way base S f p \<longleftrightarrow> x \<in> insert p (way base S f (r p))"
      using m(1) [of x] assms(2) by (cases "x \<in> insert base S") (auto simp: way_def)
  qed
  show "p \<notin> way base S f (r p)" by (rule m(2) [OF assms(2)])
qed

lemma way_all:
  assumes "ring_ok base S r" "f \<in> insert base S"
  shows "way base S f (r f) = insert base S"
proof (rule set_eqI)
  fix x
  show "x \<in> way base S f (r f) \<longleftrightarrow> x \<in> insert base S"
    using ring_gap [OF assms, of x] ring_ge [OF assms(1)] assms(2) by (auto simp: way_def split: if_splits)
qed

lemma finite_way: "ring_ok base S r \<Longrightarrow> finite (way base S f p)"
  by (simp add: ring_ok_def way_def)

text \<open>Putting a block into the ring, and taking one out.\<close>

lemma ring_insert:
  assumes "ring_ok base S r" "p \<in> insert base S" "p < b" "b \<notin> S" "\<forall>z \<in> S. \<not> (p < z \<and> z < b)"
  shows "ring_ok base (insert b S) (r(b := r p, p := b))"
proof -
  note ge = ring_ge [OF assms(1)]
  have b: "base < b" using assms(3) ge [OF assms(2)] by simp
  have "follows base (insert b S) x ((r(b := r p, p := b)) x)" if x: "x \<in> insert base (insert b S)" for x
  proof -
    consider "x = p" | "x = b" "x \<noteq> p" | "x \<in> insert base S" "x \<noteq> p" "x \<noteq> b" using x by blast
    then show ?thesis
    proof cases
      case 1
      then show ?thesis using assms(3,5) by (auto simp: follows_def)
    next
      case 2
      then show ?thesis using ring_okD(1) [OF assms(1,2)] assms(3,4,5)
        by (simp add: follows_def) (metis leD le_less_linear less_trans nat_neq_iff order.strict_implies_order)
    next
      case 3
      have "\<not> (x < b \<and> (b < r x \<or> r x = base \<and> (\<forall>z \<in> S. z \<le> x)))"
        using ring_okD(1) [OF assms(1) 3(1)] assms(2,3,5) 3 ge
        by (metis insertE leD le_less_linear le_neq_implies_less less_trans)
      then show ?thesis using ring_okD(1) [OF assms(1) 3(1)] 3 by (auto simp: follows_def)
    qed
  qed
  then show ?thesis using assms(1) b by (simp add: ring_ok_def)
qed

lemma ring_remove:
  assumes "ring_ok base S r" "p \<in> insert base S" "r p \<in> S"
  shows "ring_ok base (S - {r p}) (r(p := r (r p)))"
proof -
  note ge = ring_ge [OF assms(1)]
  have p: "p < r p" "\<forall>z \<in> S. \<not> (p < z \<and> z < r p)" using ring_okD(1) [OF assms(1,2)] ring_base [OF assms(1,3)] by auto
  have "follows base (S - {r p}) x ((r(p := r (r p))) x)" if x: "x \<in> insert base (S - {r p})" for x
  proof (cases "x = p")
    case True
    have "follows base S (r p) (r (r p))" using assms(1,3) by (simp add: ring_ok_def)
    then consider "r (r p) \<in> S" "r p < r (r p)" "\<forall>z \<in> S. \<not> (r p < z \<and> z < r (r p))" | "r (r p) = base" "\<forall>z \<in> S. z \<le> r p"
      by (auto simp: follows_def)
    then show ?thesis
    proof cases
      case 1
      then show ?thesis using True p by (auto simp: follows_def)
    next
      case 2
      have "z \<le> p" if "z \<in> S - {r p}" for z using 2(2) p(2) that by (metis DiffD1 DiffD2 insertI1 le_neq_implies_less not_le)
      then show ?thesis using True 2(1) by (simp add: follows_def)
    qed
  next
    case False
    have x': "x \<in> insert base S" using x by blast
    have "r x \<noteq> r p" if "r x \<in> S"
    proof
      assume e: "r x = r p"
      then have "x < r p" "\<forall>z \<in> S. \<not> (x < z \<and> z < r p)" using ring_okD(1) [OF assms(1) x'] that ring_base [OF assms(1,3)] by auto
      then show False using p False x' assms(2) ge [OF x'] ge [OF assms(2)] by (metis insertE leD linorder_neqE_nat)
    qed
    then show ?thesis using ring_okD(1) [OF assms(1), of x] x False
      by (auto simp: follows_def)
  qed
  then show ?thesis using assms(1) by (auto simp: ring_ok_def)
qed

section \<open>Finding the place of a block\<close>

lemma find_from_below:
  assumes "ring_ok base S (hptr h)" "bp \<notin> S" "base < bp" "x \<in> insert base S" "x < bp"
  shows "\<exists>p \<in> insert base S. free_find h bp x = Some p \<and> p < bp \<and> (\<forall>z \<in> S. \<not> (p < z \<and> z < bp))"
  using assms(4,5)
proof (induction "card {z \<in> S. x < z \<and> z < bp}" arbitrary: x rule: less_induct)
  case (less x)
  note d = ring_okD [OF assms(1) less.prems(1)]
  show ?case
  proof (cases "hptr h x \<in> S \<and> hptr h x < bp")
    case True
    then have x: "x < hptr h x" using d(1) ring_base [OF assms(1)] by auto
    have "{z \<in> S. hptr h x < z \<and> z < bp} \<subset> {z \<in> S. x < z \<and> z < bp}" using True x by auto
    then have "card {z \<in> S. hptr h x < z \<and> z < bp} < card {z \<in> S. x < z \<and> z < bp}"
      using assms(1) by (intro psubset_card_mono) (simp_all add: ring_ok_def)
    from less.hyps [OF this] obtain p where "p \<in> insert base S" "free_find h bp (hptr h x) = Some p" "p < bp"
      "\<forall>z \<in> S. \<not> (p < z \<and> z < bp)" using True by blast
    moreover have "free_find h bp x = free_find h bp (hptr h x)" using True x by (subst free_find.simps) simp
    ultimately show ?thesis by metis
  next
    case False
    then have n: "\<forall>z \<in> S. \<not> (x < z \<and> z < bp)" using d(1) assms(2) less.prems(2)
      by (metis leD less_trans linorder_neqE_nat)
    have "free_find h bp x = Some x" using d(1) False less.prems(2) assms(2,3) ring_ge [OF assms(1) less.prems(1)]
      by (subst free_find.simps) (auto simp: not_less le_less)
    then show ?thesis using n less.prems by blast
  qed
qed

lemma find_from_above:
  assumes "ring_ok base S (hptr h)" "base < bp" "x \<in> S" "bp < x"
  shows "free_find h bp x = free_find h bp base"
  using assms(3,4)
proof (induction "card {z \<in> S. x < z}" arbitrary: x rule: less_induct)
  case (less x)
  note d = ring_okD(1) [OF assms(1), of x]
  show ?case
  proof (cases "hptr h x = base")
    case True
    then show ?thesis using less.prems assms(2) by (subst free_find.simps) auto
  next
    case False
    then have x: "hptr h x \<in> S" "x < hptr h x" using d less.prems by auto
    then have "{z \<in> S. hptr h x < z} \<subset> {z \<in> S. x < z}" by auto
    then have "card {z \<in> S. hptr h x < z} < card {z \<in> S. x < z}"
      using assms(1) by (intro psubset_card_mono) (simp_all add: ring_ok_def)
    from less.hyps [OF this x(1)] less.prems x have "free_find h bp (hptr h x) = free_find h bp base" by simp
    moreover have "free_find h bp x = free_find h bp (hptr h x)" using x less.prems by (subst free_find.simps) auto
    ultimately show ?thesis by simp
  qed
qed

lemma free_find_place:
  assumes "ring_ok base S (hptr h)" "bp \<notin> S" "base < bp" "x \<in> insert base S"
  shows "\<exists>p \<in> insert base S. free_find h bp x = Some p \<and> p < bp \<and> (\<forall>z \<in> S. \<not> (p < z \<and> z < bp))"
proof (cases "x < bp")
  case True
  then show ?thesis by (rule find_from_below [OF assms])
next
  case False
  then have "x \<in> S" "bp < x" using assms by (auto simp: not_less le_less)
  from find_from_above [OF assms(1,3) this] find_from_below [OF assms(1-3), of base] assms(3) show ?thesis by simp
qed

end
