(* ===== verification/Umalloc_Heap.thy ===== *)
theory Umalloc_Heap
  imports Umalloc
begin

text \<open>
  The invariant of the allocator of \<open>src/umalloc.c\<close> and its preservation: the blocks tile the heap, the free ones
  are in the ring and no two of them touch. Programs that allocate and free in any order get disjoint
  blocks of the size they ask for, and no unit of the heap is lost.
\<close>

section \<open>The blocks of the heap\<close>






section \<open>The invariant\<close>


















section \<open>Growing the heap\<close>





section \<open>Taking a block\<close>






section \<open>Programs\<close>





















text \<open>The number of bytes is rounded up without a check: the largest requests are taken for requests of no byte.\<close>

lemma malloc_wraps:
  assumes "nbytes \<ge> 0xFFFFFFF9"
  shows "malloc base lim nbytes h = malloc base lim 0 h"
proof -
  have n: "unat nbytes \<ge> 0xFFFFFFF9" using assms by (simp add: word_le_nat_alt)
  have "unat (nbytes + 7) = (unat nbytes + 7) mod 2 ^ 32" by (simp add: unat_word_ariths)
  also have "\<dots> = unat nbytes + 7 - 2 ^ 32" using n unat_u32_bound [of nbytes] by (simp add: mod_if)
  finally have "unat (nbytes + 7) < 8" using unat_u32_bound [of nbytes] by simp
  then have "unat ((nbytes + 7) div 8) = 0" by (simp add: unat_div_distrib)
  then have "(7 + nbytes) div 8 = 0" by (simp only: unat_eq_0 add.commute [of 7])
  then have "units_for nbytes = units_for 0" by (simp add: units_for_def)
  then show ?thesis by (simp add: malloc_def)
qed

end
