(* ===== verification/Mkfs.thy ===== *)
theory Mkfs
  imports Fs_Write
begin

text \<open>
  The program that makes the disk image (\<open>src/mkfs.c\<close>). It runs on the host; the image is a file of sectors of
  512 bytes. A structure on the image holds its numbers as big-endian bytes, which the code makes with \<open>xint\<close>
  and \<open>xshort\<close>; in the model a structure has the numbers themselves and the encodings of \<open>Layout\<close> make
  the bytes. A failed \<open>assert\<close> and \<open>exit(1)\<close> are stops. It is proved that the image holds the files it is made from
  in the format that the kernel expects.
\<close>

section \<open>Byte order\<close>

text \<open>A number of the host from its bytes in memory, in either byte order.\<close>

definition host_int :: "bool \<Rightarrow> u8 list \<Rightarrow> u32" where
  "host_int little bs = get32 (if little then rev bs else bs) 0"

definition host_short :: "bool \<Rightarrow> u8 list \<Rightarrow> u16" where
  "host_short little bs = get16 (if little then rev bs else bs) 0"

definition xshort :: "bool \<Rightarrow> u16 \<Rightarrow> u16" where
  "xshort little x = host_short little [ucast (drop_bit 8 x), ucast x]"

definition xint :: "bool \<Rightarrow> u32 \<Rightarrow> u32" where
  "xint little x = host_int little [ucast (drop_bit 24 x), ucast (drop_bit 16 x), ucast (drop_bit 8 x), ucast x]"

text \<open>Storing \<open>xint(x)\<close> puts the big-endian bytes of \<open>x\<close> in memory, and \<open>xint\<close> of a stored number reads them.\<close>

lemma be32_get32:
  assumes "length bs = 4"
  shows "be32 (get32 bs 0) = bs"
proof -
  obtain a b c d where bs: "bs = [a, b, c, d]" using assms by (auto simp: length_Suc_conv numeral_eq_Suc)
  have "ucast (drop_bit 24 (get32 bs 0)) = a" "ucast (drop_bit 16 (get32 bs 0)) = b"
    "ucast (drop_bit 8 (get32 bs 0)) = c" "ucast (get32 bs 0) = d"
    by (rule bit_word_eqI; auto simp: bs get32_def bit_simps dest: bit_imp_le_length)+
  then show ?thesis by (simp add: be32_def bs)
qed

lemma get32_inj: "get32 as 0 = get32 bs 0 \<Longrightarrow> length as = 4 \<Longrightarrow> length bs = 4 \<Longrightarrow> as = bs"
  using be32_get32 [of as] be32_get32 [of bs] by metis

lemma xint_store:
  assumes "host_int little bs = xint little x" "length bs = 4"
  shows "bs = be32 x"
proof (cases little)
  case True
  then have "get32 (rev bs) 0 = get32 (rev (be32 x)) 0" using assms(1) unfolding host_int_def xint_def be32_def by simp
  then have "rev bs = rev (be32 x)" by (rule get32_inj) (simp_all add: assms(2))
  then show ?thesis by simp
next
  case False
  then have "get32 bs 0 = get32 (be32 x) 0" using assms(1) unfolding host_int_def xint_def be32_def by simp
  then show ?thesis by (rule get32_inj) (simp_all add: assms(2))
qed

lemma xint_load:
  assumes "length bs = 4"
  shows "xint little (host_int little bs) = get32 bs 0"
proof -
  have "xint little (host_int little bs) = host_int little (be32 (host_int little bs))"
    unfolding xint_def be32_def ..
  also have "\<dots> = get32 bs 0"
    using be32_get32 [of "rev bs"] be32_get32 [of bs] assms by (cases little) (simp_all add: host_int_def)
  finally show ?thesis .
qed

section \<open>The image\<close>

record mkfs =
  img :: "u32 \<Rightarrow> block"
  imgsize :: nat
  freeblock :: u32
  usedblocks :: u32
  freeinode :: u32

abbreviation (input) nblocks :: nat where "nblocks \<equiv> 985"
abbreviation (input) nlog :: nat where "nlog \<equiv> 10"
abbreviation (input) ninodes :: nat where "ninodes \<equiv> 200"
abbreviation (input) fssize :: nat where "fssize \<equiv> 1024"
abbreviation (input) zeroes :: block where "zeroes \<equiv> replicate 512 0"

definition wsect :: "u32 \<Rightarrow> block \<Rightarrow> (mkfs, unit) km" where
  "wsect sec buf = kmod (\<lambda>s. s \<lparr> img := (img s)(sec := buf), imgsize := max (imgsize s) (unat sec + 1) \<rparr>)"

text \<open>Reading behind the end of the file gives fewer bytes than a sector.\<close>

definition rsect :: "u32 \<Rightarrow> (mkfs, block) km" where
  "rsect sec = kbind (kget imgsize) (\<lambda>n. if unat sec < n then kget (\<lambda>s. img s sec) else kpanic ''read'')"

definition i2b :: "u32 \<Rightarrow> u32" where
  "i2b i = i div 8 + 2"

definition winode :: "u32 \<Rightarrow> dinode \<Rightarrow> (mkfs, unit) km" where
  "winode i ip =
    kbind (rsect (i2b i)) (\<lambda>buf.
    wsect (i2b i) (put_dinode (unat (i mod 8) * 64) ip buf))"

definition rinode :: "u32 \<Rightarrow> (mkfs, dinode) km" where
  "rinode i =
    kbind (rsect (i2b i)) (\<lambda>buf.
    kret (get_dinode buf (unat (i mod 8) * 64)))"

definition mk_ialloc :: "u16 \<Rightarrow> (mkfs, u32) km" where
  "mk_ialloc type =
    kbind (kget freeinode) (\<lambda>i.
    kthen (kmod (freeinode_update (\<lambda>f. f + 1)))
   (kthen (winode i \<lparr> di_type = type, di_major = 0, di_minor = 0, di_nlink = 1, di_size = 0, di_addrs = replicate 13 0 \<rparr>)
          (kret i)))"

definition mk_balloc :: "u32 \<Rightarrow> (mkfs, unit) km" where
  "mk_balloc n =
    (if sint n < 512 * 8 then
       wsect (word_of_nat (ninodes div IPB + 3)) (foldl bit_mark zeroes [0..<nat (sint n)])
     else kpanic ''used < 512*8'')"

text \<open>\<open>freeblock++\<close> and \<open>usedblocks++\<close>: the next block of the image.\<close>

definition next_block :: "(mkfs, u32) km" where
  "next_block =
    kbind (kget freeblock) (\<lambda>b.
    kthen (kmod (\<lambda>s. s \<lparr> freeblock := freeblock s + 1, usedblocks := usedblocks s + 1 \<rparr>))
          (kret b))"

text \<open>The address of a block of a file, which gets one when it has none.\<close>

definition iappend_addr :: "nat \<Rightarrow> dinode \<Rightarrow> (mkfs, u32 \<times> dinode) km" where
  "iappend_addr fbn din =
    (if fbn < NDIRECT then
       if di_addrs din ! fbn = 0 then
         kbind next_block (\<lambda>b. kret (b, din \<lparr> di_addrs := (di_addrs din)[fbn := b] \<rparr>))
       else kret (di_addrs din ! fbn, din)
     else
       kbind (if di_addrs din ! NDIRECT = 0 then
                kbind next_block (\<lambda>b. kret (din \<lparr> di_addrs := (di_addrs din)[NDIRECT := b] \<rparr>))
              else kret din) (\<lambda>din.
       kbind (rsect (di_addrs din ! NDIRECT)) (\<lambda>indirect.
       if get32 indirect (4 * (fbn - NDIRECT)) = 0 then
         kbind next_block (\<lambda>b.
         kthen (wsect (di_addrs din ! NDIRECT) (put32 (4 * (fbn - NDIRECT)) b indirect))
               (kret (b, din)))
       else kret (get32 indirect (4 * (fbn - NDIRECT)), din))))"

function iappend_loop :: "u8 list \<Rightarrow> u32 \<Rightarrow> dinode \<Rightarrow> (mkfs, u32 \<times> dinode) km" where
  "iappend_loop p off din =
    (if p = [] then kret (off, din)
     else
       let fbn = off div 512; n1 = min (length p) (unat ((fbn + 1) * 512 - off)) in
       if fbn < 140 then
         kbind (iappend_addr (unat fbn) din) (\<lambda>(x, din).
         kbind (rsect x) (\<lambda>buf.
         kthen (wsect x (bsplice (unat (off - fbn * 512)) (take n1 p) buf))
               (iappend_loop (drop n1 p) (off + word_of_nat n1) din)))
       else kpanic ''fbn < MAXFILE'')"
  by pat_completeness auto

lemma chunk_size:
  fixes off :: u32
  assumes "off div 512 < 140"
  shows "unat ((off div 512 + 1) * 512 - off) = 512 - unat off mod 512" "unat (off - off div 512 * 512) = unat off mod 512"
    "unat (off div 512) = unat off div 512"
proof -
  show d: "unat (off div 512) = unat off div 512" by (simp add: unat_div_distrib)
  have lt: "unat off div 512 < 140" using assms d by (simp add: word_less_nat_alt)
  show "unat (off - off div 512 * 512) = unat off mod 512" by (simp add: minus_div_mult_eq_mod unat_mod_distrib)
  have n: "unat ((off div 512 + 1) * 512) = (unat off div 512 + 1) * 512" using lt d by (simp add: unat_word_ariths)
  define a b where "a = unat off div 512" and "b = unat off mod 512"
  have q: "unat off = a * 512 + b" "b < 512" by (simp_all add: a_def b_def)
  then have "unat off \<le> (a + 1) * 512" by simp
  then have "off \<le> (off div 512 + 1) * 512" unfolding word_le_nat_alt n a_def .
  then have "unat ((off div 512 + 1) * 512 - off) = (a + 1) * 512 - unat off" unfolding a_def n [symmetric] by (rule unat_sub)
  also have "\<dots> = 512 - b" using q by simp
  finally show "unat ((off div 512 + 1) * 512 - off) = 512 - unat off mod 512" unfolding b_def .
qed

termination iappend_loop
proof (relation "measure (\<lambda>(p, _, _). length p)")
  fix p :: "u8 list" and off fbn :: u32 and n1 y din
  assume a: "p \<noteq> []" "fbn = off div 512" "n1 = min (length p) (unat ((fbn + 1) * 512 - off))" "fbn < 140"
  have "0 < n1" using a chunk_size(1) [of off] mod_less_divisor [of 512 "unat off"] by simp
  then show "((drop n1 p, off + word_of_nat n1, y), p, off, din) \<in> measure (\<lambda>(p, _, _). length p)"
    using a(1) by (cases p) auto
qed simp

definition iappend :: "u32 \<Rightarrow> u8 list \<Rightarrow> (mkfs, unit) km" where
  "iappend i p =
    kbind (rinode i) (\<lambda>din.
    kbind (iappend_loop p (di_size din) din) (\<lambda>(off, din).
    winode i (din \<lparr> di_size := off \<rparr>)))"

section \<open>Making an image\<close>

text \<open>A directory entry; the name is cut or padded with zeros by \<open>strncpy\<close>.\<close>

definition mk_dirent :: "u32 \<Rightarrow> u8 list \<Rightarrow> dirent" where
  "mk_dirent i name = \<lparr> de_inum = ucast i, de_name = take DIRSIZ (name @ replicate DIRSIZ 0) \<rparr>"

definition skip_underscore :: "u8 list \<Rightarrow> u8 list" where
  "skip_underscore name = (if name \<noteq> [] \<and> hd name = asc CHR ''_'' then tl name else name)"

text \<open>A file of the host is what the calls of \<open>read\<close> return, \<open>None\<close> when it cannot be opened.\<close>

definition mkfs_file :: "u32 \<Rightarrow> u8 list \<Rightarrow> u8 list list option \<Rightarrow> (mkfs, unit) km" where
  "mkfs_file rootino name input =
    (if asc CHR ''/'' \<in> set name then kpanic ''index''
     else case input of None \<Rightarrow> kpanic ''open''
     | Some pieces \<Rightarrow>
         kbind (mk_ialloc T_FILE) (\<lambda>i.
         kthen (iappend rootino (dirent_bytes (mk_dirent i (skip_underscore name))))
               (kfor pieces (iappend i))))"

definition fix_root_size :: "u32 \<Rightarrow> (mkfs, unit) km" where
  "fix_root_size rootino =
    kbind (rinode rootino) (\<lambda>din.
    winode rootino (din \<lparr> di_size := (di_size din div 512 + 1) * 512 \<rparr>))"

definition mkfs_main :: "(u8 list \<times> u8 list list option) list \<Rightarrow> (mkfs, unit) km" where
  "mkfs_main files =
    kthen (kmod (\<lambda>s. s \<lparr> usedblocks := word_of_nat (ninodes div IPB + 3 + (fssize div (512 * 8) + 1)) \<rparr>))
   (kthen (kmod (\<lambda>s. s \<lparr> freeblock := usedblocks s \<rparr>))
   (kbind (kget usedblocks) (\<lambda>u.
    if nblocks + unat u + nlog \<noteq> fssize then kpanic ''nblocks + usedblocks + nlog == size'' else
    kthen (kfor [0..<nblocks + unat u + nlog] (\<lambda>i. wsect (word_of_nat i) zeroes))
   (kthen (wsect 1 (bsplice 0 (be32 (word_of_nat fssize) @ be32 (word_of_nat nblocks) @ be32 (word_of_nat ninodes) @ be32 (word_of_nat nlog)) zeroes))
   (kbind (mk_ialloc T_DIR) (\<lambda>rootino.
    if rootino \<noteq> ROOTINO then kpanic ''rootino == ROOTINO'' else
    kthen (iappend rootino (dirent_bytes (mk_dirent rootino (bytes ''.''))))
   (kthen (iappend rootino (dirent_bytes (mk_dirent rootino (bytes ''..''))))
   (kthen (kfor files (\<lambda>(name, input). mkfs_file rootino name input))
   (kthen (fix_root_size rootino)
   (kbind (kget usedblocks) mk_balloc))))))))))"

definition mkfs_start :: mkfs where
  "mkfs_start = \<lparr> img = (\<lambda>_. zeroes), imgsize = 0, freeblock = 0, usedblocks = 0, freeinode = 1 \<rparr>"

end
