(* ===== verification/Kframe.thy ===== *)
theory Kframe
  imports Proc Fs_Path
begin

text \<open>
  What the layers below leave alone in the state of the kernel. The file system does not touch what the kernel's
  state adds to its own; the operations on memory, on the console and on the locks of the process table touch their own
  fields. So the process table and the file table change only where the code of \<open>src/proc.c\<close>, \<open>src/file.c\<close> and
  \<open>src/sysfile.c\<close> names them.
\<close>

section \<open>The file system and the rest of the state\<close>

lemma above_bst [frames]:
  "keeps fst.more (kmod (upd_buf b g))"
  "keeps fst.more (wakeup c)"
  "keeps fst.more (bget_data b)"
  "keeps fst.more (bset_data b d)"
  by (auto simp: upd_buf_def wakeup_def bget_data_def bset_data_def intro!: keeps_kmod frames)

lemma above_bio [frames]:
  "keeps fst.more (iderw b)" "keeps fst.more (bread dev sec)" "keeps fst.more (bwrite b)" "keeps fst.more (brelse b)" "keeps fst.more (readsb dev)"
proof -
  show i: "keeps fst.more (iderw b)" for b
    unfolding iderw_def by (intro frames keeps_kmod) (simp_all add: upd_buf_def)
  have "keeps fst.more (bget dev sec)" unfolding bget_def by (intro frames)
  then show r: "keeps fst.more (bread dev sec)" for dev sec unfolding bread_def bget_def by (intro frames i)
  show "keeps fst.more (bwrite b)" unfolding bwrite_def by (intro frames i)
  show l: "keeps fst.more (brelse b)" for b unfolding brelse_def by (intro frames keeps_kmod) (simp add: upd_buf_def)
  show "keeps fst.more (readsb dev)" unfolding readsb_def by (intro frames r l)
qed

lemma above_log [frames]:
  "keeps fst.more (log_write b)" "keeps fst.more begin_trans" "keeps fst.more commit_trans"
proof -
  show "keeps fst.more (log_write b)" unfolding log_write_def by (intro frames keeps_kmod) (simp_all add: upd_buf_def)
  show "keeps fst.more begin_trans" unfolding begin_trans_def by (intro frames keeps_kmod) simp_all
  show "keeps fst.more commit_trans" unfolding commit_trans_def write_head_def install_trans_def
    by (intro frames keeps_kmod) simp_all
qed

lemma above_blocks [frames]: "keeps fst.more (bzero dev bno)" "keeps fst.more (balloc dev)" "keeps fst.more (bfree dev bno)"
proof -
  show z: "keeps fst.more (bzero dev bno)" for dev bno unfolding bzero_def by (intro frames)
  have "keeps fst.more (balloc_loop dev sb bs)" for sb bs
    by (induction bs) (simp_all, (intro frames z; assumption)+)
  then show "keeps fst.more (balloc dev)" unfolding balloc_def by (intro frames)
  show "keeps fst.more (bfree dev bno)" unfolding bfree_def Let_def by (intro frames)
qed

lemma above_upd_inode [frames]: "keeps fst.more (kmod (upd_inode ip g))"
  by (rule keeps_kmod) (simp add: upd_inode_def)

lemma above_inodes [frames]:
  "keeps fst.more (iupdate ip)" "keeps fst.more (idup ip)" "keeps fst.more (ilock ip)" "keeps fst.more (iunlock ip)"
  "keeps fst.more (bmap ip bn)" "keeps fst.more (itrunc ip)" "keeps fst.more (iput ip)" "keeps fst.more (iunlockput ip)"
  "keeps fst.more (iget dev i)"
proof -
  show u: "keeps fst.more (iupdate ip)" for ip unfolding iupdate_def by (intro frames)
  show "keeps fst.more (idup ip)" unfolding idup_def by (intro frames)
  show "keeps fst.more (ilock ip)" unfolding ilock_def Let_def by (intro frames)
  show l: "keeps fst.more (iunlock ip)" for ip unfolding iunlock_def by (intro frames)
  show "keeps fst.more (bmap ip bn)" unfolding bmap_def Let_def by (intro frames)
  show t: "keeps fst.more (itrunc ip)" for ip unfolding itrunc_def Let_def by (intro frames u)
  show p: "keeps fst.more (iput ip)" for ip unfolding iput_def by (intro frames u t)
  show "keeps fst.more (iunlockput ip)" unfolding iunlockput_def by (intro frames l p)
  show "keeps fst.more (iget dev i)" unfolding iget_def by (intro frames)
qed

section \<open>The process table\<close>

text \<open>Of every process its state, number and parent; who runs, who is \<open>init\<close>, and the next number.\<close>

definition family :: "kst \<Rightarrow> (nat \<Rightarrow> procstate \<times> int \<times> nat option) \<times> nat option \<times> nat option \<times> int" where
  "family s = ((\<lambda>p. (pstate (procs s p), pid (procs s p), parent (procs s p))), cur s, initproc s, nextpid s)"

text \<open>The open files: the table and the descriptors.\<close>

definition opened :: "kst \<Rightarrow> (nat \<Rightarrow> int) \<times> (nat \<Rightarrow> nat \<Rightarrow> nat option)" where
  "opened s = ((\<lambda>f. fref (files s f)), (\<lambda>p. ofile (procs s p)))"

lemma above_fields:
  fixes s s' :: kst
  assumes "fst.more s' = fst.more s"
  shows "procs s' = procs s" "files s' = files s" "cur s' = cur s" "initproc s' = initproc s" "nextpid s' = nextpid s"
  using assms by (cases s; cases s'; simp)+

lemma keeps_above:
  assumes "keeps fst.more m"
  shows "keeps family m" "keeps opened m"
proof -
  have "family s' = family s \<and> opened s' = opened s" if "m s = Inr (x, s')" for s x s'
    using above_fields [OF keepsD [OF assms that]] by (simp add: family_def opened_def)
  then show "keeps family m" "keeps opened m" by (simp_all add: keeps_def wlp_iff)
qed

lemmas family_above [frames] = above_bst [THEN keeps_above(1)] above_bio [THEN keeps_above(1)] above_log [THEN keeps_above(1)]
  above_inodes [THEN keeps_above(1)]
lemmas opened_above [frames] = above_bst [THEN keeps_above(2)] above_bio [THEN keeps_above(2)] above_log [THEN keeps_above(2)]
  above_inodes [THEN keeps_above(2)]

lemma keeps_klift: "(\<And>t s. f (put t s) = f s) \<Longrightarrow> keeps f (klift get put m)"
  by (auto simp: keeps_def wlp_iff klift_def split: sum.splits prod.splits)

lemma keeps_lifted [frames]:
  "keeps family (on_mem m)" "keeps opened (on_mem m)" "keeps family (on_cons n)" "keeps opened (on_cons n)"
  "keeps family (on_ptlock l)" "keeps opened (on_ptlock l)" "keeps family switchkvm" "keeps opened switchkvm"
  by (auto simp: on_mem_def on_cons_def on_ptlock_def switchkvm_def family_def opened_def intro!: keeps_klift keeps_kmod)

lemma keeps_switchuvm [frames]: "keeps family (switchuvm p)" "keeps opened (switchuvm p)"
  unfolding switchuvm_def by (intro frames keeps_klift keeps_kmod; simp add: family_def opened_def)+

lemma family_upd_proc:
  assumes "\<And>x. pstate (g x) = pstate x" "\<And>x. pid (g x) = pid x" "\<And>x. parent (g x) = parent x"
  shows "keeps family (kmod (upd_proc p g))" "keeps family (set_myproc g)"
proof -
  have "family (upd_proc p g s) = family s" for p s using assms by (auto simp: upd_proc_def family_def fun_eq_iff)
  then show "keeps family (kmod (upd_proc p g))" "keeps family (set_myproc g)"
    by (auto simp: set_myproc_def intro!: keeps_kmod)
qed

lemma opened_upd_proc:
  assumes "\<And>x. ofile (g x) = ofile x"
  shows "keeps opened (kmod (upd_proc p g))" "keeps opened (set_myproc g)"
proof -
  have "opened (upd_proc p g s) = opened s" for p s using assms by (auto simp: upd_proc_def opened_def fun_eq_iff)
  then show "keeps opened (kmod (upd_proc p g))" "keeps opened (set_myproc g)"
    by (auto simp: set_myproc_def intro!: keeps_kmod)
qed

lemma family_upd_file [frames]: "keeps family (kmod (upd_file f g))"
  by (auto simp: upd_file_def family_def intro!: keeps_kmod)

lemma keeps_myproc [frames]: "keeps f (myproc g)"
  unfolding myproc_def by (intro frames)

lemma keeps_close_pipe [frames]: "keeps family (close_pipe pa w)" "keeps opened (close_pipe pa w)"
  unfolding close_pipe_def by (intro frames keeps_kmod; simp add: family_def opened_def)+

lemma keeps_filetype [frames]:
  "keeps f m1 \<Longrightarrow> keeps f m2 \<Longrightarrow> keeps f m3 \<Longrightarrow> keeps f (case t of FD_NONE \<Rightarrow> m1 | FD_PIPE \<Rightarrow> m2 | FD_INODE \<Rightarrow> m3)"
  by (cases t) simp_all

lemma family_files [frames]: "keeps family (filedup f)" "keeps family (fileclose f)" "keeps family (fork_files np)" "keeps family close_files"
proof -
  show d: "keeps family (filedup f)" for f unfolding filedup_def by (intro frames)
  show c: "keeps family (fileclose f)" for f unfolding fileclose_def by (intro frames)
  show "keeps family (fork_files np)" unfolding fork_files_def by (intro frames d family_upd_proc) simp_all
  show "keeps family close_files" unfolding close_files_def by (intro frames c family_upd_proc) simp_all
qed

end
