(* ===== verification/Kernel0.thy ===== *)
theory Kernel0
  imports Proc Fs_Path
begin

text \<open>
  A small state of the kernel, in which the witnesses run: the disk of \<open>Fs_Path\<close> and one process, \<open>init\<close>, with a page
  directory, a page table and one page.
\<close>

definition proc0 :: proc where
  "proc0 = \<lparr> psz = 0, pgdir = 0, kstack = 0, tfp = 0, ctxp = 0, pcontext = (0, 0), pstate = UNUSED, pid = 0, parent = None,
     tf = zero_tf, pchan = None, killed = False, ofile = (\<lambda>_. None), cwd = None, pname = replicate 16 0 \<rparr>"

definition init0 :: proc where
  "init0 = proc0 \<lparr> psz := 16, pgdir := 0x80001000, kstack := 0x80004000, pstate := RUNNING, pid := 1,
     tf := zero_tf \<lparr> tr2 := 4 \<rparr>, cwd := Some 0 \<rparr>"

definition mem0 :: mem where
  "mem0 = (\<lambda>_. 0)
    (0x80001002 := 0x20, 0x80001003 := 1, 0x80002002 := 0x30, 0x80002003 := 1, 0x80003003 := 7, 0x80003004 := 104, 0x80003005 := 105)"

definition cpu0 :: cpu where
  "cpu0 = \<lparr> ncli = 0, intena = False, ie = False \<rparr>"

definition free_lock :: spinlock where
  "free_lock = \<lparr> locked = 0, lk_cpu = None, pcs = [] \<rparr>"

definition kst0 :: kst where
  "kst0 = \<lparr> disk = root_disk, disksize = 100, dtrace = [], bufs = bufs bst0, lru = rev [0..<NBUF], woken = [],
    lstart = 90, lsize = 10, lbusy = False, ldev = 1, lhn = 0, lhsector = replicate LOGSIZE 0,
    inodes = (\<lambda>ip. \<lparr> idev = 1, inum = 1, iref = (if ip = 0 then 1 else 0), ibusy = False, ivalid = False, idi = root_dinode \<rparr>),
    kmm = \<lparr> klock = \<lparr> lk = free_lock, lcpu = cpu0, me = 0 \<rparr>, use_lock = False, freelist = 0, memory = mem0 \<rparr>,
    kcpu = cpu0, pdt = 0, kpgdir = 0, kend = 0x80000000, kdata = 0x80000000, kforkret = 0, ktrapret = 0,
    cons = \<lparr> locking = False, panicked = False, uart = False, txd = [], ibuf = replicate 128 0, ir = 0, iw = 0, ie = 0, cwoken = [] \<rparr>,
    files = (\<lambda>_. \<lparr> ftype = FD_NONE, fref = 0, readable = False, writable = False, fpipe = 0, fip = 0, foff = 0 \<rparr>),
    pipes = (\<lambda>_. pipe_init []), ptlock = free_lock, procs = (\<lambda>p. if p = 0 then init0 else proc0),
    cur = Some 0, initproc = Some 0, nextpid = 2, ticks = 0 \<rparr>"

end
