(* ===== verification/Proc_Table.thy ===== *)
theory Proc_Table
  imports Kframe Kernel0
begin

text \<open>
  The process table of \<open>src/proc.c\<close> as a family: every process has a number of its own and a living parent who can
  wait for it, \<open>init\<close> lives, and a process runs exactly when the CPU says so. The operations on processes keep
  this, whatever else they do.
\<close>

section \<open>Families\<close>




















section \<open>The operations\<close>




































section \<open>Histories\<close>










section \<open>The property\<close>





section \<open>Killing a free slot\<close>

lemma procs_lifted: "keeps procs (on_mem m)" "keeps procs (on_ptlock l)"
  by (auto simp: on_mem_def on_ptlock_def intro!: keeps_klift)

lemma locked_pt_procs:
  assumes "\<And>s1. procs s1 = procs s \<Longrightarrow> wlp m (\<lambda>x s2. P x (procs s2)) s1"
  shows "wlp (locked_pt m) (\<lambda>x s'. P x (procs s')) s"
proof -
  have lock: "wlp (on_ptlock l) Q s1" if "\<And>x s2. procs s2 = procs s1 \<Longrightarrow> Q x s2" for l s1 and Q :: "unit \<Rightarrow> kst \<Rightarrow> bool"
    using procs_lifted(2) [of l] that by (auto simp: keeps_def wlp_iff)
  have "wlp (kbind m (\<lambda>x. kthen (on_ptlock release) (kret x))) (\<lambda>x s'. P x (procs s')) s1" if "procs s1 = procs s" for s1
    unfolding wpe_kbind by (rule wpe_mono [OF assms [OF that]]) (auto intro!: lock simp: wpe_kret_abs)
  then show ?thesis unfolding locked_pt_def wpe_kbind [of "on_ptlock acquire"] by (intro lock)
qed

lemma kill_procs:
  assumes "find (\<lambda>p. pid (procs s p) = pd) [0..<NPROC] = Some np"
  shows "wlp (kill pd) (\<lambda>r s'. r = 0 \<and> killed (procs s' np) \<and>
    (\<forall>p. pstate (procs s' p) = (if p = np \<and> pstate (procs s p) = SLEEPING then RUNNABLE else pstate (procs s p)))) s"
  unfolding kill_def by (rule locked_pt_procs [where P = "\<lambda>r pt. r = 0 \<and> killed (pt np) \<and>
    (\<forall>p. pstate (pt p) = (if p = np \<and> pstate (procs s p) = SLEEPING then RUNNABLE else pstate (procs s p)))"])
    (use assms in \<open>simp add: wp_rules upd_proc_def\<close>)

lemma allocproc_killed:
  assumes "find (\<lambda>p. pstate (procs s p) = UNUSED) [0..<NPROC] = Some np"
  shows "wlp allocproc (\<lambda>r s'. \<forall>p. r = Some p \<longrightarrow> p = np \<and> killed (procs s' np) = killed (procs s np)) s"
proof -
  let ?P = "\<lambda>r pt. r = Some np \<and> killed (pt np) = killed (procs s np)"
  have slot: "wlp (kbind (kget procs) (\<lambda>pt.
      case find (\<lambda>p. pstate (pt p) = UNUSED) [0..<NPROC] of
        None \<Rightarrow> kret None
      | Some p \<Rightarrow>
          kthen (kmod (\<lambda>s. (upd_proc p (\<lambda>x. x \<lparr> pstate := EMBRYO, pid := nextpid s \<rparr>) s) \<lparr> nextpid := nextpid s + 1 \<rparr>))
                (kret (Some p)))) (\<lambda>r s2. ?P r (procs s2)) s1" if "procs s1 = procs s" for s1
    using assms that by (simp add: wp_rules upd_proc_def)
  show ?thesis unfolding allocproc_def wpe_kbind [of "locked_pt _"]
  proof (rule wpe_mono [OF locked_pt_procs [OF slot]], goal_cases)
    case (2 r s')
    have "procs s2 = procs s'" if "on_mem kalloc s' = Inr (k, s2)" for k s2 by (rule keepsD [OF procs_lifted(1) that])
    then have "wlp (on_mem kalloc) (\<lambda>_ s2. killed (procs s2 np) = killed (procs s np)) s'"
      unfolding wlp_iff using 2(2) by auto
    then show ?case using 2 by (auto simp: wp_rules Let_def upd_proc_def elim!: wpe_mono)
  qed simp_all
qed

text \<open>
  C38. Killing a free slot. A slot that is not in use has the number 0 at first and again when its process has been waited
  for, and \<open>kill\<close> does not look at the state: \<open>kill(0)\<close> succeeds and marks the slot. \<open>allocproc\<close> does not clear the mark, so the next
  process that gets the slot is killed before it starts.
\<close>

theorem kill_free_slot:
  assumes "find (\<lambda>p. pid (procs s p) = 0) [0..<NPROC] = Some np" "find (\<lambda>p. pstate (procs s p) = UNUSED) [0..<NPROC] = Some np"
    "kill 0 s = Inr (r, s1)" "allocproc s1 = Inr (Some p, s2)"
  shows "r = 0 \<and> p = np \<and> killed (procs s2 p)"
proof -
  have np: "pstate (procs s np) = UNUSED" using assms(2) by (auto simp: find_Some_iff)
  have k: "r = 0" "killed (procs s1 np)" "\<And>p. pstate (procs s1 p) = (if p = np \<and> pstate (procs s p) = SLEEPING then RUNNABLE else pstate (procs s p))"
    using kill_procs [OF assms(1)] assms(3) by (auto simp: wlp_iff)
  have "(\<lambda>p. pstate (procs s1 p) = UNUSED) = (\<lambda>p. pstate (procs s p) = UNUSED)" using np by (auto simp: k(3))
  then have "find (\<lambda>p. pstate (procs s1 p) = UNUSED) [0..<NPROC] = Some np" using assms(2) by simp
  from allocproc_killed [OF this] show ?thesis using assms(4) k by (simp add: wlp_iff)
qed

definition kst2 :: kst where
  "kst2 = kst0 \<lparr> kmm := (kmm kst0) \<lparr> freelist := 0x80005000 \<rparr> \<rparr>"

theorem kill_free_slot_witness:
  "\<exists>s1 s2. kill 0 kst2 = Inr (0, s1) \<and> allocproc s1 = Inr (Some 1, s2) \<and> killed (procs s2 1)"
proof -
  have e: "map_sum id (\<lambda>(r, s1). map_sum id fst (allocproc s1)) (kill 0 kst2) = Inr (Inr (Some 1))" by code_simp
  then obtain r s1 where a: "kill 0 kst2 = Inr (r, s1)" by (cases "kill 0 kst2") auto
  with e obtain s2 where b: "allocproc s1 = Inr (Some 1, s2)" by (cases "allocproc s1") auto
  have f: "find (\<lambda>p. pid (procs kst2 p) = 0) [0..<NPROC] = Some 1" "find (\<lambda>p. pstate (procs kst2 p) = UNUSED) [0..<NPROC] = Some 1"
    by code_simp+
  from kill_free_slot [OF f a b] a b show ?thesis by auto
qed

end
