(* ===== verification/Sys_Args.thy ===== *)
theory Sys_Args
  imports Sysfile Kernel0
begin

text \<open>
  What the argument functions of \<open>src/syscall.c\<close> let through. A process has the addresses below its size, and all of
  them are mapped; the functions are proved to accept exactly the integers, strings and buffers that lie in it,
  apart from buffers of negative size.
\<close>

section \<open>The memory of the running process\<close>

abbreviation mysize :: "kst \<Rightarrow> nat" where
  "mysize s \<equiv> unat (psz (procs s (self s)))"

definition user_byte :: "kst \<Rightarrow> u32 \<Rightarrow> u8" where
  "user_byte s va = (case uaddr s va of None \<Rightarrow> 0 | Some a \<Rightarrow> memory (kmm s) a)"

definition user_bytes :: "kst \<Rightarrow> u32 \<Rightarrow> nat \<Rightarrow> u8 list" where
  "user_bytes s va n = map (\<lambda>i. user_byte s (va + word_of_nat i)) [0..<n]"

text \<open>The string at an address, when it ends inside the process.\<close>

definition user_string :: "kst \<Rightarrow> u32 \<Rightarrow> u8 list option" where
  "user_string s va =
    (let bs = user_bytes s va (mysize s - unat va) in if 0 \<in> set bs then Some (takeWhile (\<lambda>b. b \<noteq> 0) bs) else None)"

text \<open>A process below the kernel whose pages are all there.\<close>

definition user_mapped :: "kst \<Rightarrow> bool" where
  "user_mapped s \<longleftrightarrow> mysize s \<le> 0x80000000 \<and> (\<forall>va. unat va < mysize s \<longrightarrow> uaddr s va \<noteq> None)"

definition arg_word :: "kst \<Rightarrow> nat \<Rightarrow> u32" where
  "arg_word s n = (let t = tf (procs s (self s)) in [tr1 t, tr2 t, tr3 t, tr4 t, tr5 t, tr6 t] ! n)"

lemma user_bytes_Suc: "user_bytes s va (Suc n) = user_byte s va # user_bytes s (va + 1) n"
proof -
  have "map (\<lambda>i. user_byte s (va + word_of_nat i)) [0..<Suc n] =
      user_byte s va # map (\<lambda>i. user_byte s (va + word_of_nat (Suc i))) [0..<n]"
    by (simp add: upt_conv_Cons map_Suc_upt [symmetric] comp_def del: upt_Suc)
  then show ?thesis by (simp add: user_bytes_def add.assoc)
qed

lemma user_bytes_0 [simp]: "user_bytes s va 0 = []"
  by (simp add: user_bytes_def)

lemma ubyte_run: "user_mapped s \<Longrightarrow> unat va < mysize s \<Longrightarrow> ubyte va s = Inr (user_byte s va, s)"
  by (auto simp: user_mapped_def ubyte_def km_defs user_byte_def)

lemma next_address:
  fixes va :: u32
  assumes "user_mapped s" "unat va + Suc n \<le> mysize s"
  shows "unat (va + 1) + n \<le> mysize s" "unat (va + 1) = unat va + 1"
proof -
  show "unat (va + 1) = unat va + 1" using assms by (simp add: user_mapped_def unat_word_ariths)
  then show "unat (va + 1) + n \<le> mysize s" using assms(2) by simp
qed

lemma ubytes_run: "user_mapped s \<Longrightarrow> unat va + n \<le> mysize s \<Longrightarrow> ubytes va n s = Inr (user_bytes s va n, s)"
proof (induction n arbitrary: va)
  case (Suc n)
  have "ubytes (va + 1) n s = Inr (user_bytes s (va + 1) n, s)"
    by (rule Suc.IH [OF Suc.prems(1) next_address(1) [OF Suc.prems]])
  then show ?case using ubyte_run [OF Suc.prems(1), of va] Suc.prems(2)
    by (simp add: kbind_Inr kret_def user_bytes_Suc)
qed (simp add: kret_def)

lemma fetchstr_loop_run:
  "user_mapped s \<Longrightarrow> unat va + n \<le> mysize s \<Longrightarrow> fetchstr_loop va n s =
    Inr (let bs = user_bytes s va n in if 0 \<in> set bs then Some (takeWhile (\<lambda>b. b \<noteq> 0) bs) else None, s)"
proof (induction n arbitrary: va)
  case (Suc n)
  note u = ubyte_run [OF Suc.prems(1), of va]
  have "fetchstr_loop (va + 1) n s =
      Inr (let bs = user_bytes s (va + 1) n in if 0 \<in> set bs then Some (takeWhile (\<lambda>b. b \<noteq> 0) bs) else None, s)"
    by (rule Suc.IH [OF Suc.prems(1) next_address(1) [OF Suc.prems]])
  then show ?case using u Suc.prems(2) by (auto simp: kbind_Inr kret_def user_bytes_Suc Let_def)
qed (simp add: kret_def)

lemma arg_word_run: "n < 6 \<Longrightarrow> argint n s = Inr (Some (arg_word s n), s)"
  by (auto simp: argint_def arg_word_def myproc_def km_defs Let_def less_Suc_eq numeral_eq_Suc)

lemma add_no_wrap:
  assumes "(x :: u32) < p" "unat p \<le> 0x80000000" "unat n < 0x80000000"
  shows "x + n > p \<longleftrightarrow> unat x + unat n > unat p"
proof -
  have "unat (x + n) = unat x + unat n" using assms by (simp add: unat_word_ariths word_less_nat_alt)
  then show ?thesis by (simp add: word_less_nat_alt)
qed

lemma user_below: "user_mapped s \<Longrightarrow> mysize s \<le> 0x80000000"
  by (simp add: user_mapped_def)

lemma fetchint_run:
  assumes "user_mapped s"
  shows "fetchint a s = Inr (if unat a + 4 \<le> mysize s then Some (get32 (user_bytes s a 4) 0) else None, s)"
proof (cases "a < psz (procs s (self s))")
  case True
  then show ?thesis using add_no_wrap [OF True user_below [OF assms], of 4] ubytes_run [OF assms, of a 4]
    by (auto simp: fetchint_def myproc_def kbind_Inr kret_def not_le not_less kbind_kget)
next
  case False
  then have "psz (procs s (self s)) \<le> a" by simp
  moreover from this have "mysize s \<le> unat a" by (simp add: word_le_nat_alt)
  ultimately show ?thesis by (simp add: fetchint_def myproc_def kbind_kget kret_def)
qed

lemma fetchstr_run:
  assumes "user_mapped s"
  shows "fetchstr a s = Inr (if unat a < mysize s then user_string s a else None, s)"
  using fetchstr_loop_run [OF assms, of a "mysize s - unat a"]
  by (auto simp: fetchstr_def myproc_def kbind_kget kret_def word_le_nat_alt user_string_def Let_def)

lemma argptr_word:
  assumes "n < 6"
  shows "argptr n len s = (let a = arg_word s n; p = psz (procs s (self s)) in
    Inr (if a < p \<and> a + len \<le> p then Some a else None, s))"
  using arg_word_run [OF assms, of s] by (auto simp: argptr_def kbind_Inr myproc_def kbind_kget kret_def Let_def)

lemma argptr_run:
  assumes "user_mapped s" "n < 6" "unat len < 0x80000000"
  shows "argptr n len s =
    Inr (if unat (arg_word s n) < mysize s \<and> unat (arg_word s n) + unat len \<le> mysize s then Some (arg_word s n) else None, s)"
proof (cases "arg_word s n < psz (procs s (self s))")
  case True
  then have "unat (arg_word s n) < mysize s" by (simp add: word_less_nat_alt)
  moreover have "arg_word s n + len \<le> psz (procs s (self s)) \<longleftrightarrow> unat (arg_word s n) + unat len \<le> mysize s"
    using add_no_wrap [OF True user_below [OF assms(1)] assms(3)] by (metis not_le)
  ultimately show ?thesis using True unfolding argptr_word [OF assms(2)] Let_def by simp
next
  case False
  then have "\<not> unat (arg_word s n) < mysize s" by (simp add: word_less_nat_alt)
  then show ?thesis using False unfolding argptr_word [OF assms(2)] Let_def by simp
qed

lemma argptr_negative:
  assumes "user_mapped s" "n < 6"
  shows "argptr n (- 1) s = Inr (if 0 < arg_word s n \<and> unat (arg_word s n) < mysize s then Some (arg_word s n) else None, s)"
proof -
  let ?a = "arg_word s n" and ?p = "psz (procs s (self s))"
  have "?a + - 1 \<le> ?p \<longleftrightarrow> 0 < ?a" if "?a < ?p"
  proof (cases "?a = 0")
    case True
    then show ?thesis using user_below [OF assms(1)] by (simp add: word_le_nat_alt unat_max_u32)
  next
    case False
    then have "unat (?a - 1) = unat ?a - 1" by (simp add: unat_minus_one)
    then show ?thesis using False that by (simp add: word_le_nat_alt word_less_nat_alt word_neq_0_conv)
  qed
  then have "?a < ?p \<and> ?a + - 1 \<le> ?p \<longleftrightarrow> 0 < ?a \<and> unat ?a < mysize s" using word_less_nat_alt [of ?a ?p] by blast
  then show ?thesis unfolding argptr_word [OF assms(2)] Let_def by simp
qed

section \<open>The property\<close>

text \<open>
  C10. System call arguments stay inside the process. For a process below the kernel whose pages are mapped, \<open>fetchint\<close>
  gives the integer at an address exactly when its four bytes are in the process, \<open>fetchstr\<close> the string that starts at an
  address exactly when it starts and ends there, and \<open>argptr\<close> a buffer exactly when it starts there and all of it is
  there; none of them faults, and reading a buffer that \<open>argptr\<close> let through does not fault either. A negative size is
  taken for a large number whose sum with the address wraps around: with size -1 every address of the process
  but 0 passes.
\<close>

theorem user_arguments:
  assumes "user_mapped s" "n < 6" "unat len < 0x80000000"
  shows "fetchint a s = Inr (if unat a + 4 \<le> mysize s then Some (get32 (user_bytes s a 4) 0) else None, s) \<and>
    fetchstr a s = Inr (if unat a < mysize s then user_string s a else None, s) \<and>
    argptr n len s =
      Inr (if unat (arg_word s n) < mysize s \<and> unat (arg_word s n) + unat len \<le> mysize s then Some (arg_word s n) else None, s) \<and>
    (\<forall>p. argptr n len s = Inr (Some p, s) \<longrightarrow> ubytes p (unat len) s = Inr (user_bytes s p (unat len), s)) \<and>
    argptr n (- 1) s = Inr (if 0 < arg_word s n \<and> unat (arg_word s n) < mysize s then Some (arg_word s n) else None, s)"
proof -
  have "ubytes p (unat len) s = Inr (user_bytes s p (unat len), s)" if "argptr n len s = Inr (Some p, s)" for p
    by (rule ubytes_run [OF assms(1)]) (use argptr_run [OF assms] that in \<open>auto split: if_splits\<close>)
  then show ?thesis using fetchint_run fetchstr_run argptr_run argptr_negative assms by blast
qed

lemma kst0_mapped: "user_mapped kst0"
proof -
  have "uaddr kst0 va \<noteq> None" if "unat va < 16" for va
  proof -
    have "\<forall>i \<in> set [0..<16]. uaddr kst0 (word_of_nat i) \<noteq> None" by code_simp
    then have "uaddr kst0 (word_of_nat (unat va)) \<noteq> None" by (rule bspec) (use that in simp)
    then show ?thesis by simp
  qed
  moreover have "mysize kst0 = 16" by (simp add: kst0_def self_def init0_def)
  ultimately show ?thesis by (simp add: user_mapped_def)
qed

theorem user_arguments_witness:
  "fetchint 0 kst0 = Inr (Some 7, kst0) \<and> fetchint 13 kst0 = Inr (None, kst0) \<and> fetchstr 4 kst0 = Inr (Some [104, 105], kst0) \<and>
    argptr 1 12 kst0 = Inr (Some 4, kst0) \<and> argptr 1 13 kst0 = Inr (None, kst0)"
proof -
  have v: "mysize kst0 = 16" "arg_word kst0 1 = 4" "get32 (user_bytes kst0 0 4) 0 = 7" "user_string kst0 4 = Some [104, 105]"
    by code_simp+
  have "fetchint 0 kst0 = Inr (Some 7, kst0)" "argptr 1 12 kst0 = Inr (Some 4, kst0)" "fetchint 13 kst0 = Inr (None, kst0)"
    "argptr 1 13 kst0 = Inr (None, kst0)" "fetchstr 4 kst0 = Inr (Some [104, 105], kst0)"
    using user_arguments [OF kst0_mapped, of 1 12 0] user_arguments [OF kst0_mapped, of 1 13 13]
      user_arguments [OF kst0_mapped, of 1 12 4] v by simp_all
  then show ?thesis by blast
qed

end
