(* ===== verification/Spec2Isabelle.thy ===== *)
theory Spec2Isabelle
  imports Fs_Write Fs_Path Trap Sh_Render Vm_Map Grep Umalloc_Heap Mkfs Proc_Table Sys_Args
begin

text \<open>
  A verification of xv6 for the mist32 processor (sources under \<open>src/\<close>): the kernel, the shell, \<open>grep\<close>, the memory
  allocator of user programs, and \<open>mkfs\<close>, the program that makes the disk image.

  \<^bold>\<open>The program.\<close> The kernel is a stack of layers. At the bottom are the string routines, the spin locks and the
  allocator of physical pages. Above them are the page tables (\<open>vm.c\<close>) on one side, and on the other side the disk
  (\<open>memide.c\<close>), the buffer cache (\<open>bio.c\<close>), the write-ahead log (\<open>log.c\<close>) and the file system (\<open>fs.c\<close>), in which the
  blocks, inodes, directories and paths are layers of their own. Pipes and the console are devices with a ring
  buffer. The file table (\<open>file.c\<close>) puts inodes, pipes and devices behind descriptors, \<open>proc.c\<close> and
  \<open>exec.c\<close> make processes, and \<open>syscall.c\<close>, \<open>sysfile.c\<close>, \<open>sysproc.c\<close> and \<open>trap.c\<close> are the interface to user programs.

  \<^bold>\<open>How code becomes definitions.\<close> An operation of the kernel is a function on a state that returns a value and a new
  state or stops (type \<open>km\<close> of \<open>Xv6_Prelude\<close>). The stops are \<open>Panic\<close> with the message of the code, \<open>Sleep\<close> on a
  channel, \<open>Spin\<close> for a lock that is never released, and \<open>Fault\<close> for a page that is not mapped. Every early return and
  every panic of the source is a branch. Machine words are \<open>32 word\<close>, \<open>16 word\<close> and \<open>8 word\<close>, and memory and disk blocks are bytes; the
  processor is big-endian. The state is an extensible record: the buffer cache (\<open>bst\<close>) is extended by the
  log (\<open>lst\<close>), by the inode cache (\<open>fst\<close>), and by memory, console, files, pipes and processes (\<open>kst\<close>).
  Weakest preconditions (\<open>wpe\<close> with its rules \<open>wp_rules\<close>) carry the proofs about straight-line code.

  \<^bold>\<open>The theories.\<close>
  \<^item> \<open>Xv6_Prelude\<close>: the monad, its calculus, facts on words.
  \<^item> \<open>Str\<close> (\<open>string.c\<close>): \<open>memmove\<close> in its three loops, comparison and copying of strings.
  \<^item> \<open>Spinlock\<close> (\<open>spinlock.c\<close>): the operations with their panics, nesting of interrupt disabling, and a step
    relation for many CPUs in which at most one is in the critical section.
  \<^item> \<open>Kalloc\<close> (\<open>kalloc.c\<close>, the macros of \<open>mmu.h\<close>): the free list in the pages themselves; the locale \<open>page_allocator\<close>
    states what the clients rely on: pages are owned by one party and no page is lost.
  \<^item> \<open>Ring\<close>: the locale of ring buffers with free-running counters, interpreted for the pipe and for the console.
  \<^item> \<open>Pipe\<close> (\<open>pipe.c\<close>): the calls cut at the points where they sleep, a step relation of readers and writers, and its
    refinement of a bounded channel.
  \<^item> \<open>Fmt\<close> and \<open>Console\<close> (\<open>console.c\<close>, \<open>uart.c\<close>, \<open>atoi\<close> of \<open>ulib.c\<close>): printing of numbers and formats, line editing as a refinement
    of two lists, reading of lines.
  \<^item> \<open>Layout\<close> (\<open>fs.h\<close>): the structures of the disk as bytes, with inverse encodings.
  \<^item> \<open>Bio\<close> (\<open>bio.c\<close>, \<open>buf.h\<close>, \<open>memide.c\<close>): the cache is coherent; the list in order of use is also modelled with its pointers.
  \<^item> \<open>Log\<close>, \<open>Tx\<close>, \<open>Log_Crash\<close> (\<open>log.c\<close>): the invariant of a running transaction, the calculus of updates inside it, and
    atomicity: a crash is a prefix of the history of block writes, followed by recovery, which may crash itself.
  \<^item> \<open>Fs\<close> (\<open>fs.c\<close>): all operations. \<open>Fs_Alloc\<close>, \<open>Fs_Map\<close>, \<open>Fs_File\<close>: the block allocator, \<open>bmap\<close>, and \<open>writei\<close> and \<open>readi\<close> run
    inside a transaction, with the number of log entries and buffers they need. \<open>Fs_Write\<close> joins them with the
    log: reading gives what was written, and a write is atomic across crashes. \<open>Fs_Path\<close>: path lookup keeps
    the reference counts of the inode cache; the elements of a path.
  \<^item> \<open>Vm\<close> and \<open>Vm_Map\<close> (\<open>vm.c\<close>): page tables in physical memory; the mapping that \<open>mappages\<close> makes.
  \<^item> \<open>Kstate\<close>, \<open>File\<close>, \<open>Proc\<close>, \<open>Exec\<close>, \<open>Sysfile\<close>, \<open>Trap\<close>: the state of the kernel and the operations of \<open>file.c\<close>, \<open>proc.c\<close>,
    \<open>exec.c\<close>, \<open>syscall.c\<close>, \<open>sysfile.c\<close>, \<open>sysproc.c\<close> and \<open>trap.c\<close>.
  \<^item> \<open>Kframe\<close>: what the operations of the layers leave alone in the state of the kernel; \<open>Kernel0\<close>: a small state for examples.
  \<^item> \<open>Proc_Table\<close>: a step relation of forks, exits, waits, kills, sleeping, waking and scheduling, under which every process keeps
    a living parent; \<open>kill(0)\<close>. \<open>Sys_Args\<close>: which integers, strings and buffers of the user are accepted.
  \<^item> \<open>Sh\<close>, \<open>Sh_Parse\<close>, \<open>Sh_Render\<close> (\<open>sh.c\<close>): the parser of the shell ends, its words are the strings of the line, and it
    reads back every command from its text.
  \<^item> \<open>Grep\<close> (\<open>grep.c\<close>): the matcher is equivalent to a meaning of patterns; which lines are printed, and which are wrongly.
  \<^item> \<open>Umalloc\<close>, \<open>Umalloc_Heap\<close> (\<open>umalloc.c\<close>): the ring of free blocks and the tiling of the heap.
  \<^item> \<open>Mkfs\<close> (\<open>mkfs.c\<close>): the image builder.

  \<^bold>\<open>Bounds and fuel.\<close> The parser of the shell has a depth of calls as an argument, which \<open>parsecmd\<close> sets to four for each byte of the
  line and four more; it is proved that it never runs out. The loops of \<open>free\<close> and \<open>malloc\<close>
  are partial functions, and it is proved that they return. All other loops have termination proofs. The bounds that
  appear as hypotheses are those of the code: three blocks for one transaction of \<open>filewrite\<close>, 140 blocks for a file,
  one block of bitmap as \<open>mkfs\<close> makes it, and requests below 2 GB for \<open>malloc\<close>, whose sizes are natural
  numbers in the model because they cannot overflow under that bound.

  \<^bold>\<open>Not modelled.\<close> Code in assembler and what only serves it (\<open>entry.S\<close>, \<open>swtch.S\<close>, \<open>trapasm.S\<close>, \<open>initcode.S\<close>, \<open>usys.S\<close>, \<open>vectors.pl\<close>, \<open>bootmain.c\<close>), since
  it has no meaning without a model of the processor; of a saved context only the words that C code writes are kept. Code that only
  touches device registers (\<open>gci.c\<close>, \<open>timer.c\<close>, \<open>lapic.c\<close>, \<open>mp.c\<close>, \<open>ide.c\<close>, the initialisation in \<open>uart.c\<close>) and \<open>main.c\<close>, which calls the
  initialisations in order. The keyboard driver (\<open>kbd.c\<close>) reads a status that is the constant 0, so it never delivers a key. The part of the shell that forks
  and the small programs (\<open>cat\<close>, \<open>echo\<close>, \<open>init\<close>, \<open>kill\<close>, \<open>ln\<close>, \<open>ls\<close>, \<open>mkdir\<close>, \<open>rm\<close>, \<open>wc\<close>, \<open>zombie\<close>) are sequences of system calls, and
  \<open>usertests.c\<close>, \<open>forktest.c\<close> and \<open>stressfs.c\<close> are tests. Interleaving inside a kernel
  operation is modelled where the code depends on it (spin locks, pipes, sleeping and waking); elsewhere a
  stretch of code that holds a lock is one step, and several CPUs appear only in \<open>Spinlock\<close>: \<open>startothers\<close> does nothing on mist32.
\<close>

end
